(* ===== verification/Prelude.thy ===== *)
theory Prelude
  imports Main "HOL-Library.Word"
begin

unbundle bit_operations_syntax

text \<open>
  Shared vocabulary of the development: the machine types of the x86-64 Linux target the
  repository builds for (little-endian, 64-bit \<open>size_t\<close>), faults as values, byte
  buffers with bounds-checked access, and the byte order of C integers in memory.
\<close>

section \<open>Machine types and faults\<close>

type_synonym byte = "8 word"
type_synonym u16 = "16 word"
type_synonym u32 = "32 word"
type_synonym u64 = "64 word"

text \<open>
  What the code can do besides returning: an access outside an object, a failed
  \<open>assert\<close>, a null or uninitialised pointer that is followed, an object used (or freed)
  after it was freed, a shift by the width of its operand or more, a signed operation whose result
  does not fit, a format that asks for an argument that was not passed or is no pointer, a thrown exception.
  Messages are printed, as in every build without \<open>NDEBUG\<close>.
\<close>

datatype fault =
    OutOfBounds
  | AssertFailed
  | NullDeref
  | BadShift
  | SignedOverflow
  | BadFormat
  | Uninitialised
  | UseAfterFree
  | Thrown string

type_synonym 'a result = "fault + 'a"

text \<open>Sequencing: the first fault ends the computation.\<close>

definition rbind :: "'a result \<Rightarrow> ('a \<Rightarrow> 'b result) \<Rightarrow> 'b result" where
  "rbind m f = (case m of Inl e \<Rightarrow> Inl e | Inr x \<Rightarrow> f x)"

lemma rbind_simps [simp]:
  "rbind (Inl e) f = Inl e"
  "rbind (Inr x) f = f x"
  by (simp_all add: rbind_def)

lemma rbind_eq_Inr_iff: "rbind m f = Inr y \<longleftrightarrow> (\<exists>x. m = Inr x \<and> f x = Inr y)"
  by (cases m) simp_all

lemma rbind_cong [fundef_cong]:
  "m = m' \<Longrightarrow> (\<And>x. m' = Inr x \<Longrightarrow> f x = f' x) \<Longrightarrow> rbind m f = rbind m' f'"
  by (cases m') simp_all

definition rassert :: "bool \<Rightarrow> unit result" where
  "rassert b = (if b then Inr () else Inl AssertFailed)"

lemma rassert_simps [simp]: "rassert True = Inr ()" "rassert False = Inl AssertFailed"
  by (simp_all add: rassert_def)

lemma option_eqI: "(\<And>v. x = Some v \<longleftrightarrow> y = Some v) \<Longrightarrow> x = y"
  by (cases x; cases y) auto

section \<open>Byte buffers\<close>

text \<open>
  An object of \<open>n\<close> bytes is a list of length \<open>n\<close>. Reads and writes name an offset and
  fault when they leave the object.
\<close>

definition mem_read :: "byte list \<Rightarrow> nat \<Rightarrow> nat \<Rightarrow> byte list result" where
  "mem_read m off n =
     (if off + n \<le> length m then Inr (take n (drop off m)) else Inl OutOfBounds)"

definition splice :: "'a list \<Rightarrow> nat \<Rightarrow> 'a list \<Rightarrow> 'a list" where
  "splice m off xs = take off m @ xs @ drop (off + length xs) m"

definition mem_write :: "byte list \<Rightarrow> nat \<Rightarrow> byte list \<Rightarrow> byte list result" where
  "mem_write m off bs =
     (if off + length bs \<le> length m then Inr (splice m off bs) else Inl OutOfBounds)"

named_theorems mem_simps \<open>reading what was written, and around it\<close>

lemma length_splice [simp]: "off + length xs \<le> length m \<Longrightarrow> length (splice m off xs) = length m"
  by (simp add: splice_def)

lemma splice_read_same [mem_simps]:
  "off + length xs \<le> length m \<Longrightarrow> take (length xs) (drop off (splice m off xs)) = xs"
  by (simp add: splice_def)

lemma splice_take_before [mem_simps]:
  "k \<le> off \<Longrightarrow> off \<le> length m \<Longrightarrow> take k (splice m off xs) = take k m"
  by (simp add: splice_def min_def)

lemma splice_drop_after [mem_simps]:
  "off + length xs \<le> k \<Longrightarrow> off \<le> length m \<Longrightarrow> drop k (splice m off xs) = drop k m"
  by (simp add: splice_def)

lemma splice_nth:
  assumes "off + length xs \<le> length m" and "i < length m"
  shows "splice m off xs ! i = (if off \<le> i \<and> i < off + length xs then xs ! (i - off) else m ! i)"
  using assms by (auto simp: splice_def nth_append min_def)

lemma splice_append_end: "splice m (length m) [] = m"
  by (simp add: splice_def)

lemma splice_Nil [simp]: "off \<le> length m \<Longrightarrow> splice m off [] = m"
  by (simp add: splice_def)

section \<open>Integers in memory\<close>

text \<open>The bytes of an integer at increasing addresses on a little-endian machine.\<close>

definition le_bytes16 :: "u16 \<Rightarrow> byte list" where
  "le_bytes16 w = [ucast w, ucast (drop_bit 8 w)]"

definition le_bytes32 :: "u32 \<Rightarrow> byte list" where
  "le_bytes32 w = [ucast w, ucast (drop_bit 8 w), ucast (drop_bit 16 w), ucast (drop_bit 24 w)]"

definition le_word16 :: "byte list \<Rightarrow> u16" where
  "le_word16 bs = ucast (bs ! 0) OR push_bit 8 (ucast (bs ! 1))"

definition le_word32 :: "byte list \<Rightarrow> u32" where
  "le_word32 bs = ucast (bs ! 0) OR push_bit 8 (ucast (bs ! 1))
     OR push_bit 16 (ucast (bs ! 2)) OR push_bit 24 (ucast (bs ! 3))"

lemma length_le_bytes [simp]: "length (le_bytes16 h) = 2" "length (le_bytes32 w) = 4"
  by (simp_all add: le_bytes16_def le_bytes32_def)

lemma le_word16_bytes [simp]: "le_word16 (le_bytes16 w) = w"
  by (rule bit_word_eqI) (auto simp: le_word16_def le_bytes16_def bit_simps)

lemma le_word32_bytes [simp]: "le_word32 (le_bytes32 w) = w"
proof (rule bit_word_eqI)
  fix n assume "n < LENGTH(32)"
  then consider "n < 16" | "16 \<le> n" "n < 24" | "24 \<le> n" "n < 32" by fastforce
  then show "bit (le_word32 (le_bytes32 w)) n = bit w n"
    by cases (auto simp: le_word32_def le_bytes32_def bit_simps)
qed

lemma byte_bit_beyond: "8 \<le> n \<Longrightarrow> \<not> bit (x :: byte) n"
  using bit_imp_le_length [of x n] by auto

lemma le_bytes16_word: "length bs = 2 \<Longrightarrow> le_bytes16 (le_word16 bs) = bs"
  using byte_bit_beyond
  by (auto simp: le_word16_def le_bytes16_def length_Suc_conv numeral_2_eq_2 bit_simps
      intro!: bit_word_eqI)

lemma le_bytes32_word:
  assumes "length bs = 4"
  shows "le_bytes32 (le_word32 bs) = bs"
proof -
  obtain a b c d where bs: "bs = [a, b, c, d]"
    using assms by (auto simp: length_Suc_conv numeral_eq_Suc)
  have "ucast (le_word32 [a, b, c, d]) = a"
    by (rule bit_word_eqI) (auto simp: le_word32_def bit_simps byte_bit_beyond)
  moreover have "ucast (drop_bit 8 (le_word32 [a, b, c, d])) = b"
    by (rule bit_word_eqI) (auto simp: le_word32_def bit_simps byte_bit_beyond)
  moreover have "ucast (drop_bit 16 (le_word32 [a, b, c, d])) = c"
    by (rule bit_word_eqI) (auto simp: le_word32_def bit_simps byte_bit_beyond)
  moreover have "ucast (drop_bit 24 (le_word32 [a, b, c, d])) = d"
    by (rule bit_word_eqI) (auto simp: le_word32_def bit_simps byte_bit_beyond)
  ultimately show ?thesis
    by (simp add: bs le_bytes32_def)
qed

text \<open>Network byte order: \<open>htons\<close>, \<open>ntohs\<close>, \<open>htonl\<close> and \<open>ntohl\<close> swap the bytes.\<close>

definition htons :: "u16 \<Rightarrow> u16" where
  "htons w = le_word16 (rev (le_bytes16 w))"

definition htonl :: "u32 \<Rightarrow> u32" where
  "htonl w = le_word32 (rev (le_bytes32 w))"

abbreviation ntohs :: "u16 \<Rightarrow> u16" where "ntohs \<equiv> htons"
abbreviation ntohl :: "u32 \<Rightarrow> u32" where "ntohl \<equiv> htonl"

lemma le_bytes_hton [simp]:
  "le_bytes16 (htons h) = rev (le_bytes16 h)" "le_bytes32 (htonl w) = rev (le_bytes32 w)"
  by (simp_all add: htons_def htonl_def le_bytes16_word le_bytes32_word)

lemma hton_hton [simp]: "htons (htons h) = h" "htonl (htonl w) = w"
  by (simp_all add: htons_def htonl_def le_bytes16_word le_bytes32_word)

lemma le_word_rev [simp]:
  "le_word16 (rev (le_bytes16 h)) = htons h" "le_word32 (rev (le_bytes32 w)) = htonl w"
  by (simp_all add: htons_def htonl_def)

lemma htons_inj [simp]: "htons a = htons b \<longleftrightarrow> a = b"
  by (metis hton_hton(1))

lemma htonl_inj [simp]: "htonl a = htonl b \<longleftrightarrow> a = b"
  by (metis hton_hton(2))

section \<open>Comparing memory\<close>

text \<open>\<open>memcmp\<close>: the C standard fixes the sign of the result, which is all that is used.\<close>

fun memcmp :: "byte list \<Rightarrow> byte list \<Rightarrow> int" where
  "memcmp (x # xs) (y # ys) = (if x < y then - 1 else if x > y then 1 else memcmp xs ys)"
| "memcmp _ _ = 0"

lemma memcmp_eq_0: "length xs = length ys \<Longrightarrow> memcmp xs ys = 0 \<longleftrightarrow> xs = ys"
  by (induction xs ys rule: list_induct2) auto

lemma memcmp_refl [simp]: "memcmp xs xs = 0"
  by (simp add: memcmp_eq_0)

end
