(* ===== verification/BitCount.thy ===== *)
theory BitCount
  imports Prelude
begin

text \<open>
  \<open>bitcount\<close> of \<open>base/util.c\<close>: the number of set bits of a 32-bit integer by octal
  digits. The first line of the C function replaces every octal digit \<open>d\<close> of \<open>n\<close> by
  \<open>d - d div 2 - d div 4\<close>, the bits set in it; the second adds neighbouring digits, keeps
  every other sum and casts out 63s. The lemmas follow these steps over lists of digits.
\<close>

section \<open>The function\<close>

text \<open>The masks are the octal 033333333333, 011111111111 and 030707070707 of the source.\<close>

definition bitcount :: "u32 \<Rightarrow> u32" where
  "bitcount n =
     (let count = n - (drop_bit 1 n AND 0xDB6DB6DB) - (drop_bit 2 n AND 0x49249249)
      in ((count + drop_bit 3 count) AND 0xC71C71C7) mod 63)"

section \<open>Bits and octal digits\<close>

lemma and_digit:
  fixes a b x y :: nat
  assumes "a < 2 ^ k" "b < 2 ^ k"
  shows "(a + 2 ^ k * x) AND (b + 2 ^ k * y) = (a AND b) + 2 ^ k * (x AND y)"
proof -
  let ?A = "a + 2 ^ k * x" and ?B = "b + 2 ^ k * y"
  have "?A AND ?B = (?A AND ?B) mod 2 ^ k + 2 ^ k * ((?A AND ?B) div 2 ^ k)"
    by simp
  also have "(?A AND ?B) mod 2 ^ k = (a AND b)"
    using assms take_bit_and [of k ?A ?B] by (simp add: take_bit_eq_mod  take_bit_nat_eq_self flip: take_bit_and)
       
  also have "(?A AND ?B) div 2 ^ k = (x AND y)"
    using assms by (simp add: drop_bit_eq_div [symmetric] drop_bit_and) (simp add: drop_bit_eq_div)
  finally show ?thesis .
qed

lemma and_digit8:
  "a < 8 \<Longrightarrow> b < 8 \<Longrightarrow> ((a::nat) + 8 * x) AND (b + 8 * y) = (a AND b) + 8 * (x AND y)"
  using and_digit [of a 3 b x y] by simp

lemma digit8_cases: "(d::nat) < 8 \<Longrightarrow> d \<in> {0,1,2,3,4,5,6,7}" by auto

text \<open>The value of an octal numeral, least digit first, with every digit rewritten.\<close>

fun octs :: "nat \<Rightarrow> nat \<Rightarrow> nat list" where
  "octs 0 n = []" | "octs (Suc k) n = n mod 8 # octs k (n div 8)"

fun oct_val :: "nat list \<Rightarrow> nat" where
  "oct_val [] = 0" | "oct_val (d # ds) = d + 8 * oct_val ds"

lemma oct_val_octs: "n < 8 ^ k \<Longrightarrow> oct_val (octs k n) = n"
  by (induction k arbitrary: n) (auto simp: less_mult_imp_div_less mult.commute)

lemma and3: "(d::nat) < 8 \<Longrightarrow> (d div 2 + 4 * (x mod 2)) AND 3 = d div 2"
  using digit8_cases [of d] by (cases "even x") (auto simp: odd_iff_mod_2_eq_one)

lemma and1: "(d::nat) < 8 \<Longrightarrow> (d div 4 + 2 * (x mod 4)) AND 1 = d div 4"
proof -
  assume d: "d < 8"
  have "x mod 4 \<in> {0,1,2,3}" by auto
  then show ?thesis using digit8_cases [OF d] by auto
qed

lemma half_digit: "((d::nat) + 8 * x) div 2 = d div 2 + 4 * (x mod 2) + 8 * (x div 2)"
proof -
  have "d + 8 * x = d + (4 * x) * 2" by simp
  then have "(d + 8 * x) div 2 = d div 2 + 4 * x" by simp
  also have "4 * x = 4 * (x mod 2) + 8 * (x div 2)"
    using mod_mult_div_eq [of x 2] by linarith
  finally show ?thesis by simp
qed
lemma quarter_digit: "((d::nat) + 8 * x) div 4 = d div 4 + 2 * (x mod 4) + 8 * (x div 4)"
proof -
  have "d + 8 * x = d + (2 * x) * 4" by simp
  then have "(d + 8 * x) div 4 = d div 4 + 2 * x" by simp
  also have "2 * x = 2 * (x mod 4) + 8 * (x div 4)"
    using mod_mult_div_eq [of x 4] by linarith
  finally show ?thesis by simp
qed
lemma neighbour_sum: assumes "(c::nat) \<le> 3"
  shows "(c + 8 * (d + 8 * r)) + (c + 8 * (d + 8 * r)) div 8
     = (c + d) + 8 * ((d + r mod 8) + 8 * (r + r div 8))"
proof -
  have "(c + 8 * (d + 8 * r)) div 8 = d + 8 * r" using assms by simp
  moreover have "r = r mod 8 + 8 * (r div 8)" by simp
  ultimately show ?thesis by (simp only: distrib_left mult.assoc [symmetric])
qed
lemma pairs_step_mod: "(c + d + 64 * p) mod 63 = (c + d + p) mod (63::nat)"
proof -
  have "c + d + 64 * p = (c + d + p) + p * 63" by simp
  then show ?thesis by (simp only: mod_mult_self1)
qed
lemma and7_small: "(c::nat) \<le> 3 \<Longrightarrow> d \<le> 3 \<Longrightarrow> (c + d) AND 7 = c + d"
  using take_bit_nat_eq_self [of "c + d" 3] by (simp add: take_bit_eq_mask mask_eq_exp_minus_1)

lemma shift1_digits:
  "\<forall>d\<in>set ds. d < 8 \<Longrightarrow>
   (oct_val ds div 2) AND oct_val (replicate (length ds) 3) = oct_val (map (\<lambda>d. d div 2) ds)"
proof (induction ds)
  case (Cons d ds)
  let ?x = "oct_val ds" and ?m = "oct_val (replicate (length ds) 3)"
  have d: "d < 8" using Cons.prems by simp
  have s: "oct_val (d # ds) div 2 = (d div 2 + 4 * (?x mod 2)) + 8 * (?x div 2)"
    by (simp only: oct_val.simps half_digit)
  have "d div 2 + 4 * (?x mod 2) < 8" using d by presburger
  then have "((d div 2 + 4 * (?x mod 2)) + 8 * (?x div 2)) AND (3 + 8 * ?m)
     = d div 2 + 8 * ((?x div 2) AND ?m)"
    by (subst and_digit8) (simp_all add: and3 [OF d])
  with s Cons show ?case by simp
qed simp

lemma shift2_digits:
  "\<forall>d\<in>set ds. d < 8 \<Longrightarrow>
   (oct_val ds div 4) AND oct_val (replicate (length ds) 1) = oct_val (map (\<lambda>d. d div 4) ds)"
proof (induction ds)
  case (Cons d ds)
  let ?x = "oct_val ds" and ?m = "oct_val (replicate (length ds) 1)"
  have d: "d < 8" using Cons.prems by simp
  have s: "oct_val (d # ds) div 4 = (d div 4 + 2 * (?x mod 4)) + 8 * (?x div 4)"
    by (simp only: oct_val.simps quarter_digit)
  have "d div 4 + 2 * (?x mod 4) < 8" using d by presburger
  then have "((d div 4 + 2 * (?x mod 4)) + 8 * (?x div 4)) AND (1 + 8 * ?m)
     = d div 4 + 8 * ((?x div 4) AND ?m)"
    using and1 [OF d] by (subst and_digit8) simp_all
  with s Cons show ?case by simp
qed simp

lemma oct_val_split:
  "oct_val ds = oct_val (map (\<lambda>d. d - d div 2 - d div 4) ds)
     + oct_val (map (\<lambda>d. d div 2) ds) + oct_val (map (\<lambda>d. d div 4) ds)"
proof (induction ds)
  case (Cons d ds)
  have "d = (d - d div 2 - d div 4) + d div 2 + d div 4" by linarith
  with Cons show ?case by simp
qed simp

lemma oct_val_le3: "\<forall>c\<in>set cs. c \<le> 3 \<Longrightarrow> oct_val cs \<le> oct_val (replicate (length cs) 3)"
  by (induction cs) auto

text \<open>Adding neighbours and keeping the even digits.\<close>

fun pairs :: "nat list \<Rightarrow> nat" where
  "pairs [] = 0" | "pairs [c] = c" | "pairs (c # d # cs) = c + d + 64 * pairs cs"

fun even7 :: "nat \<Rightarrow> nat" where
  "even7 0 = 0" | "even7 (Suc 0) = 3" | "even7 (Suc (Suc n)) = 7 + 64 * even7 n"

lemma oct_val_head: "\<forall>c\<in>set cs. c \<le> 3 \<Longrightarrow> oct_val cs mod 8 \<le> 3"
  by (cases cs) auto

lemma pairs_and:
  "\<forall>c\<in>set cs. c \<le> 3 \<Longrightarrow> (oct_val cs + oct_val cs div 8) AND even7 (length cs) = pairs cs"
proof (induction cs rule: pairs.induct)
  case (2 c) then have "c \<in> {0,1,2,3}" by auto
  then show ?case by auto
next
  case (3 c d cs)
  let ?r = "oct_val cs"
  have c: "c \<le> 3" "d \<le> 3" and r: "?r mod 8 \<le> 3" using "3.prems" oct_val_head [of cs] by auto
  have *: "(c + d) AND 7 = c + d"
    using c by (rule and7_small)
  have "oct_val (c # d # cs) + oct_val (c # d # cs) div 8
     = (c + d) + 8 * ((d + ?r mod 8) + 8 * (?r + ?r div 8))"
    using c by (simp only: oct_val.simps neighbour_sum)
  moreover have "\<dots> AND (7 + 8 * (0 + 8 * even7 (length cs)))
     = ((c + d) AND 7) + 8 * (((d + ?r mod 8) AND 0) + 8 * ((?r + ?r div 8) AND even7 (length cs)))"
    using c r by (subst and_digit8, simp, simp, subst and_digit8) simp_all
  ultimately show ?case using 3 * by (simp only: even7.simps length_Cons pairs.simps) simp
qed simp

lemma pairs_mod: "pairs cs mod 63 = sum_list cs mod 63"
proof (induction cs rule: pairs.induct)
  case (3 c d cs)
  have "pairs (c # d # cs) mod 63 = (c + d + pairs cs) mod 63" by (simp only: pairs.simps pairs_step_mod)
  also have "\<dots> = (c + d + sum_list cs) mod 63" using 3 by (metis mod_add_right_eq)
  finally show ?case by (simp add: add.assoc)
qed simp_all

lemma bitcount_octs:
  assumes d: "\<forall>d\<in>set ds. d < 8" and l: "length ds = 11" and b: "oct_val ds < 2 ^ 32"
    and n: "unat n = oct_val ds"
  shows "unat (bitcount n) = sum_list (map (\<lambda>d. d - d div 2 - d div 4) ds) mod 63"
proof -
  let ?c = "map (\<lambda>d. d - d div 2 - d div 4) ds"
  have r: "replicate (length ds) x = [x, x, x, x, x, x, x, x, x, x, x]" for x :: nat
    using l by (simp add: eval_nat_numeral)
  have m3: "oct_val (replicate (length ds) 3) = 0xDB6DB6DB"
   and m1: "oct_val (replicate (length ds) (Suc 0)) = 0x49249249"
    by (simp_all add: r)
  have "length ?c = Suc (Suc (Suc (Suc (Suc (Suc (Suc (Suc (Suc (Suc (Suc 0))))))))))"
    using l by simp
  then have m7: "even7 (length ?c) = 0xC71C71C7"
    by (simp only: even7.simps) simp
  define f where "f = drop_bit 1 n AND (0xDB6DB6DB :: u32)"
  define g where "g = drop_bit 2 n AND (0x49249249 :: u32)"
  have f: "unat f = oct_val (map (\<lambda>d. d div 2) ds)"
    using shift1_digits [OF d] n
    by (simp add: f_def m3 unsigned_and_eq drop_bit_eq_div unat_div)
  have g: "unat g = oct_val (map (\<lambda>d. d div 4) ds)"
    using shift2_digits [OF d] n
    by (simp add: g_def m1 unsigned_and_eq drop_bit_eq_div unat_div)
  have c3: "\<forall>c\<in>set ?c. c \<le> 3"
  proof
    fix c assume "c \<in> set ?c"
    then obtain d' where "d' < 8" "c = d' - d' div 2 - d' div 4" using d by auto
    then show "c \<le> 3" using digit8_cases [of d'] by auto
  qed
  define count where "count = n - f - g"
  have "n = of_nat (unat n)" by simp
  also have "unat n = oct_val ?c + unat f + unat g"
    unfolding n f g by (rule oct_val_split)
  finally have "n = of_nat (oct_val ?c + unat f + unat g)" .
  then have cnt: "count = of_nat (oct_val ?c)"
    by (simp add: count_def)
  have bnd: "oct_val ?c \<le> 0xDB6DB6DB"
    using oct_val_le3 [OF c3] m3 by simp
  then have uc: "unat count = oct_val ?c"
    by (simp add: cnt unat_of_nat)
  have "oct_val ?c + oct_val ?c div 8 < 2 ^ 32"
    using bnd div_le_mono [OF bnd, of 8] by simp
  then have "unat (count + drop_bit 3 count) = oct_val ?c + oct_val ?c div 8"
    using uc by (simp add: unat_word_ariths drop_bit_eq_div unat_div)
  then have "unat ((count + drop_bit 3 count) AND 0xC71C71C7) = pairs ?c"
    using pairs_and [OF c3] m7 by (simp add: unsigned_and_eq)
  then have "unat (bitcount n) = pairs ?c mod 63"
    by (simp add: bitcount_def count_def f_def g_def Let_def unat_mod)
  then show ?thesis by (simp only: pairs_mod)
qed

lemma digit_bits:
  assumes "(d::nat) < 8"
  shows "d - d div 2 - d div 4 = of_bool (bit d 0) + of_bool (bit d 1) + of_bool (bit d 2)"
  using digit8_cases [OF assms] by (auto simp: bit_nat_def)

lemma octs_bits:
  "sum_list (map (\<lambda>d. d - d div 2 - d div 4) (octs k n)) = (\<Sum>i<3 * k. of_bool (bit n i))"
proof (induction k arbitrary: n)
  case (Suc k)
  have m: "bit n i = bit (n mod 8) i" if "i < 3" for i
    using that bit_take_bit_iff [of 3 n i] by (simp add: take_bit_eq_mod)
  have d8: "n div 2 div 2 div 2 = n div 8"
    by (simp add: div_mult2_eq [symmetric])
  have "3 * Suc k = Suc (Suc (Suc (3 * k)))" by simp
  then have "(\<Sum>i<3 * Suc k. of_bool (bit n i))
      = (\<Sum>i<Suc (Suc (Suc (3 * k))). of_bool (bit n i) :: nat)"
    by (simp only:)
  also have "\<dots> = of_bool (bit n 0) + of_bool (bit n 1) + of_bool (bit n 2)
      + (\<Sum>i<3 * k. of_bool (bit (n div 8) i))"
    by (simp only: sum.lessThan_Suc_shift bit_Suc d8) (simp add: bit_Suc numeral_2_eq_2)
  also have "of_bool (bit n 0) + of_bool (bit n 1) + of_bool (bit n 2)
      = n mod 8 - n mod 8 div 2 - n mod 8 div 4"
    by (simp only: m [of 0] m [of 1] m [of 2] digit_bits [of "n mod 8"])
  finally show ?case by (simp only: octs.simps list.map sum_list.Cons Suc.IH)
qed simp

lemma octs_digits: "\<forall>d\<in>set (octs k n). d < 8" "length (octs k n) = k"
  by (induction k arbitrary: n) auto

lemma bitcount_card: "unat (bitcount n) = card {i. bit n i}"
proof -
  let ?v = "unat n" and ?ds = "octs 11 (unat n)"
  have lt: "?v < 2 ^ 32" using unsigned_less [of n] by simp
  have ds: "oct_val ?ds = ?v" by (rule oct_val_octs) (use lt in simp)
  have eq: "{..<33} \<inter> {i. bit ?v i} = {i. bit n i}"
    by (auto simp: bit_unsigned_iff dest: bit_imp_le_length)
  have "{i. bit n i} \<subseteq> {..<32}" by (auto dest: bit_imp_le_length)
  then have le: "card {i. bit n i} \<le> 32"
    using card_mono [of "{..<32::nat}"] by fastforce
  have "unat (bitcount n) = sum_list (map (\<lambda>d. d - d div 2 - d div 4) ?ds) mod 63"
    using lt ds by (intro bitcount_octs) (simp_all add: octs_digits)
  also have "\<dots> = (\<Sum>i<33. of_bool (bit ?v i)) mod 63"
    by (simp only: octs_bits) simp
  also have "(\<Sum>i<33. of_bool (bit ?v i)) = card {i. bit n i}"
    by (simp add: eq)
  finally show ?thesis using le by simp
qed

text \<open>C34. The parallel count by octal digits is right for every 32-bit word: \<open>bitcount\<close>
  returns the number of its set bits.\<close>

theorem bitcount_correct: "unat (bitcount n) = card {i. bit n i}"
  by (rule bitcount_card)

end
