(* ===== verification/Util.thy ===== *)
theory Util
  imports BitCount
begin

text \<open>
  \<open>base/util.c\<close>: the cursor operations that write and read a message field by field, and
  the hexadecimal reader. A \<open>uint8_t **bufpointer\<close> is a buffer and an offset into it;
  every access is checked against the buffer.
\<close>

section \<open>The cursor\<close>

record cursor =
  cur_mem :: "byte list"
  cur_pos :: nat

definition cur_put :: "cursor \<Rightarrow> byte list \<Rightarrow> nat \<Rightarrow> cursor result" where
  "cur_put c bs step =
     rbind (mem_write (cur_mem c) (cur_pos c) bs)
       (\<lambda>m. Inr (c\<lparr>cur_mem := m, cur_pos := cur_pos c + step\<rparr>))"

definition cur_get :: "cursor \<Rightarrow> nat \<Rightarrow> (byte list \<times> cursor) result" where
  "cur_get c n =
     rbind (mem_read (cur_mem c) (cur_pos c) n)
       (\<lambda>bs. Inr (bs, c\<lparr>cur_pos := cur_pos c + n\<rparr>))"

definition AddToBuffer :: "cursor \<Rightarrow> byte list \<Rightarrow> cursor result" where
  "AddToBuffer c data = cur_put c data (length data)"

definition AddToBuffer32 :: "cursor \<Rightarrow> u32 \<Rightarrow> cursor result" where
  "AddToBuffer32 c data = cur_put c (le_bytes32 (htonl data)) 4"

definition AddToBuffer16 :: "cursor \<Rightarrow> u16 \<Rightarrow> cursor result" where
  "AddToBuffer16 c data = cur_put c (le_bytes16 (htons data)) 2"

definition AddToBuffer32NoOrder :: "cursor \<Rightarrow> u32 \<Rightarrow> cursor result" where
  "AddToBuffer32NoOrder c data = cur_put c (le_bytes32 data) 4"

text \<open>The source stores through a \<open>uint32_t\<close> pointer: four bytes are written, two counted.\<close>

definition AddToBuffer16NoOrder :: "cursor \<Rightarrow> u16 \<Rightarrow> cursor result" where
  "AddToBuffer16NoOrder c data = cur_put c (le_bytes32 (ucast data)) 2"

definition AddToBuffer8 :: "cursor \<Rightarrow> byte \<Rightarrow> cursor result" where
  "AddToBuffer8 c data = cur_put c [data] 1"

text \<open>C promotes the operands to \<open>int\<close> before the shift and the mask.\<close>

definition AddToBuffer4 :: "cursor \<Rightarrow> byte \<Rightarrow> byte \<Rightarrow> cursor result" where
  "AddToBuffer4 c data8 data4 =
     (let toWrite = ucast (push_bit 4 (ucast data8 :: u32) AND (ucast data4 OR 0xF0)) :: byte
      in cur_put c [toWrite] 1)"

definition AddToBuffer1 :: "cursor \<Rightarrow> byte \<Rightarrow> nat \<Rightarrow> cursor result" where
  "AddToBuffer1 c data place =
     (if 32 \<le> place then Inl BadShift
      else cur_put c [ucast (push_bit place (ucast data AND 0xFE :: u32))] 0)"

definition GetFromBuffer :: "cursor \<Rightarrow> nat \<Rightarrow> (byte list \<times> cursor) result" where
  "GetFromBuffer c ofData = cur_get c ofData"

definition GetFromBuffer32 :: "cursor \<Rightarrow> (u32 \<times> cursor) result" where
  "GetFromBuffer32 c = rbind (cur_get c 4) (\<lambda>(bs, c'). Inr (ntohl (le_word32 bs), c'))"

definition GetFromBuffer16 :: "cursor \<Rightarrow> (u16 \<times> cursor) result" where
  "GetFromBuffer16 c = rbind (cur_get c 2) (\<lambda>(bs, c'). Inr (ntohs (le_word16 bs), c'))"

definition GetFromBuffer32NoOrder :: "cursor \<Rightarrow> (u32 \<times> cursor) result" where
  "GetFromBuffer32NoOrder c = rbind (cur_get c 4) (\<lambda>(bs, c'). Inr (le_word32 bs, c'))"

definition GetFromBuffer16NoOrder :: "cursor \<Rightarrow> (u16 \<times> cursor) result" where
  "GetFromBuffer16NoOrder c = rbind (cur_get c 2) (\<lambda>(bs, c'). Inr (le_word16 bs, c'))"

definition GetFromBuffer8 :: "cursor \<Rightarrow> (byte \<times> cursor) result" where
  "GetFromBuffer8 c = rbind (cur_get c 1) (\<lambda>(bs, c'). Inr (bs ! 0, c'))"

text \<open>
  The two outputs of \<open>GetFromBuffer4\<close> are optional pointers; the model returns what it
  stores through each that is not null. A null pair reads nothing.
\<close>

definition GetFromBuffer4 ::
  "cursor \<Rightarrow> bool \<Rightarrow> bool \<Rightarrow> (byte option \<times> byte option \<times> cursor) result" where
  "GetFromBuffer4 c want8 want4 =
     (if want8 \<or> want4 then
        rbind (cur_get c 1) (\<lambda>(bs, c').
          Inr (if want8 then Some (drop_bit 4 (bs ! 0)) else None,
               if want4 then Some (bs ! 0 AND 0xF0) else None, c'))
      else Inr (None, None, c\<lparr>cur_pos := cur_pos c + 1\<rparr>))"

definition GetFromBuffer1 :: "cursor \<Rightarrow> nat \<Rightarrow> byte result" where
  "GetFromBuffer1 c place =
     (if 32 \<le> place then Inl BadShift
      else rbind (cur_get c 1) (\<lambda>(bs, c'). Inr (drop_bit place (bs ! 0) AND 0xFE)))"

section \<open>Messages as sequences of fields\<close>

datatype field = Raw "byte list" | F32 u32 | F16 u16 | F32N u32 | F16N u16 | F8 byte

fun put_field :: "cursor \<Rightarrow> field \<Rightarrow> cursor result" where
  "put_field c (Raw bs) = AddToBuffer c bs"
| "put_field c (F32 w) = AddToBuffer32 c w"
| "put_field c (F16 h) = AddToBuffer16 c h"
| "put_field c (F32N w) = AddToBuffer32NoOrder c w"
| "put_field c (F16N h) = AddToBuffer16NoOrder c h"
| "put_field c (F8 b) = AddToBuffer8 c b"

text \<open>Reading a field of the same kind (and length) as the one given.\<close>

fun get_field :: "cursor \<Rightarrow> field \<Rightarrow> (field \<times> cursor) result" where
  "get_field c (Raw bs) = rbind (GetFromBuffer c (length bs)) (\<lambda>(x, c'). Inr (Raw x, c'))"
| "get_field c (F32 _) = rbind (GetFromBuffer32 c) (\<lambda>(x, c'). Inr (F32 x, c'))"
| "get_field c (F16 _) = rbind (GetFromBuffer16 c) (\<lambda>(x, c'). Inr (F16 x, c'))"
| "get_field c (F32N _) = rbind (GetFromBuffer32NoOrder c) (\<lambda>(x, c'). Inr (F32N x, c'))"
| "get_field c (F16N _) = rbind (GetFromBuffer16NoOrder c) (\<lambda>(x, c'). Inr (F16N x, c'))"
| "get_field c (F8 _) = rbind (GetFromBuffer8 c) (\<lambda>(x, c'). Inr (F8 x, c'))"

fun put_fields :: "cursor \<Rightarrow> field list \<Rightarrow> cursor result" where
  "put_fields c [] = Inr c"
| "put_fields c (f # fs) = rbind (put_field c f) (\<lambda>c'. put_fields c' fs)"

fun get_fields :: "cursor \<Rightarrow> field list \<Rightarrow> (field list \<times> cursor) result" where
  "get_fields c [] = Inr ([], c)"
| "get_fields c (f # fs) =
     rbind (get_field c f) (\<lambda>(x, c'). rbind (get_fields c' fs) (\<lambda>(xs, c''). Inr (x # xs, c'')))"

text \<open>The bytes a field occupies and the bytes its write touches.\<close>

fun field_bytes :: "field \<Rightarrow> byte list" where
  "field_bytes (Raw bs) = bs"
| "field_bytes (F32 w) = rev (le_bytes32 w)"
| "field_bytes (F16 h) = rev (le_bytes16 h)"
| "field_bytes (F32N w) = le_bytes32 w"
| "field_bytes (F16N h) = le_bytes16 h"
| "field_bytes (F8 b) = [b]"

fun field_image :: "field \<Rightarrow> byte list" where
  "field_image (F16N h) = le_bytes32 (ucast h)"
| "field_image f = field_bytes f"

lemmas cursor_defs = AddToBuffer_def AddToBuffer32_def AddToBuffer16_def
  AddToBuffer32NoOrder_def AddToBuffer16NoOrder_def AddToBuffer8_def
  GetFromBuffer_def GetFromBuffer32_def GetFromBuffer16_def
  GetFromBuffer32NoOrder_def GetFromBuffer16NoOrder_def GetFromBuffer8_def

lemma le_bytes32_ucast16: "take 2 (le_bytes32 (ucast (h :: u16))) = le_bytes16 h"
proof -
  have "ucast (ucast h :: u32) = (ucast h :: byte)"
    by (rule bit_word_eqI) (auto simp: bit_simps)
  moreover have "ucast (drop_bit 8 (ucast h :: u32)) = (ucast (drop_bit 8 h) :: byte)"
    by (rule bit_word_eqI) (auto simp: bit_simps)
  ultimately show ?thesis by (simp add: le_bytes32_def le_bytes16_def numeral_2_eq_2)
qed

lemma field_image_bytes: "take (length (field_bytes f)) (field_image f) = field_bytes f"
  by (cases f) (simp_all add: le_bytes32_ucast16)

lemma field_image_ge: "length (field_bytes f) \<le> length (field_image f)"
  by (cases f) simp_all

lemma put_field_eq: "put_field c f = cur_put c (field_image f) (length (field_bytes f))"
  by (cases f) (simp_all add: cursor_defs)

lemma get_field_bytes:
  assumes "cur_pos c + length (field_bytes f) \<le> length (cur_mem c)"
    and "take (length (field_bytes f)) (drop (cur_pos c) (cur_mem c)) = field_bytes f"
  shows "get_field c f = Inr (f, c\<lparr>cur_pos := cur_pos c + length (field_bytes f)\<rparr>)"
  using assms
  by (cases f) (simp_all add: cursor_defs cur_get_def mem_read_def htons_def [symmetric] htonl_def [symmetric]
      flip: le_bytes_hton)

lemma put_field_frame:
  assumes "put_field c f = Inr c'"
  shows "cur_pos c' = cur_pos c + length (field_bytes f)"
    and "length (cur_mem c') = length (cur_mem c)"
    and "cur_pos c' \<le> length (cur_mem c')"
    and "take (cur_pos c') (cur_mem c') = take (cur_pos c) (cur_mem c) @ field_bytes f"
proof -
  let ?n = "length (field_bytes f)" and ?xs = "field_image f"
  from assms have room: "cur_pos c + length ?xs \<le> length (cur_mem c)"
    and c': "c' = c\<lparr>cur_mem := splice (cur_mem c) (cur_pos c) ?xs, cur_pos := cur_pos c + ?n\<rparr>"
    by (auto simp: put_field_eq cur_put_def mem_write_def split: if_splits)
  show "cur_pos c' = cur_pos c + ?n" "length (cur_mem c') = length (cur_mem c)"
    "cur_pos c' \<le> length (cur_mem c')"
    using room field_image_ge [of f] by (simp_all add: c')
  show "take (cur_pos c') (cur_mem c') = take (cur_pos c) (cur_mem c) @ field_bytes f"
  proof (cases "field_image f = []")
    case True
    then have "field_bytes f = []" using field_image_bytes [of f] by simp
    with True show ?thesis using room by (simp add: c')
  next
    case False
    then have "cur_pos c < length (cur_mem c)" using room by (cases "field_image f") auto
    then show ?thesis
      using room field_image_ge [of f] field_image_bytes [of f] by (simp add: c' splice_def min_def)
  qed
qed

lemma put_fields_frame:
  assumes "put_fields c fs = Inr c'" and "cur_pos c \<le> length (cur_mem c)"
  shows "length (cur_mem c') = length (cur_mem c) \<and> cur_pos c' \<le> length (cur_mem c') \<and>
    take (cur_pos c') (cur_mem c') = take (cur_pos c) (cur_mem c) @ concat (map field_bytes fs)"
  using assms
proof (induction fs arbitrary: c)
  case (Cons f fs)
  then obtain c1 where c1: "put_field c f = Inr c1" "put_fields c1 fs = Inr c'"
    by (auto simp: rbind_eq_Inr_iff)
  with Cons.IH [OF c1(2)] put_field_frame [OF c1(1)] show ?case by simp
qed simp

lemma get_fields_bytes:
  assumes "cur_pos c + length (concat (map field_bytes fs)) \<le> length (cur_mem c)"
    and "take (length (concat (map field_bytes fs))) (drop (cur_pos c) (cur_mem c))
           = concat (map field_bytes fs)"
  shows "get_fields c fs
    = Inr (fs, c\<lparr>cur_pos := cur_pos c + length (concat (map field_bytes fs))\<rparr>)"
  using assms
proof (induction fs arbitrary: c)
  case (Cons f fs)
  let ?n = "length (field_bytes f)" and ?r = "concat (map field_bytes fs)"
  let ?c = "c\<lparr>cur_pos := cur_pos c + ?n\<rparr>"
  have t: "take (?n + length ?r) (drop (cur_pos c) (cur_mem c)) = field_bytes f @ ?r"
    using Cons.prems(2) by simp
  then have 1: "take ?n (drop (cur_pos c) (cur_mem c)) = field_bytes f"
    and 2: "take (length ?r) (drop (cur_pos c + ?n) (cur_mem c)) = ?r"
    using Cons.prems(1) by (simp_all add: take_add add.commute append_eq_append_conv)
  have "get_field c f = Inr (f, ?c)"
    using Cons.prems(1) 1 by (intro get_field_bytes) simp_all
  moreover have "get_fields ?c fs = Inr (fs, ?c\<lparr>cur_pos := cur_pos ?c + length ?r\<rparr>)"
    using Cons.prems(1) 2 by (intro Cons.IH) simp_all
  ultimately show ?case by (simp add: add.assoc)
qed simp

text \<open>Reading back, from where the writing began, gives the message that was written.\<close>

lemma put_get_fields:
  assumes "put_fields c fs = Inr c'" and "cur_pos c \<le> length (cur_mem c)"
  shows "get_fields (c'\<lparr>cur_pos := cur_pos c\<rparr>) fs = Inr (fs, c')"
proof -
  let ?r = "concat (map field_bytes fs)"
  have len: "length (cur_mem c') = length (cur_mem c)" "cur_pos c' \<le> length (cur_mem c')"
    and t: "take (cur_pos c') (cur_mem c') = take (cur_pos c) (cur_mem c) @ ?r"
    using put_fields_frame [OF assms] by simp_all
  have p: "cur_pos c' = cur_pos c + length ?r"
    using arg_cong [OF t, of length] len assms(2) by simp
  have "take (length ?r) (drop (cur_pos c) (cur_mem c')) = drop (cur_pos c) (take (cur_pos c') (cur_mem c'))"
    by (simp add: p take_drop add.commute)
  also have "\<dots> = ?r" using t assms(2) by simp
  finally have "get_fields (c'\<lparr>cur_pos := cur_pos c\<rparr>) fs
      = Inr (fs, c'\<lparr>cur_pos := cur_pos c, cur_pos := cur_pos c + length ?r\<rparr>)"
    using get_fields_bytes [of "c'\<lparr>cur_pos := cur_pos c\<rparr>" fs] len p by simp
  then show ?thesis by (simp add: p [symmetric])
qed

text \<open>How much room a message needs: its bytes, and what a last wide store spills.\<close>

fun message_room :: "field list \<Rightarrow> nat" where
  "message_room [] = 0"
| "message_room (f # fs) =
     max (length (field_image f)) (length (field_bytes f) + message_room fs)"

lemma put_fields_total:
  "cur_pos c + message_room fs \<le> length (cur_mem c) \<Longrightarrow> \<exists>c'. put_fields c fs = Inr c'"
proof (induction fs arbitrary: c)
  case (Cons f fs)
  then have "cur_pos c + length (field_image f) \<le> length (cur_mem c)" by simp
  then obtain c1 where c1: "put_field c f = Inr c1"
    by (simp add: put_field_eq cur_put_def mem_write_def)
  have "cur_pos c1 + message_room fs \<le> length (cur_mem c1)"
    using Cons.prems put_field_frame(1,2) [OF c1] by simp
  with Cons.IH c1 show ?case by simp
qed simp

section \<open>Nibbles\<close>

text \<open>What one nibble write leaves in the buffer: the second argument has no part in it.\<close>

lemma byte_eqI: "(\<And>n. n \<in> {0, 1, 2, 3, 4, 5, 6, 7} \<Longrightarrow> bit a n = bit b n) \<Longrightarrow> a = (b :: byte)"
proof (rule bit_word_eqI)
  fix n
  assume eq: "\<And>n. n \<in> {0, 1, 2, 3, 4, 5, 6, 7} \<Longrightarrow> bit a n = bit b n" and "n < LENGTH(8)"
  from this(2) have "n \<in> {0, 1, 2, 3, 4, 5, 6, 7}" by auto
  then show "bit a n = bit b n" by (rule eq)
qed

lemma AddToBuffer4_byte:
  "(ucast (push_bit 4 (ucast a :: u32) AND (ucast b OR 0xF0)) :: byte) = push_bit 4 (a :: byte)"
  by (rule byte_eqI) (auto simp: bit_simps)

lemma AddToBuffer4_eq: "AddToBuffer4 c a b = cur_put c [push_bit 4 a] 1"
  by (simp add: AddToBuffer4_def AddToBuffer4_byte del: push_bit_numeral)

section \<open>Hexadecimal\<close>

definition hex_to_uint8 :: "char \<Rightarrow> byte" where
  "hex_to_uint8 hex =
     (if hex = CHR ''0'' then 0 else if hex = CHR ''1'' then 1
      else if hex = CHR ''2'' then 2 else if hex = CHR ''3'' then 3
      else if hex = CHR ''4'' then 4 else if hex = CHR ''5'' then 5
      else if hex = CHR ''6'' then 6 else if hex = CHR ''7'' then 7
      else if hex = CHR ''8'' then 8 else if hex = CHR ''9'' then 9
      else if hex = CHR ''A'' then 10 else if hex = CHR ''B'' then 11
      else if hex = CHR ''C'' then 12 else if hex = CHR ''D'' then 13
      else if hex = CHR ''E'' then 14 else if hex = CHR ''F'' then 15
      else 0)"

definition combine :: "byte \<Rightarrow> byte \<Rightarrow> byte" where
  "combine half1 half2 = ucast (push_bit 4 (ucast half1 :: u32) OR ucast half2)"

text \<open>
  Reading a C string by index: the terminator is there to read, what lies behind it is not.
\<close>

definition cstr_at :: "string \<Rightarrow> nat \<Rightarrow> char result" where
  "cstr_at s i =
     (if i < length s then Inr (s ! i)
      else if i = length s then Inr (CHR 0x00) else Inl OutOfBounds)"

definition hex_byte :: "string \<Rightarrow> nat \<Rightarrow> byte result" where
  "hex_byte hex i =
     rbind (cstr_at hex i) (\<lambda>a. rbind (cstr_at hex (i + 1)) (\<lambda>b.
       Inr (combine (hex_to_uint8 a) (hex_to_uint8 b))))"

definition hex_to_uint32 :: "string \<Rightarrow> u32 result" where
  "hex_to_uint32 hex =
     rbind (hex_byte hex 0) (\<lambda>a. rbind (hex_byte hex 2) (\<lambda>b.
     rbind (hex_byte hex 4) (\<lambda>c. rbind (hex_byte hex 6) (\<lambda>d.
       Inr (le_word32 [a, b, c, d])))))"

text \<open>The kernel prints these numbers with \<open>%08X\<close>: eight upper-case digits, high first.\<close>

definition hex_digit :: "nat \<Rightarrow> char" where
  "hex_digit n = ''0123456789ABCDEF'' ! n"

definition hex_print_byte :: "byte \<Rightarrow> string" where
  "hex_print_byte b = [hex_digit (unat b div 16), hex_digit (unat b mod 16)]"

definition hex_print32 :: "u32 \<Rightarrow> string" where
  "hex_print32 w = concat (map hex_print_byte (rev (le_bytes32 w)))"

lemma hex_to_uint8_digit: "n < 16 \<Longrightarrow> hex_to_uint8 (hex_digit n) = of_nat n"
proof -
  have "\<forall>k\<in>set [0..<16]. hex_to_uint8 (hex_digit k) = of_nat k"
    by (simp add: upt_rec hex_digit_def hex_to_uint8_def)
  then show "n < 16 \<Longrightarrow> ?thesis" by simp
qed

lemma combine_nibbles:
  fixes b :: byte
  shows "combine (of_nat (unat b div 16)) (of_nat (unat b mod 16)) = b"
proof -
  have "of_nat (unat b div 16) = drop_bit 4 b" and "of_nat (unat b mod 16) = take_bit 4 b"
    by (simp_all add: drop_bit_eq_div take_bit_eq_mod of_nat_div of_nat_mod word_arith_nat_div
        word_arith_nat_mod)
  moreover have "combine (drop_bit 4 b) (take_bit 4 b) = b"
    by (rule bit_word_eqI) (auto simp: combine_def bit_simps)
  ultimately show ?thesis by simp
qed

lemma hex_byte_print:
  "hex_byte (pre @ hex_print_byte b @ suf) (length pre) = Inr b"
proof -
  have "unat b < 2 ^ 8" using unsigned_less [of b] by simp
  then have "unat b div 16 < 16" by (simp add: less_mult_imp_div_less)
  then show ?thesis
    by (simp add: hex_byte_def cstr_at_def hex_print_byte_def nth_append hex_to_uint8_digit
        combine_nibbles)
qed

lemma hex_to_uint32_print: "hex_to_uint32 (hex_print32 w) = Inr (htonl w)"
proof -
  obtain a b c d where w: "rev (le_bytes32 w) = [a, b, c, d]"
    by (simp add: le_bytes32_def)
  have s: "hex_print32 w = hex_print_byte a @ hex_print_byte b @ hex_print_byte c @ hex_print_byte d"
    by (simp add: hex_print32_def w)
  have l: "length (hex_print_byte x) = 2" for x by (simp add: hex_print_byte_def)
  have "hex_byte (hex_print32 w) 0 = Inr a" "hex_byte (hex_print32 w) 2 = Inr b"
    "hex_byte (hex_print32 w) 4 = Inr c" "hex_byte (hex_print32 w) 6 = Inr d"
    using hex_byte_print [of "[]" a "hex_print_byte b @ hex_print_byte c @ hex_print_byte d"]
      hex_byte_print [of "hex_print_byte a" b "hex_print_byte c @ hex_print_byte d"]
      hex_byte_print [of "hex_print_byte a @ hex_print_byte b" c "hex_print_byte d"]
      hex_byte_print [of "hex_print_byte a @ hex_print_byte b @ hex_print_byte c" d "[]"]
    by (simp_all add: s l)
  then show ?thesis by (simp add: hex_to_uint32_def htonl_def w)
qed

section \<open>Properties\<close>

text \<open>C33. A message written field by field with the \<open>AddToBuffer\<close> operations into a buffer
  with room for it is never refused, and the \<open>GetFromBuffer\<close> operations read the same
  fields back, ending where the writing ended.\<close>

theorem message_roundtrip:
  assumes "cur_pos c + message_room fs \<le> length (cur_mem c)"
  shows "\<exists>c'. put_fields c fs = Inr c' \<and> get_fields (c'\<lparr>cur_pos := cur_pos c\<rparr>) fs = Inr (fs, c')"
proof -
  obtain c' where "put_fields c fs = Inr c'" using put_fields_total [OF assms] by blast
  then show ?thesis using put_get_fields [of c fs c'] assms by simp
qed

theorem message_roundtrip_witness:
  "\<exists>c'. put_fields \<lparr>cur_mem = replicate 12 0, cur_pos = 1\<rparr> [F8 7, F32 0x01020304, F16N 0x0506, Raw [8, 9]]
     = Inr c' \<and>
   get_fields (c'\<lparr>cur_pos := 1\<rparr>) [F8 7, F32 0x01020304, F16N 0x0506, Raw [8, 9]]
     = Inr ([F8 7, F32 0x01020304, F16N 0x0506, Raw [8, 9]], c')"
  using message_roundtrip [of "\<lparr>cur_mem = replicate 12 0, cur_pos = 1\<rparr>"
      "[F8 7, F32 0x01020304, F16N 0x0506, Raw [8, 9]]"] by simp

text \<open>\<open>AddToBuffer16NoOrder\<close> needs four bytes of room for its two: with two or three
  left in the buffer the store leaves it, and with four or more the two bytes behind the
  field are overwritten with zeros.\<close>

theorem AddToBuffer16NoOrder_spill:
  "AddToBuffer16NoOrder c h =
     (if cur_pos c + 4 \<le> length (cur_mem c)
      then Inr (c\<lparr>cur_mem := splice (cur_mem c) (cur_pos c) (le_bytes16 h @ [0, 0]),
                  cur_pos := cur_pos c + 2\<rparr>)
      else Inl OutOfBounds)"
proof -
  have "drop_bit 16 (ucast h :: u32) = 0" "drop_bit 24 (ucast h :: u32) = 0"
    by (rule bit_word_eqI, auto simp: bit_simps dest: bit_imp_le_length)+
  then have "le_bytes32 (ucast h) = take 2 (le_bytes32 (ucast h)) @ [0, 0]"
    by (simp add: le_bytes32_def numeral_2_eq_2)
  then show ?thesis
    by (simp add: AddToBuffer16NoOrder_def cur_put_def mem_write_def le_bytes32_ucast16)
qed

text \<open>The low nibble is lost: whatever \<open>data4\<close> is, \<open>AddToBuffer4\<close> writes the same byte,
  and \<open>GetFromBuffer4\<close> recovers the low half of \<open>data8\<close> but reports it again, shifted, as
  \<open>data4\<close>.\<close>

theorem nibble_loss:
  assumes "cur_pos c < length (cur_mem c)"
  shows "\<exists>c'. AddToBuffer4 c a b = Inr c' \<and>
    GetFromBuffer4 (c'\<lparr>cur_pos := cur_pos c\<rparr>) True True
      = Inr (Some (a AND 0x0F), Some (push_bit 4 a), c')"
proof -
  have "drop_bit 4 (push_bit 4 a) = a AND 0x0F" "push_bit 4 a AND 0xF0 = push_bit 4 a"
    by (rule byte_eqI, auto simp: bit_simps)+
  then show ?thesis
    using assms by (simp add: AddToBuffer4_eq GetFromBuffer4_def cur_put_def cur_get_def
        mem_write_def mem_read_def splice_def min_def)
qed

theorem nibble_loss_witness:
  "\<exists>c'. AddToBuffer4 \<lparr>cur_mem = [0], cur_pos = 0\<rparr> 0x02 0x05 = Inr c' \<and>
    GetFromBuffer4 (c'\<lparr>cur_pos := 0\<rparr>) True True = Inr (Some 0x02, Some 0x20, c')"
  using nibble_loss [where a = "0x02" and b = "0x05" and c = "\<lparr>cur_mem = [0], cur_pos = 0\<rparr>"] by simp

text \<open>\<open>hex_to_uint32\<close> reads eight upper-case hexadecimal digits in memory order: what
  \<open>%08X\<close> prints for a number comes back as that number in network byte order.\<close>

theorem hex_roundtrip: "hex_to_uint32 (hex_print32 w) = Inr (htonl w)"
  by (rule hex_to_uint32_print)

end
