(* ===== verification/QueueSpec.thy ===== *)
theory QueueSpec
  imports Prelude
begin

text \<open>
  The contract of the message queues, as their clients use it: a first-in first-out queue
  with a relation \<open>rep\<close> between its memory and the list it holds. \<open>fresh\<close> says which
  elements may be pushed (an intrusive queue takes a node only once at a time).
\<close>

section \<open>Clients of a queue\<close>

fun push_all :: "('q \<Rightarrow> 'e \<Rightarrow> 'q) \<Rightarrow> 'q \<Rightarrow> 'e list \<Rightarrow> 'q" where
  "push_all push q [] = q"
| "push_all push q (x # xs) = push_all push (push q x) xs"

fun pop_n :: "('q \<Rightarrow> 'q \<times> 'e option) \<Rightarrow> nat \<Rightarrow> 'q \<Rightarrow> 'q \<times> 'e option list" where
  "pop_n pop 0 q = (q, [])"
| "pop_n pop (Suc n) q =
     (let (q', x) = pop q; (q'', xs) = pop_n pop n q' in (q'', x # xs))"

section \<open>The contract\<close>

locale fifo =
  fixes rep :: "'q \<Rightarrow> 'e list \<Rightarrow> bool"
    and init :: 'q
    and push :: "'q \<Rightarrow> 'e \<Rightarrow> 'q"
    and pop :: "'q \<Rightarrow> 'q \<times> 'e option"
    and fresh :: "'e list \<Rightarrow> 'e \<Rightarrow> bool"
  assumes rep_init: "rep init []"
    and rep_push: "rep q xs \<Longrightarrow> fresh xs x \<Longrightarrow> rep (push q x) (xs @ [x])"
    and rep_pop_Nil: "rep q [] \<Longrightarrow> snd (pop q) = None \<and> rep (fst (pop q)) []"
    and rep_pop_Cons: "rep q (x # xs) \<Longrightarrow> snd (pop q) = Some x \<and> rep (fst (pop q)) xs"
begin

lemma pop_eq: "rep q xs \<Longrightarrow> snd (pop q) = (case xs of [] \<Rightarrow> None | x # _ \<Rightarrow> Some x)"
  using rep_pop_Nil rep_pop_Cons by (cases xs) auto

lemma rep_pop: "rep q xs \<Longrightarrow> rep (fst (pop q)) (tl xs)"
  using rep_pop_Nil rep_pop_Cons by (cases xs) auto

lemma rep_unique_list: "rep q xs \<Longrightarrow> rep q ys \<Longrightarrow> xs = ys"
proof (induction xs arbitrary: q ys)
  case Nil
  then show ?case using rep_pop_Nil [OF Nil(1)] rep_pop_Cons by (cases ys) fastforce+
next
  case (Cons x xs)
  from Cons.prems rep_pop_Cons [OF Cons.prems(1)] obtain y zs where ys: "ys = y # zs"
    using rep_pop_Nil by (cases ys) fastforce+
  with Cons.prems rep_pop_Cons [of q y zs] rep_pop_Cons [of q x xs] have "x = y" "rep (fst (pop q)) zs"
    by auto
  with Cons.IH rep_pop_Cons [OF Cons.prems(1)] ys show ?case by blast
qed

lemma rep_push_all:
  assumes "rep q xs" "\<And>i. i < length ys \<Longrightarrow> fresh (xs @ take i ys) (ys ! i)"
  shows "rep (push_all push q ys) (xs @ ys)"
  using assms
proof (induction ys arbitrary: q xs)
  case (Cons y ys)
  have "fresh xs y" using Cons.prems(2) [of 0] by simp
  then have "rep (push q y) (xs @ [y])" by (rule rep_push [OF Cons.prems(1)])
  then have "rep (push_all push (push q y) ys) ((xs @ [y]) @ ys)"
  proof (rule Cons.IH)
    fix i assume "i < length ys"
    then show "fresh ((xs @ [y]) @ take i ys) (ys ! i)" using Cons.prems(2) [of "Suc i"] by simp
  qed
  then show ?case by simp
qed simp

lemma rep_pop_n:
  "rep q xs \<Longrightarrow> n \<le> length xs \<Longrightarrow>
   snd (pop_n pop n q) = map Some (take n xs) \<and> rep (fst (pop_n pop n q)) (drop n xs)"
proof (induction n arbitrary: q xs)
  case (Suc n)
  then obtain x xs' where xs: "xs = x # xs'" by (cases xs) auto
  with Suc rep_pop_Cons [of q x xs'] show ?case by (auto simp: Let_def case_prod_beta)
qed simp

lemma rep_drain:
  "rep q xs \<Longrightarrow> snd (pop_n pop (Suc (length xs)) q) = map Some xs @ [None]"
proof (induction xs arbitrary: q)
  case Nil
  then show ?case using rep_pop_Nil by (simp add: case_prod_beta)
next
  case (Cons x xs)
  then show ?case using rep_pop_Cons [OF Cons.prems] Cons.IH [of "fst (pop q)"]
    by (simp add: Let_def case_prod_beta)
qed

end

end
