(* ===== verification/Segments.thy ===== *)
theory Segments
  imports Prelude
begin

text \<open>
  Linked lists in which some links are still to be written: the lemmas that the models of the two
  queues of \<open>msgqueue/queue\<close> share.
\<close>

text \<open>
  \<open>segs nx L ch\<close>: the nodes of \<open>ch\<close> follow one another, by their \<open>next\<close> field or, where
  that is still null, by a link in \<open>L\<close> that some thread has yet to write; the last node has
  neither. A memory at rest has no such links.
\<close>

fun segs :: "('n \<Rightarrow> 'n option) \<Rightarrow> ('n \<times> 'n) set \<Rightarrow> 'n list \<Rightarrow> bool" where
  "segs nx L [] = False"
| "segs nx L [a] = (nx a = None \<and> a \<notin> Domain L)"
| "segs nx L (a # b # xs) =
     ((nx a = Some b \<and> a \<notin> Domain L \<or> nx a = None \<and> (a, b) \<in> L) \<and> segs nx L (b # xs))"

lemma segs_nonempty: "segs nx L ch \<Longrightarrow> ch \<noteq> []"
  by auto

lemma segs_cong:
  "(\<And>a. a \<in> set ch \<Longrightarrow> nx a = nx' a) \<Longrightarrow> (\<And>a b. a \<in> set ch \<Longrightarrow> (a, b) \<in> L \<longleftrightarrow> (a, b) \<in> L') \<Longrightarrow>
   segs nx L ch = segs nx' L' ch"
  by (induction nx L ch rule: segs.induct) (auto simp: Domain_iff)

lemma segs_tl: "segs nx L (a # b # xs) \<Longrightarrow> segs nx L (b # xs)"
  by simp

text \<open>An exchange of the tail appends a node and leaves a link to be written.\<close>

lemma segs_snoc:
  assumes "segs nx L ch" "distinct ch" "n \<notin> set ch" "nx n = None" "n \<notin> Domain L"
  shows "segs nx (insert (last ch, n) L) (ch @ [n])"
  using assms
proof (induction nx L ch rule: segs.induct)
  case (3 nx L a b xs)
  have "last (b # xs) \<in> set (b # xs)" by (rule last_in_set) simp
  then have "a \<noteq> last (b # xs)" using "3.prems"(2) by auto
  moreover have "segs nx (insert (last (b # xs), n) L) ((b # xs) @ [n])"
    using "3.prems" by (intro "3.IH") auto
  ultimately show ?case using "3.prems"(1) by auto
qed auto

text \<open>Writing a pending link.\<close>

lemma segs_link:
  assumes "segs nx L ch" "distinct ch" "(a, b) \<in> L" "\<And>c. (a, c) \<in> L \<Longrightarrow> c = b"
  shows "segs (nx(a := Some b)) (L - {(a, b)}) ch"
  using assms(1,2)
proof (induction ch rule: induct_list012)
  case (2 x)
  then have "x \<noteq> a" using assms(3) by auto
  with 2 show ?case by auto
next
  case (3 x y xs)
  have IH: "segs (nx(a := Some b)) (L - {(a, b)}) (y # xs)"
    by (rule "3.IH"(2)) (use "3.prems" in simp_all)
  show ?case
  proof (cases "x = a")
    case True
    then have "(a, y) \<in> L" using "3.prems"(1) assms(3) by auto
    then have "y = b" by (rule assms(4))
    moreover have "a \<notin> Domain (L - {(a, b)})" using assms(4) by blast
    ultimately show ?thesis using IH True by (simp only: segs.simps fun_upd_same simp_thms)
  next
    case False
    then have "(nx(a := Some b)) x = nx x" "x \<in> Domain (L - {(a, b)}) \<longleftrightarrow> x \<in> Domain L"
      "(x, y) \<in> L - {(a, b)} \<longleftrightarrow> (x, y) \<in> L"
      by (auto simp: Domain_iff)
    moreover have "nx x = Some y \<and> x \<notin> Domain L \<or> nx x = None \<and> (x, y) \<in> L"
      using "3.prems"(1) by simp
    ultimately show ?thesis using IH by (simp only: segs.simps simp_thms)
  qed
qed simp

lemma segs_link_target:
  assumes "segs nx L ch" "a \<in> set ch" "(a, b) \<in> L" "\<And>c. (a, c) \<in> L \<Longrightarrow> c = b"
  shows "b \<in> set ch"
  using assms(1,2)
proof (induction ch rule: induct_list012)
  case (2 x)
  with assms(3) show ?case by auto
next
  case (3 x y xs)
  show ?case
  proof (cases "x = a")
    case True
    then have "(a, y) \<in> L" using "3.prems"(1) assms(3) by auto
    then show ?thesis using assms(4) by simp
  next
    case False
    with 3 show ?thesis by simp
  qed
qed simp

lemma segs_next_target:
  "segs nx L ch \<Longrightarrow> a \<in> set ch \<Longrightarrow> nx a = Some b \<Longrightarrow> b \<in> set ch"
  by (induction nx L ch rule: segs.induct) auto

lemma segs_last: "segs nx L ch \<Longrightarrow> nx (last ch) = None \<and> last ch \<notin> Domain L"
  by (induction nx L ch rule: segs.induct) auto

lemma segs_next_Some:
  "segs nx L ch \<Longrightarrow> nx (hd ch) = Some n \<Longrightarrow> \<exists>xs. ch = hd ch # n # xs"
  by (induction nx L ch rule: segs.induct) auto

lemma segs_singleton_iff:
  "segs nx L ch \<Longrightarrow> distinct ch \<Longrightarrow> last ch = hd ch \<longleftrightarrow> ch = [hd ch]"
  by (cases ch) (auto split: if_splits dest: last_in_set)

lemma segs_outside: "n \<notin> set ch \<Longrightarrow> segs (nx(n := v)) L ch = segs nx L ch"
  by (rule segs_cong) auto

lemma segs_pending: "segs nx L ch \<Longrightarrow> a \<in> set ch \<Longrightarrow> a \<in> Domain L \<Longrightarrow> nx a = None"
  by (induction nx L ch rule: segs.induct) auto

text \<open>A list of distinct nodes, with the links still to be written all inside.\<close>

definition linked :: "('n \<Rightarrow> 'n option) \<Rightarrow> ('n \<times> 'n) set \<Rightarrow> 'n list \<Rightarrow> bool" where
  "linked nx L ch \<longleftrightarrow> segs nx L ch \<and> distinct ch \<and> Domain L \<subseteq> set ch"

lemma linked_nonempty: "linked nx L ch \<Longrightarrow> ch \<noteq> []"
  using segs_nonempty by (auto simp: linked_def)

lemma linked_outside: "linked nx L ch \<Longrightarrow> n \<notin> set ch \<Longrightarrow> linked (nx(n := v)) L ch"
  by (simp add: linked_def segs_outside)

lemma linked_cong: "linked nx L ch \<Longrightarrow> (\<And>a. a \<in> set ch \<Longrightarrow> nx' a = nx a) \<Longrightarrow> linked nx' L ch"
  using segs_cong [of ch nx nx' L L] by (auto simp: linked_def)

lemma linked_snoc:
  assumes "linked nx L ch" "n \<notin> set ch" "nx n = None"
  shows "linked nx (insert (last ch, n) L) (ch @ [n])"
proof -
  have "last ch \<in> set ch" using linked_nonempty [OF assms(1)] by simp
  with assms segs_snoc [of nx L ch n] show ?thesis by (auto simp: linked_def)
qed

lemma linked_link:
  assumes "linked nx L ch" "(p, n) \<in> L" "\<And>c. (p, c) \<in> L \<Longrightarrow> c = n"
  shows "linked (nx(p := Some n)) (L - {(p, n)}) ch"
proof -
  have "segs (nx(p := Some n)) (L - {(p, n)}) ch"
    using assms(1) segs_link [OF _ _ assms(2,3)] unfolding linked_def by blast
  moreover have "Domain (L - {(p, n)}) \<subseteq> Domain L" by blast
  ultimately show ?thesis using assms(1) unfolding linked_def by blast
qed

lemma linked_last: "linked nx L ch \<Longrightarrow> nx (last ch) = None \<and> last ch \<notin> Domain L"
  unfolding linked_def using segs_last by blast

lemma linked_advance:
  assumes "linked nx L ch" "nx (hd ch) = Some n"
  shows "linked nx L (tl ch) \<and> ch = hd ch # tl ch \<and> hd (tl ch) = n \<and> tl ch \<noteq> [] \<and> last (tl ch) = last ch"
proof -
  from assms obtain xs where ch: "ch = hd ch # n # xs"
    using segs_next_Some [of nx L ch n] by (auto simp: linked_def)
  then have "hd ch \<notin> Domain L"
    using assms segs_pending [of nx L ch "hd ch"]
    by (metis linked_def list.set_intros(1) option.distinct(1))
  with assms ch show ?thesis by (cases ch) (auto simp: linked_def)
qed

end
