(* ===== verification/IntMpscQueue.thy ===== *)
theory IntMpscQueue
  imports QueueSpec Segments
begin

text \<open>
  \<open>msgqueue/queue/int_mpsc_queue.hpp\<close>: the intrusive queue of many producers and one
  consumer. First the operations as one thread runs them alone, with the list they keep;
  \<open>IntMpscConc\<close> takes the same memory through all interleavings.

  A \<open>Node *\<close> is a name: the queue's own \<open>stub\<close>, or a node that a command carries. The
  memory is the \<open>next\<close> field of every node and the two atomic pointers.
\<close>

section \<open>Memory and operations\<close>

datatype node = Stub | Node nat

record iq =
  iq_next :: "node \<Rightarrow> node option"
  iq_head :: node
  iq_tail :: node

definition iq_init :: iq where
  "iq_init = \<lparr>iq_next = (\<lambda>_. None), iq_head = Stub, iq_tail = Stub\<rparr>"

abbreviation set_next :: "iq \<Rightarrow> node \<Rightarrow> node option \<Rightarrow> iq" where
  "set_next q a v \<equiv> q\<lparr>iq_next := (iq_next q)(a := v)\<rparr>"

definition iq_push :: "iq \<Rightarrow> node \<Rightarrow> iq" where
  "iq_push q n =
     (let q = set_next q n None;
          prev = iq_tail q;
          q = q\<lparr>iq_tail := n\<rparr>
      in set_next q prev (Some n))"

definition iq_pop :: "iq \<Rightarrow> iq \<times> node option" where
  "iq_pop q =
     (let s = Stub; h = iq_head q; n = iq_next q h in
      if h = s \<and> n = None then (q, None)
      else
        let (q, h, n) =
          (if h = s then (q\<lparr>iq_head := the n\<rparr>, the n, iq_next q (the n)) else (q, h, n)) in
        case n of
          Some n' \<Rightarrow> (q\<lparr>iq_head := n'\<rparr>, Some h)
        | None \<Rightarrow>
            let t = iq_tail q in
            if t \<noteq> h then (q, None)
            else
              let q = iq_push q s; n = iq_next q h in
              case n of
                Some n' \<Rightarrow> (q\<lparr>iq_head := n'\<rparr>, Some h)
              | None \<Rightarrow> (q, None))"

section \<open>The list a memory represents\<close>

text \<open>What the queue holds for its client: every node but the stub.\<close>

abbreviation live :: "node list \<Rightarrow> node list" where
  "live ch \<equiv> filter (\<lambda>n. n \<noteq> Stub) ch"

definition iq_chain :: "iq \<Rightarrow> node list \<Rightarrow> bool" where
  "iq_chain q ch \<longleftrightarrow> segs (iq_next q) {} ch \<and> distinct ch \<and> hd ch = iq_head q \<and> last ch = iq_tail q"

definition iq_rep :: "iq \<Rightarrow> node list \<Rightarrow> bool" where
  "iq_rep q ns \<longleftrightarrow> (\<exists>ch. iq_chain q ch \<and> live ch = ns)"

text \<open>A node can be pushed when it is no stub and not already in the queue.\<close>

definition iq_fresh :: "node list \<Rightarrow> node \<Rightarrow> bool" where
  "iq_fresh ns n \<longleftrightarrow> n \<noteq> Stub \<and> n \<notin> set ns"

section \<open>The operations keep the list\<close>

lemma iq_rep_init: "iq_rep iq_init []"
  unfolding iq_rep_def iq_chain_def
  by (rule exI [of _ "[Stub]"]) (simp add: iq_init_def)

lemma iq_push_chain:
  assumes "iq_chain q ch" and "n \<notin> set ch"
  shows "iq_chain (iq_push q n) (ch @ [n])"
proof -
  let ?nx = "(iq_next q)(n := None)"
  have s: "segs (iq_next q) {} ch" and d: "distinct ch" and l: "last ch = iq_tail q"
    using assms by (auto simp: iq_chain_def)
  have "segs ?nx {} ch"
    using s assms(2) by (subst segs_cong [where nx' = "iq_next q" and L' = "{}"]) auto
  then have "segs ?nx {(last ch, n)} (ch @ [n])"
    using segs_snoc [of ?nx "{}" ch n] d assms(2) by simp
  then have "segs (?nx(last ch := Some n)) {} (ch @ [n])"
    using segs_link [of ?nx "{(last ch, n)}" "ch @ [n]" "last ch" n] d assms(2) by simp
  then show ?thesis
    using assms segs_nonempty [OF s] d l by (auto simp: iq_chain_def iq_push_def Let_def)
qed

lemma iq_rep_push:
  assumes "iq_rep q ns" and "iq_fresh ns n"
  shows "iq_rep (iq_push q n) (ns @ [n])"
proof -
  from assms(1) obtain ch where ch: "iq_chain q ch" "live ch = ns"
    by (auto simp: iq_rep_def)
  then have "n \<notin> set ch" using assms(2) by (auto simp: iq_fresh_def)
  then have "iq_chain (iq_push q n) (ch @ [n])"
    by (rule iq_push_chain [OF ch(1)])
  with ch(2) assms(2) show ?thesis by (force simp: iq_rep_def iq_fresh_def)
qed

lemma iq_chain_drop:
  "iq_chain q (a # b # xs) \<Longrightarrow> iq_chain (q\<lparr>iq_head := b\<rparr>) (b # xs)"
  by (auto simp: iq_chain_def)

text \<open>\<open>pop\<close> from a head that is not the stub.\<close>

lemma iq_pop_node:
  assumes "iq_chain q (n # ch)" and "n \<noteq> Stub"
  shows "\<exists>q'. iq_pop q = (q', Some n) \<and> iq_rep q' (live ch)"
proof (cases ch)
  case (Cons b xs)
  with assms have "iq_pop q = (q\<lparr>iq_head := b\<rparr>, Some n)"
    by (auto simp: iq_chain_def iq_pop_def Let_def)
  with iq_chain_drop [of q n b xs] assms Cons show ?thesis
    by (auto simp: iq_rep_def)
next
  case Nil
  have s: "iq_chain (iq_push q Stub) [n, Stub]"
    using iq_push_chain [OF assms(1), of Stub] assms(2) Nil by simp
  then have "iq_pop q = ((iq_push q Stub)\<lparr>iq_head := Stub\<rparr>, Some n)"
    using assms Nil by (auto simp: iq_chain_def iq_pop_def Let_def)
  with iq_chain_drop [OF s] Nil show ?thesis by (auto simp: iq_rep_def)
qed

lemma iq_pop_stub:
  assumes "iq_chain q (Stub # n # ch)"
  shows "\<exists>q'. iq_pop q = (q', Some n) \<and> iq_rep q' (live ch)"
proof -
  let ?q = "q\<lparr>iq_head := n\<rparr>"
  have n: "n \<noteq> Stub" using assms by (auto simp: iq_chain_def)
  have "iq_pop q = iq_pop ?q"
    using assms n by (simp add: iq_chain_def iq_pop_def Let_def)
  with iq_pop_node [OF iq_chain_drop [OF assms] n] show ?thesis by simp
qed

lemma iq_rep_pop_Nil:
  assumes "iq_rep q []"
  shows "snd (iq_pop q) = None \<and> iq_rep (fst (iq_pop q)) []"
proof -
  from assms obtain ch where ch: "iq_chain q ch" "live ch = []" by (auto simp: iq_rep_def)
  then obtain ch' where "ch = Stub # ch'" by (cases ch) (auto simp: iq_chain_def split: if_splits)
  with ch have "ch = [Stub]" by (cases ch') (auto simp: iq_chain_def split: if_splits)
  with ch have "iq_pop q = (q, None)" by (simp add: iq_chain_def iq_pop_def)
  with assms show ?thesis by simp
qed

lemma iq_rep_pop_Cons:
  assumes "iq_rep q (n # ns)"
  shows "snd (iq_pop q) = Some n \<and> iq_rep (fst (iq_pop q)) ns"
proof -
  from assms obtain ch where ch: "iq_chain q ch" "live ch = n # ns" by (auto simp: iq_rep_def)
  then obtain a ch' where a: "ch = a # ch'" by (cases ch) auto
  show ?thesis
  proof (cases "a = Stub")
    case False
    with iq_pop_node [of q a ch'] ch a show ?thesis by auto
  next
    case True
    with ch a obtain b ch'' where "ch' = b # ch''" by (cases ch') auto
    with iq_pop_stub [of q b ch''] ch a True show ?thesis
      by (auto simp: iq_chain_def split: if_splits)
  qed
qed

interpretation intrusive: fifo iq_rep iq_init iq_push iq_pop iq_fresh
  by unfold_locales
    (auto intro: iq_rep_init iq_rep_push dest: iq_rep_pop_Nil iq_rep_pop_Cons)

text \<open>Run by one thread, the intrusive queue is first-in first-out: distinct nodes that
  are pushed one after the other into a new queue are popped in that order, and then
  \<open>pop\<close> returns null.\<close>

theorem iq_fifo:
  assumes "distinct ns" and "Stub \<notin> set ns"
  shows "snd (pop_n iq_pop (Suc (length ns)) (push_all iq_push iq_init ns)) = map Some ns @ [None]"
proof -
  have "iq_fresh (take i ns) (ns ! i)" if "i < length ns" for i
    using assms that by (auto simp: iq_fresh_def in_set_conv_nth nth_eq_iff_index_eq)
  then have "iq_rep (push_all iq_push iq_init ns) ns"
    using intrusive.rep_push_all [OF intrusive.rep_init, of ns] by simp
  then show ?thesis by (rule intrusive.rep_drain)
qed

theorem iq_fifo_witness:
  "snd (pop_n iq_pop 3 (push_all iq_push iq_init [Node 4, Node 2])) = [Some (Node 4), Some (Node 2), None]"
  using iq_fifo [of "[Node 4, Node 2]"] by (simp add: eval_nat_numeral del: pop_n.simps)

end
