(* ===== verification/IntMpscConc.thy ===== *)
theory IntMpscConc
  imports IntMpscQueue
begin

text \<open>
  The intrusive queue under all interleavings of any number of producers and the one
  consumer, one access to shared memory per step, sequentially consistent. A producer's
  \<open>push\<close> clears the node's \<open>next\<close>, exchanges the tail and then links the old tail; between
  the last two the list has a gap. The consumer's steps follow \<open>pop\<close> line by line. Three
  history fields record the nodes in tail order, the nodes ever pushed and those returned.
\<close>

section \<open>Threads\<close>

datatype ppc =
    PIdle
  | PClear node              \<comment> \<open>about to run \<open>next->next = NULL\<close>\<close>
  | PXchg node               \<comment> \<open>about to run \<open>prev = tail.exchange(next)\<close>\<close>
  | PLink node node          \<comment> \<open>\<open>prev\<close>, \<open>next\<close>: about to run \<open>prev->next = next\<close>\<close>

datatype cpc =
    CStart                   \<comment> \<open>about to load \<open>head\<close>\<close>
  | CLoadNext node           \<comment> \<open>\<open>h\<close>: about to load \<open>h->next\<close>\<close>
  | CSkip node               \<comment> \<open>\<open>n\<close>: \<open>h\<close> is the stub, about to store \<open>head = n\<close>\<close>
  | CLoadNext2 node          \<comment> \<open>\<open>h\<close>, no longer the stub: about to load \<open>h->next\<close>\<close>
  | CTake node node          \<comment> \<open>\<open>h\<close>, \<open>n\<close>: about to store \<open>head = n\<close> and return \<open>h\<close>\<close>
  | CLoadTail node           \<comment> \<open>\<open>h\<close>: about to load \<open>tail\<close>\<close>
  | CClear node              \<comment> \<open>\<open>h\<close>: \<open>push(s)\<close>, first step\<close>
  | CXchg node               \<comment> \<open>\<open>h\<close>: \<open>push(s)\<close>, second step\<close>
  | CLink node node          \<comment> \<open>\<open>h\<close>, \<open>prev\<close>: \<open>push(s)\<close>, third step\<close>
  | CReload node             \<comment> \<open>\<open>h\<close>: about to load \<open>h->next\<close> again\<close>
  | CDone "node option"      \<comment> \<open>\<open>pop\<close> has returned\<close>

record mpsc =
  shm :: iq
  prod :: "nat \<Rightarrow> ppc"
  cons :: cpc
  chain :: "node list"
  sent :: "node list"
  taken :: "node list"

definition mpsc_init :: mpsc where
  "mpsc_init = \<lparr>shm = iq_init, prod = (\<lambda>_. PIdle), cons = CStart,
     chain = [Stub], sent = [], taken = []\<rparr>"

abbreviation nxt :: "mpsc \<Rightarrow> node \<Rightarrow> node option" where
  "nxt s \<equiv> iq_next (shm s)"

text \<open>The nodes a producer holds that the queue does not have yet.\<close>

fun holds :: "ppc \<Rightarrow> node set" where
  "holds (PClear n) = {n}"
| "holds (PXchg n) = {n}"
| "holds _ = {}"

definition prod_step :: "mpsc \<Rightarrow> nat \<Rightarrow> mpsc" where
  "prod_step s i =
     (case prod s i of
        PIdle \<Rightarrow> s
      | PClear n \<Rightarrow> s\<lparr>shm := set_next (shm s) n None, prod := (prod s)(i := PXchg n)\<rparr>
      | PXchg n \<Rightarrow> s\<lparr>shm := (shm s)\<lparr>iq_tail := n\<rparr>,
          prod := (prod s)(i := PLink (iq_tail (shm s)) n),
          chain := chain s @ [n], sent := sent s @ [n]\<rparr>
      | PLink p n \<Rightarrow> s\<lparr>shm := set_next (shm s) p (Some n), prod := (prod s)(i := PIdle)\<rparr>)"

definition cons_step :: "mpsc \<Rightarrow> mpsc" where
  "cons_step s =
     (case cons s of
        CStart \<Rightarrow> s\<lparr>cons := CLoadNext (iq_head (shm s))\<rparr>
      | CLoadNext h \<Rightarrow>
          (if h = Stub then
             (case nxt s h of None \<Rightarrow> s\<lparr>cons := CDone None\<rparr> | Some n \<Rightarrow> s\<lparr>cons := CSkip n\<rparr>)
           else
             (case nxt s h of None \<Rightarrow> s\<lparr>cons := CLoadTail h\<rparr> | Some n \<Rightarrow> s\<lparr>cons := CTake h n\<rparr>))
      | CSkip n \<Rightarrow> s\<lparr>shm := (shm s)\<lparr>iq_head := n\<rparr>, cons := CLoadNext2 n, chain := tl (chain s)\<rparr>
      | CLoadNext2 h \<Rightarrow>
          (case nxt s h of None \<Rightarrow> s\<lparr>cons := CLoadTail h\<rparr> | Some n \<Rightarrow> s\<lparr>cons := CTake h n\<rparr>)
      | CTake h n \<Rightarrow> s\<lparr>shm := (shm s)\<lparr>iq_head := n\<rparr>, cons := CDone (Some h),
          chain := tl (chain s), taken := taken s @ [h]\<rparr>
      | CLoadTail h \<Rightarrow>
          (if iq_tail (shm s) \<noteq> h then s\<lparr>cons := CDone None\<rparr> else s\<lparr>cons := CClear h\<rparr>)
      | CClear h \<Rightarrow> s\<lparr>shm := set_next (shm s) Stub None, cons := CXchg h\<rparr>
      | CXchg h \<Rightarrow> s\<lparr>shm := (shm s)\<lparr>iq_tail := Stub\<rparr>, cons := CLink h (iq_tail (shm s)),
          chain := chain s @ [Stub]\<rparr>
      | CLink h p \<Rightarrow> s\<lparr>shm := set_next (shm s) p (Some Stub), cons := CReload h\<rparr>
      | CReload h \<Rightarrow>
          (case nxt s h of None \<Rightarrow> s\<lparr>cons := CDone None\<rparr> | Some n \<Rightarrow> s\<lparr>cons := CTake h n\<rparr>)
      | CDone r \<Rightarrow> s\<lparr>cons := CStart\<rparr>)"

text \<open>
  A producer may start a push with any node that is not the stub, not in the queue and not
  held by another producer: the commands carry their own nodes, freshly allocated.
\<close>

inductive mpsc_step :: "mpsc \<Rightarrow> mpsc \<Rightarrow> bool" where
  start_push: "prod s i = PIdle \<Longrightarrow> n \<noteq> Stub \<Longrightarrow> n \<notin> set (chain s) \<Longrightarrow> (\<forall>j. n \<notin> holds (prod s j)) \<Longrightarrow>
     mpsc_step s (s\<lparr>prod := (prod s)(i := PClear n)\<rparr>)"
| producer: "prod s i \<noteq> PIdle \<Longrightarrow> mpsc_step s (prod_step s i)"
| consumer: "mpsc_step s (cons_step s)"

inductive mpsc_reach :: "mpsc \<Rightarrow> bool" where
  init: "mpsc_reach mpsc_init"
| step: "mpsc_reach s \<Longrightarrow> mpsc_step s t \<Longrightarrow> mpsc_reach t"

section \<open>The invariant\<close>

text \<open>The links that some thread is about to write.\<close>

fun plink :: "ppc \<Rightarrow> (node \<times> node) set" where
  "plink (PLink p n) = {(p, n)}"
| "plink _ = {}"

definition plinks :: "(nat \<Rightarrow> ppc) \<Rightarrow> (node \<times> node) set" where
  "plinks f = (\<Union>i. plink (f i))"

definition clinks :: "cpc \<Rightarrow> (node \<times> node) set" where
  "clinks c = (case c of CLink h p \<Rightarrow> {(p, Stub)} | _ \<Rightarrow> {})"

abbreviation links :: "mpsc \<Rightarrow> (node \<times> node) set" where
  "links s \<equiv> plinks (prod s) \<union> clinks (cons s)"

text \<open>Two threads never wait to link the same node.\<close>

definition links_unique :: "(nat \<Rightarrow> ppc) \<Rightarrow> cpc \<Rightarrow> bool" where
  "links_unique f c \<longleftrightarrow>
     (\<forall>i j p n n'. f i = PLink p n \<longrightarrow> f j = PLink p n' \<longrightarrow> i = j) \<and>
     (\<forall>h p i n. c = CLink h p \<longrightarrow> f i \<noteq> PLink p n)"

text \<open>Nodes on their way in: nobody else's, not in the queue, cleared before the exchange.\<close>

definition holds_ok :: "(nat \<Rightarrow> ppc) \<Rightarrow> node list \<Rightarrow> (node \<Rightarrow> node option) \<Rightarrow> bool" where
  "holds_ok f ch nx \<longleftrightarrow>
     (\<forall>i n. n \<in> holds (f i) \<longrightarrow> n \<noteq> Stub \<and> n \<notin> set ch) \<and>
     (\<forall>i j n. n \<in> holds (f i) \<longrightarrow> n \<in> holds (f j) \<longrightarrow> i = j) \<and>
     (\<forall>i n. f i = PXchg n \<longrightarrow> nx n = None)"

text \<open>What the consumer knows at each line.\<close>

fun cons_ok :: "cpc \<Rightarrow> node list \<Rightarrow> (node \<Rightarrow> node option) \<Rightarrow> bool" where
  "cons_ok (CLoadNext h) ch nx = (h = hd ch)"
| "cons_ok (CSkip n) ch nx = (hd ch = Stub \<and> nx Stub = Some n)"
| "cons_ok (CLoadNext2 h) ch nx = (h = hd ch \<and> h \<noteq> Stub)"
| "cons_ok (CTake h n) ch nx = (h = hd ch \<and> h \<noteq> Stub \<and> nx h = Some n)"
| "cons_ok (CLoadTail h) ch nx = (h = hd ch \<and> h \<noteq> Stub)"
| "cons_ok (CClear h) ch nx = (h = hd ch \<and> h \<noteq> Stub \<and> Stub \<notin> set ch)"
| "cons_ok (CXchg h) ch nx = (h = hd ch \<and> h \<noteq> Stub \<and> Stub \<notin> set ch \<and> nx Stub = None)"
| "cons_ok (CLink h p) ch nx = (h = hd ch \<and> h \<noteq> Stub)"
| "cons_ok (CReload h) ch nx = (h = hd ch \<and> h \<noteq> Stub)"
| "cons_ok _ ch nx = True"

definition shape_ok :: "iq \<Rightarrow> (node \<times> node) set \<Rightarrow> node list \<Rightarrow> bool" where
  "shape_ok q L ch \<longleftrightarrow> linked (iq_next q) L ch \<and> hd ch = iq_head q \<and> last ch = iq_tail q"

lemmas shape_ok_simps = shape_ok_def linked_def

definition mpsc_inv :: "mpsc \<Rightarrow> bool" where
  "mpsc_inv s \<longleftrightarrow>
     shape_ok (shm s) (links s) (chain s) \<and> links_unique (prod s) (cons s) \<and>
     holds_ok (prod s) (chain s) (nxt s) \<and> cons_ok (cons s) (chain s) (nxt s) \<and>
     sent s = taken s @ live (chain s)"

lemma mpsc_inv_init: "mpsc_inv mpsc_init"
  by (auto simp: mpsc_inv_def shape_ok_simps links_unique_def holds_ok_def mpsc_init_def iq_init_def
      plinks_def clinks_def)

subsection \<open>Links\<close>

lemma plink_iff: "(p, n) \<in> plink c \<longleftrightarrow> c = PLink p n"
  by (cases c) auto

lemma plinks_iff: "(p, n) \<in> plinks f \<longleftrightarrow> (\<exists>i. f i = PLink p n)"
  by (simp add: plinks_def plink_iff)

lemma clinks_iff: "(p, n) \<in> clinks c \<longleftrightarrow> n = Stub \<and> (\<exists>h. c = CLink h p)"
  by (auto simp: clinks_def split: cpc.splits)

lemma links_single:
  assumes u: "links_unique f c" and "(p, n) \<in> plinks f \<union> clinks c" "(p, n') \<in> plinks f \<union> clinks c"
  shows "n = n'"
  using assms(2,3)
proof (elim UnE)
  assume "(p, n) \<in> plinks f" "(p, n') \<in> plinks f"
  then obtain i j where "f i = PLink p n" "f j = PLink p n'" by (auto simp: plinks_iff)
  moreover from this u have "i = j" by (simp add: links_unique_def)
  ultimately show ?thesis by simp
qed (use u in \<open>auto simp: plinks_iff clinks_iff links_unique_def\<close>)

lemma plinks_add:
  assumes "plink (f i) = {}"
  shows "plinks (f(i := c)) = plinks f \<union> plink c"
proof (intro equalityI subsetI)
  fix x assume "x \<in> plinks (f(i := c))"
  then obtain j where "x \<in> plink ((f(i := c)) j)" by (auto simp only: plinks_def)
  then show "x \<in> plinks f \<union> plink c" by (cases "j = i") (auto simp: plinks_def)
next
  fix x assume "x \<in> plinks f \<union> plink c"
  then consider j where "x \<in> plink (f j)" "j \<noteq> i" | "x \<in> plink c"
    using assms by (auto simp only: plinks_def)
  then have "\<exists>j. x \<in> plink ((f(i := c)) j)"
    by cases (auto intro: exI [of _ i])
  then show "x \<in> plinks (f(i := c))"
    unfolding plinks_def by blast
qed

lemma plinks_remove:
  assumes "f i = PLink p n" "links_unique f c"
  shows "plinks (f(i := PIdle)) = plinks f - {(p, n)}"
proof -
  have j: "j = i" if "f j = PLink p n" for j
    using assms that by (simp add: links_unique_def)
  have "(a, b) \<in> plinks (f(i := PIdle)) \<longleftrightarrow> (a, b) \<in> plinks f - {(p, n)}" for a b
  proof
    assume "(a, b) \<in> plinks (f(i := PIdle))"
    then obtain k where "k \<noteq> i" "f k = PLink a b" by (auto simp: plinks_iff split: if_splits)
    with j show "(a, b) \<in> plinks f - {(p, n)}" by (auto simp: plinks_iff)
  next
    assume "(a, b) \<in> plinks f - {(p, n)}"
    then obtain k where "f k = PLink a b" "(a, b) \<noteq> (p, n)" by (auto simp: plinks_iff)
    with assms(1) have "(f(i := PIdle)) k = PLink a b" by auto
    then show "(a, b) \<in> plinks (f(i := PIdle))" unfolding plinks_iff by blast
  qed
  then show ?thesis by auto
qed

lemma links_unique_upd:
  "links_unique f c \<Longrightarrow> plink c' = {} \<Longrightarrow> links_unique (f(i := c')) c"
  unfolding links_unique_def by (auto simp: plink_iff [symmetric])

lemma links_unique_add:
  assumes "links_unique f c" "t \<notin> Domain (plinks f \<union> clinks c)"
  shows "links_unique (f(i := PLink t n)) c"
proof -
  have "f j \<noteq> PLink t n'" for j n' using assms(2) by (auto simp: Domain_iff plinks_iff)
  moreover have "c \<noteq> CLink h t" for h using assms(2) by (auto simp: Domain_iff clinks_iff)
  ultimately show ?thesis using assms(1) by (auto simp: links_unique_def)
qed

lemma links_unique_cons: "links_unique f c \<Longrightarrow> clinks c' = {} \<Longrightarrow> links_unique f c'"
  unfolding links_unique_def by (auto simp: clinks_def)

lemma links_unique_clink:
  "links_unique f c \<Longrightarrow> t \<notin> Domain (plinks f) \<Longrightarrow> links_unique f (CLink h t)"
  unfolding links_unique_def by (auto simp: Domain_iff plinks_iff)

subsection \<open>The shape of the list\<close>

lemma shape_clear:
  "shape_ok q L ch \<Longrightarrow> n \<notin> set ch \<Longrightarrow> shape_ok (set_next q n None) L ch"
  by (simp add: shape_ok_def linked_outside)

lemma shape_xchg:
  assumes "shape_ok q L ch" "n \<notin> set ch" "iq_next q n = None"
  shows "shape_ok (q\<lparr>iq_tail := n\<rparr>) (insert (iq_tail q, n) L) (ch @ [n])"
proof -
  have ch: "linked (iq_next q) L ch" "last ch = iq_tail q" "hd ch = iq_head q"
    using assms(1) by (simp_all add: shape_ok_def)
  have "ch \<noteq> []" by (rule linked_nonempty [OF ch(1)])
  with linked_snoc [OF ch(1) assms(2,3)] ch(2,3) show ?thesis by (simp add: shape_ok_def)
qed

lemma shape_link:
  assumes "shape_ok q L ch" "(p, n) \<in> L" "\<And>c. (p, c) \<in> L \<Longrightarrow> c = n"
  shows "shape_ok (set_next q p (Some n)) (L - {(p, n)}) ch"
  using assms(1) linked_link [OF _ assms(2,3)] by (simp add: shape_ok_def del: fun_upd_apply)

lemma shape_tail_free: "shape_ok q L ch \<Longrightarrow> iq_tail q \<notin> Domain L"
  using linked_last [of "iq_next q" L ch] by (simp add: shape_ok_def)

lemma shape_nonempty: "shape_ok q L ch \<Longrightarrow> ch \<noteq> [] \<and> iq_head q \<in> set ch"
  using linked_nonempty [of "iq_next q" L ch] list.set_sel(1) [of ch] by (auto simp: shape_ok_def)

lemma shape_advance:
  assumes "shape_ok q L ch" "iq_next q (hd ch) = Some n"
  shows "shape_ok (q\<lparr>iq_head := n\<rparr>) L (tl ch) \<and> ch = hd ch # tl ch \<and> hd (tl ch) = n \<and> tl ch \<noteq> []"
  using assms linked_advance [of "iq_next q" L ch n] by (auto simp: shape_ok_def)

subsection \<open>Nodes on their way in, and the consumer\<close>

lemma holds_own: "holds_ok f ch nx \<Longrightarrow> n \<in> holds (f i) \<Longrightarrow> n \<in> holds (f j) \<Longrightarrow> j = i"
  by (simp add: holds_ok_def)

lemma holds_outside: "holds_ok f ch nx \<Longrightarrow> n \<in> holds (f i) \<Longrightarrow> n \<noteq> Stub \<and> n \<notin> set ch"
  by (simp add: holds_ok_def)

lemma holds_start:
  assumes "holds_ok f ch nx" "n \<noteq> Stub" "n \<notin> set ch" "\<forall>j. n \<notin> holds (f j)"
  shows "holds_ok (f(i := PClear n)) ch nx"
  using assms by (auto simp: holds_ok_def)

lemma holds_clear:
  assumes "holds_ok f ch nx" "f i = PClear n"
  shows "holds_ok (f(i := PXchg n)) ch (nx(n := None))"
proof -
  have "holds ((f(i := PXchg n)) j) = holds (f j)" for j using assms(2) by simp
  then show ?thesis using assms by (auto simp: holds_ok_def)
qed

lemma holds_xchg:
  assumes "holds_ok f ch nx" "f i = PXchg n"
  shows "holds_ok (f(i := PLink t n)) (ch @ [n]) nx"
proof -
  have own: "j = i" if "n \<in> holds (f j)" for j
    using holds_own [OF assms(1), of n i j] that assms(2) by simp
  show ?thesis using assms own by (fastforce simp: holds_ok_def)
qed

lemma holds_link:
  assumes "holds_ok f ch nx" "f i = PLink p n" "p \<in> set ch"
  shows "holds_ok (f(i := PIdle)) ch (nx(p := Some n))"
proof -
  have "m \<noteq> p" if "f j = PXchg m" for j m
    using holds_outside [OF assms(1), of m j] that assms(3) by auto
  with assms(1) show ?thesis by (auto simp: holds_ok_def)
qed

lemma holds_write:
  assumes "holds_ok f ch nx" "p = Stub \<or> p \<in> set ch"
  shows "holds_ok f ch (nx(p := v))"
proof -
  have "m \<noteq> p" if "f j = PXchg m" for j m
    using holds_outside [OF assms(1), of m j] that assms(2) by auto
  with assms(1) show ?thesis by (auto simp: holds_ok_def)
qed

lemma holds_shrink: "holds_ok f ch nx \<Longrightarrow> set ch' \<subseteq> insert Stub (set ch) \<Longrightarrow> holds_ok f ch' nx"
  unfolding holds_ok_def by blast

lemma cons_ok_outside:
  assumes "cons_ok c ch nx" "n \<noteq> Stub" "n \<notin> set ch" "ch \<noteq> []"
  shows "cons_ok c ch (nx(n := v))"
proof -
  have "hd ch \<noteq> n" using assms(3,4) by (metis list.set_sel(1))
  with assms(1,2) show ?thesis by (cases c) auto
qed

lemma cons_ok_snoc:
  "cons_ok c ch nx \<Longrightarrow> n \<noteq> Stub \<Longrightarrow> ch \<noteq> [] \<Longrightarrow> cons_ok c (ch @ [n]) nx"
  by (cases c) auto

lemma cons_ok_link:
  assumes "cons_ok c ch nx" "segs nx L ch" "p \<in> Domain L" "p \<in> set ch"
  shows "cons_ok c ch (nx(p := v))"
proof -
  have "nx p = None" by (rule segs_pending [OF assms(2,4,3)])
  with assms(1,4) show ?thesis by (cases c) auto
qed

section \<open>Every step keeps the invariant\<close>

lemma inv_start_push:
  assumes "mpsc_inv s" "prod s i = PIdle" "n \<noteq> Stub" "n \<notin> set (chain s)" "\<forall>j. n \<notin> holds (prod s j)"
  shows "mpsc_inv (s\<lparr>prod := (prod s)(i := PClear n)\<rparr>)"
  using assms plinks_add [of "prod s" i "PClear n"]
  by (simp add: mpsc_inv_def links_unique_upd holds_start)

lemma inv_prod_step:
  assumes inv: "mpsc_inv s"
  shows "mpsc_inv (prod_step s i)"
proof -
  note I = inv [unfolded mpsc_inv_def]
  have ne: "chain s \<noteq> []" using I shape_nonempty by blast
  show ?thesis
  proof (cases "prod s i")
    case PIdle
    with inv show ?thesis by (simp add: prod_step_def)
  next
    case (PClear n)
    have n: "n \<noteq> Stub" "n \<notin> set (chain s)"
      using holds_outside [of "prod s" "chain s" "nxt s" n i] I PClear by auto
    with I PClear ne show ?thesis
      by (simp add: prod_step_def mpsc_inv_def plinks_add shape_clear links_unique_upd holds_clear
          cons_ok_outside del: fun_upd_apply)
  next
    case (PXchg n)
    have n: "n \<noteq> Stub" "n \<notin> set (chain s)" and nx: "nxt s n = None"
      using holds_outside [of "prod s" "chain s" "nxt s" n i] I PXchg by (auto simp: holds_ok_def)
    have "shape_ok ((shm s)\<lparr>iq_tail := n\<rparr>) (insert (iq_tail (shm s), n) (links s)) (chain s @ [n])"
      using I n nx by (intro shape_xchg) simp_all
    moreover have "links_unique ((prod s)(i := PLink (iq_tail (shm s)) n)) (cons s)"
      using I shape_tail_free by (intro links_unique_add) auto
    ultimately show ?thesis
      using I PXchg ne n
      by (simp add: prod_step_def mpsc_inv_def plinks_add holds_xchg cons_ok_snoc Un_assoc
          del: fun_upd_apply)
  next
    case (PLink p n)
    have pn: "(p, n) \<in> links s" using PLink by (auto simp: plinks_iff)
    have rm: "plinks ((prod s)(i := PIdle)) \<union> clinks (cons s) = links s - {(p, n)}"
    proof -
      have "(p, n) \<notin> clinks (cons s)"
        using I PLink by (auto simp: clinks_iff links_unique_def)
      then show ?thesis using plinks_remove [of "prod s" i p n "cons s"] I PLink by auto
    qed
    have p: "p \<in> set (chain s)" using pn I by (auto simp: shape_ok_simps)
    have "shape_ok (set_next (shm s) p (Some n)) (links s - {(p, n)}) (chain s)"
      using I pn by (intro shape_link) (auto dest: links_single [of _ _ p n])
    moreover have "cons_ok (cons s) (chain s) ((nxt s)(p := Some n))"
      using I pn p by (intro cons_ok_link [where L = "links s"]) (auto simp: shape_ok_simps)
    ultimately show ?thesis
      using I PLink p rm
      by (simp add: prod_step_def mpsc_inv_def links_unique_upd holds_link del: fun_upd_apply)
  qed
qed

text \<open>A consumer step that only moves on, without links, keeps everything but its own facts.\<close>

lemma inv_cons_move:
  assumes "mpsc_inv s" "clinks (cons s) = {}" "clinks c = {}" "cons_ok c (chain s) (nxt s)"
  shows "mpsc_inv (s\<lparr>cons := c\<rparr>)"
  using assms links_unique_cons [of "prod s" "cons s" c] by (simp add: mpsc_inv_def)

lemma inv_cons_advance:
  assumes inv: "mpsc_inv s" and c: "clinks (cons s) = {}" "clinks c = {}"
    and n: "nxt s (hd (chain s)) = Some n"
    and ok: "cons_ok c (tl (chain s)) (nxt s)"
    and t: "tk = (if hd (chain s) = Stub then [] else [hd (chain s)])"
  shows "mpsc_inv (s\<lparr>shm := (shm s)\<lparr>iq_head := n\<rparr>, cons := c, chain := tl (chain s),
           taken := taken s @ tk\<rparr>)"
proof -
  note I = inv [unfolded mpsc_inv_def]
  have adv: "shape_ok ((shm s)\<lparr>iq_head := n\<rparr>) (links s) (tl (chain s))"
    and ch: "chain s = hd (chain s) # tl (chain s)"
    using shape_advance [of "shm s" "links s" "chain s" n] I n by auto
  have "set (tl (chain s)) \<subseteq> set (chain s)" using set_subset_Cons ch by metis
  moreover have "sent s = (taken s @ tk) @ live (tl (chain s))"
    using I t by (subst (asm) ch) (auto split: if_splits)
  ultimately show ?thesis
    using I adv c ok by (auto simp: mpsc_inv_def links_unique_cons elim: holds_shrink)
qed

lemma inv_cons_xchg:
  assumes inv: "mpsc_inv s" and c: "cons s = CXchg h"
  shows "mpsc_inv (cons_step s)"
proof -
  note I = inv [unfolded mpsc_inv_def]
  have st: "Stub \<notin> set (chain s)" "nxt s Stub = None" and ne: "chain s \<noteq> []"
    using I c shape_nonempty by auto
  have "shape_ok ((shm s)\<lparr>iq_tail := Stub\<rparr>) (insert (iq_tail (shm s), Stub) (links s)) (chain s @ [Stub])"
    using I st by (intro shape_xchg) simp_all
  moreover have "links_unique (prod s) (CLink h (iq_tail (shm s)))"
    using I shape_tail_free [of "shm s"] by (intro links_unique_clink) auto
  moreover have "holds_ok (prod s) (chain s @ [Stub]) (nxt s)"
    using I by (auto elim: holds_shrink)
  ultimately show ?thesis
    using I c ne by (auto simp: cons_step_def mpsc_inv_def clinks_def)
qed

lemma inv_cons_link:
  assumes inv: "mpsc_inv s" and c: "cons s = CLink h p"
  shows "mpsc_inv (cons_step s)"
proof -
  note I = inv [unfolded mpsc_inv_def]
  have pn: "(p, Stub) \<in> links s" using c by (auto simp: clinks_iff)
  have p: "p \<in> set (chain s)" using pn I by (auto simp: shape_ok_simps)
  have "(p, Stub) \<notin> plinks (prod s)"
    using I c by (auto simp: plinks_iff links_unique_def)
  then have rm: "plinks (prod s) \<union> clinks (CReload h) = links s - {(p, Stub)}"
    using c by (auto simp: clinks_def)
  have "shape_ok (set_next (shm s) p (Some Stub)) (links s - {(p, Stub)}) (chain s)"
    using I pn by (intro shape_link) (auto dest: links_single [of _ _ p Stub])
  moreover have "links_unique (prod s) (CReload h)"
    using I links_unique_cons [of "prod s" "cons s" "CReload h"] by (simp add: clinks_def)
  moreover have "cons_ok (CReload h) (chain s) ((nxt s)(p := Some Stub))"
    using I c by auto
  ultimately show ?thesis
    using I c p rm by (simp add: cons_step_def mpsc_inv_def holds_write del: fun_upd_apply)
qed

lemma inv_cons_step:
  assumes inv: "mpsc_inv s"
  shows "mpsc_inv (cons_step s)"
proof -
  note I = inv [unfolded mpsc_inv_def]
  have hd: "hd (chain s) = iq_head (shm s)" and last: "last (chain s) = iq_tail (shm s)"
    and segs: "segs (nxt s) (links s) (chain s)" and d: "distinct (chain s)"
    using I by (auto simp: shape_ok_simps)
  note move = inv_cons_move [OF inv]
  show ?thesis
  proof (cases "cons s")
    case CStart
    then show ?thesis using hd by (auto simp: cons_step_def clinks_def intro!: move)
  next
    case (CLoadNext h)
    then show ?thesis using I
      by (auto simp: cons_step_def clinks_def intro!: move split: option.split)
  next
    case (CSkip n)
    have h: "hd (chain s) = Stub" "nxt s (hd (chain s)) = Some n" using I CSkip by auto
    have "cons_ok (CLoadNext2 n) (tl (chain s)) (nxt s)"
    proof -
      have a: "chain s = hd (chain s) # tl (chain s)" "hd (tl (chain s)) = n" "tl (chain s) \<noteq> []"
        using shape_advance [of "shm s" "links s" "chain s" n] I h by auto
      then have "n \<in> set (tl (chain s))" using list.set_sel(1) by metis
      moreover have "hd (chain s) \<notin> set (tl (chain s))" using d a(1) by (metis distinct.simps(2))
      ultimately show ?thesis using a h by auto
    qed
    then have "mpsc_inv (s\<lparr>shm := (shm s)\<lparr>iq_head := n\<rparr>, cons := CLoadNext2 n,
        chain := tl (chain s), taken := taken s @ []\<rparr>)"
      using h CSkip by (intro inv_cons_advance [OF inv]) (auto simp: clinks_def)
    then show ?thesis by (simp add: cons_step_def CSkip)
  next
    case (CLoadNext2 h)
    then show ?thesis using I
      by (auto simp: cons_step_def clinks_def intro!: move split: option.split)
  next
    case (CTake h n)
    have h: "hd (chain s) = h" "h \<noteq> Stub" "nxt s h = Some n" using I CTake by auto
    have "mpsc_inv (s\<lparr>shm := (shm s)\<lparr>iq_head := n\<rparr>, cons := CDone (Some h),
        chain := tl (chain s), taken := taken s @ [h]\<rparr>)"
      using h CTake by (intro inv_cons_advance [OF inv]) (simp_all add: clinks_def)
    then show ?thesis by (simp add: cons_step_def CTake)
  next
    case (CLoadTail h)
    have "Stub \<notin> set (chain s)" if "iq_tail (shm s) = h"
      using that I CLoadTail last segs_singleton_iff [OF segs d] by (cases "chain s") auto
    then show ?thesis using I CLoadTail
      by (auto simp: cons_step_def clinks_def intro!: move)
  next
    case (CClear h)
    have "mpsc_inv (s\<lparr>shm := set_next (shm s) Stub None, cons := CXchg h\<rparr>)"
      using I CClear links_unique_cons [of "prod s" "cons s" "CXchg h"]
      by (auto simp: mpsc_inv_def clinks_def shape_clear holds_write)
    then show ?thesis by (simp add: cons_step_def CClear)
  next
    case (CXchg h)
    then show ?thesis by (rule inv_cons_xchg [OF inv])
  next
    case (CLink h p)
    then show ?thesis by (rule inv_cons_link [OF inv])
  next
    case (CReload h)
    then show ?thesis using I
      by (auto simp: cons_step_def clinks_def intro!: move split: option.split)
  next
    case (CDone r)
    then show ?thesis by (auto simp: cons_step_def clinks_def intro!: move)
  qed
qed

lemma mpsc_step_inv: "mpsc_step s t \<Longrightarrow> mpsc_inv s \<Longrightarrow> mpsc_inv t"
  by (induction rule: mpsc_step.induct) (simp_all add: inv_start_push inv_prod_step inv_cons_step)

lemma mpsc_reach_inv: "mpsc_reach s \<Longrightarrow> mpsc_inv s"
  by (induction rule: mpsc_reach.induct) (auto intro: mpsc_inv_init mpsc_step_inv)

section \<open>What the queue guarantees\<close>

text \<open>How many more lines of \<open>pop\<close> the consumer can run before it returns.\<close>

fun rank :: "cpc \<Rightarrow> nat" where
  "rank CStart = 10"
| "rank (CLoadNext h) = 9"
| "rank (CSkip n) = 8"
| "rank (CLoadNext2 h) = 7"
| "rank (CLoadTail h) = 6"
| "rank (CClear h) = 5"
| "rank (CXchg h) = 4"
| "rank (CLink h p) = 3"
| "rank (CReload h) = 2"
| "rank (CTake h n) = 1"
| "rank (CDone r) = 0"

lemma rank_step: "rank (cons s) > 0 \<Longrightarrow> rank (cons (cons_step s)) < rank (cons s)"
  by (cases "cons s") (simp_all add: cons_step_def split: option.split)

lemma rank_zero: "rank c = 0 \<longleftrightarrow> (\<exists>r. c = CDone r)"
  by (cases c) auto

lemma cons_prod_step [simp]: "cons (prod_step s i) = cons s"
  by (simp add: prod_step_def split: ppc.split)

text \<open>A schedule: who moves next. A start that is not allowed does nothing.\<close>

datatype act = Start nat node | Produce nat | Consume

definition can_start :: "mpsc \<Rightarrow> nat \<Rightarrow> node \<Rightarrow> bool" where
  "can_start s i n \<longleftrightarrow> prod s i = PIdle \<and> n \<noteq> Stub \<and> n \<notin> set (chain s) \<and> (\<forall>j. n \<notin> holds (prod s j))"

fun mpsc_act :: "mpsc \<Rightarrow> act \<Rightarrow> mpsc" where
  "mpsc_act s (Start i n) = (if can_start s i n then s\<lparr>prod := (prod s)(i := PClear n)\<rparr> else s)"
| "mpsc_act s (Produce i) = prod_step s i"
| "mpsc_act s Consume = cons_step s"

fun mpsc_run :: "mpsc \<Rightarrow> act list \<Rightarrow> mpsc" where
  "mpsc_run s [] = s"
| "mpsc_run s (a # as) = mpsc_run (mpsc_act s a) as"

lemma mpsc_act_reach: "mpsc_reach s \<Longrightarrow> mpsc_reach (mpsc_act s a)"
proof (cases a)
  case (Produce i)
  assume "mpsc_reach s"
  then show ?thesis
    using Produce mpsc_step.producer [of s i]
    by (cases "prod s i = PIdle") (auto simp: prod_step_def intro: mpsc_reach.step)
qed (auto simp: can_start_def intro: mpsc_reach.step mpsc_step.intros)

lemma mpsc_run_reach: "mpsc_reach s \<Longrightarrow> mpsc_reach (mpsc_run s as)"
  by (induction as arbitrary: s) (auto intro: mpsc_act_reach)

lemma pop_bounded:
  "rank (cons s) \<le> length (filter (\<lambda>a. a = Consume) as) \<Longrightarrow>
   \<exists>k\<le>length as. \<exists>r. cons (mpsc_run s (take k as)) = CDone r"
proof (induction as arbitrary: s)
  case Nil
  then show ?case by (auto simp: rank_zero)
next
  case (Cons a as)
  show ?case
  proof (cases "rank (cons s) = 0")
    case True
    then show ?thesis by (auto simp: rank_zero intro: exI [of _ 0])
  next
    case False
    have "rank (cons (mpsc_act s a)) \<le> length (filter (\<lambda>a. a = Consume) as)"
      using Cons.prems False rank_step [of s] by (cases a) auto
    then obtain k r where "k \<le> length as" "cons (mpsc_run (mpsc_act s a) (take k as)) = CDone r"
      using Cons.IH by blast
    then show ?thesis by (intro exI [of _ "Suc k"]) auto
  qed
qed

text \<open>The consumer alone, until it returns.\<close>

fun cons_run :: "nat \<Rightarrow> mpsc \<Rightarrow> mpsc" where
  "cons_run 0 s = s"
| "cons_run (Suc k) s = (case cons s of CDone r \<Rightarrow> s | _ \<Rightarrow> cons_run k (cons_step s))"

lemma cons_run_done: "cons s = CDone r \<Longrightarrow> cons_run k s = s"
  by (cases k) auto

lemma cons_run_step: "rank (cons s) > 0 \<Longrightarrow> cons_run (Suc k) s = cons_run k (cons_step s)"
  by (cases "cons s") auto

declare cons_run.simps(2) [simp del]

definition pop_result :: "mpsc \<Rightarrow> iq \<times> cpc" where
  "pop_result s = (shm s, cons s)"

lemma run_take:
  "cons s = CTake h n \<Longrightarrow>
   pop_result (cons_run k (cons_step s)) = ((shm s)\<lparr>iq_head := n\<rparr>, CDone (Some h))"
  by (simp add: cons_step_def cons_run_done pop_result_def)

lemma run_none: "cons s = CDone r \<Longrightarrow> pop_result (cons_run k s) = (shm s, CDone r)"
  by (simp add: cons_run_done pop_result_def)

lemma run_reload:
  "cons s = CReload h \<Longrightarrow> pop_result (cons_run (Suc (Suc k)) s) =
    (case nxt s h of None \<Rightarrow> (shm s, CDone None)
     | Some n \<Rightarrow> ((shm s)\<lparr>iq_head := n\<rparr>, CDone (Some h)))"
  by (cases "nxt s h")
    (simp_all add: cons_run_step run_take cons_step_def [of s], simp add: run_none)

lemma run_push:
  "cons s = CClear h \<Longrightarrow> \<exists>s'. cons_run (Suc (Suc (Suc k))) s = cons_run k s' \<and>
     cons s' = CReload h \<and> shm s' = iq_push (shm s) Stub"
  by (rule exI) (auto simp: cons_run_step cons_step_def iq_push_def Let_def)

lemma run_tail:
  assumes "cons s = CLoadTail h"
  shows "pop_result (cons_run (Suc (Suc (Suc (Suc (Suc (Suc k)))))) s) =
    (if iq_tail (shm s) \<noteq> h then (shm s, CDone None)
     else let q = iq_push (shm s) Stub in
       case iq_next q h of None \<Rightarrow> (q, CDone None)
       | Some n \<Rightarrow> (q\<lparr>iq_head := n\<rparr>, CDone (Some h)))"
proof (cases "iq_tail (shm s) = h")
  case True
  define t where "t = s\<lparr>cons := CClear h\<rparr>"
  have st: "cons_step s = t" using assms True by (simp add: cons_step_def t_def)
  obtain s' where s': "cons_run (Suc (Suc (Suc (Suc (Suc k))))) t = cons_run (Suc (Suc k)) s'"
    "cons s' = CReload h" "shm s' = iq_push (shm t) Stub"
    using run_push [of t h "Suc (Suc k)"] by (auto simp: t_def simp del: cons_run.simps)
  have "cons_run (Suc (Suc (Suc (Suc (Suc (Suc k)))))) s = cons_run (Suc (Suc k)) s'"
    by (subst cons_run_step) (simp_all add: assms st s' del: cons_run.simps)
  moreover have "shm s' = iq_push (shm s) Stub" using s'(3) by (simp add: t_def)
  ultimately show ?thesis using run_reload [OF s'(2), of k] True
    by (simp add: Let_def split: option.split)
next
  case False
  then show ?thesis using assms by (simp add: cons_run_step run_none cons_step_def)
qed

lemma run_next2:
  assumes "cons s = CLoadNext2 h"
  shows "pop_result (cons_run (Suc (Suc k)) s) =
    (case nxt s h of Some n \<Rightarrow> ((shm s)\<lparr>iq_head := n\<rparr>, CDone (Some h))
     | None \<Rightarrow> pop_result (cons_run (Suc k) (s\<lparr>cons := CLoadTail h\<rparr>)))"
proof (cases "nxt s h")
  case None
  then show ?thesis using assms by (subst cons_run_step) (simp_all add: cons_step_def [of s])
next
  case (Some n)
  then show ?thesis using assms
    by (subst cons_run_step, simp, subst cons_run_step)
      (simp_all add: run_take cons_step_def [of s])
qed

lemma cons_run_pop:
  assumes "cons s = CStart"
  shows "pop_result (cons_run 10 s) = (fst (iq_pop (shm s)), CDone (snd (iq_pop (shm s))))"
proof -
  let ?h = "iq_head (shm s)" and ?k = "Suc (Suc (Suc (Suc (Suc (Suc (Suc (Suc 0)))))))"
  define t where "t = s\<lparr>cons := CLoadNext ?h\<rparr>"
  have ten: "(10::nat) = Suc (Suc ?k)" by simp
  have st: "cons_step s = t" using assms by (simp add: cons_step_def t_def)
  have "cons_run 10 s = cons_run (Suc ?k) t"
    unfolding ten by (subst cons_run_step) (simp_all add: assms st)
  moreover have "cons_run (Suc ?k) t = cons_run ?k (cons_step t)"
    by (subst cons_run_step) (simp_all add: t_def)
  moreover have "pop_result (cons_run ?k (cons_step t)) = (fst (iq_pop (shm s)), CDone (snd (iq_pop (shm s))))"
  proof (cases "?h = Stub")
    case False
    show ?thesis
    proof (cases "nxt s ?h")
      case (Some n)
      then have "cons_step t = t\<lparr>cons := CTake ?h n\<rparr>"
        using False by (simp add: cons_step_def t_def)
      then show ?thesis using Some False
        by (simp add: cons_run_step run_take iq_pop_def t_def)
    next
      case None
      then have "cons_step t = s\<lparr>cons := CLoadTail ?h\<rparr>"
        using False by (simp add: cons_step_def t_def)
      then show ?thesis using None False
        by (simp add: run_tail iq_pop_def Let_def split: option.split)
    qed
  next
    case True
    show ?thesis
    proof (cases "nxt s Stub")
      case None
      then have "cons_step t = s\<lparr>cons := CDone None\<rparr>"
        using True by (simp add: cons_step_def t_def)
      then show ?thesis using None True
        by (simp add: run_none iq_pop_def)
    next
      case (Some n)
      define u where "u = s\<lparr>shm := (shm s)\<lparr>iq_head := n\<rparr>, cons := CLoadNext2 n, chain := tl (chain s)\<rparr>"
      have "cons_step t = s\<lparr>cons := CSkip n\<rparr>" and "cons_step (s\<lparr>cons := CSkip n\<rparr>) = u"
        using True Some by (simp_all add: cons_step_def t_def u_def)
      then have "cons_run ?k (cons_step t) = cons_run (Suc (Suc (Suc (Suc (Suc (Suc (Suc 0))))))) u"
        by (subst cons_run_step) simp_all
      moreover have "pop_result (cons_run (Suc (Suc (Suc (Suc (Suc (Suc (Suc 0))))))) u)
          = (fst (iq_pop (shm s)), CDone (snd (iq_pop (shm s))))"
      proof (cases "nxt s n")
        case None
        have "pop_result (cons_run (Suc (Suc (Suc (Suc (Suc (Suc (Suc 0))))))) u)
            = pop_result (cons_run (Suc (Suc (Suc (Suc (Suc (Suc 0)))))) (u\<lparr>cons := CLoadTail n\<rparr>))"
          using None by (subst run_next2 [of u n]) (simp_all add: u_def)
        then show ?thesis using None True Some
          by (simp add: run_tail u_def iq_pop_def Let_def split: option.split)
      next
        case (Some m)
        then show ?thesis using True \<open>nxt s Stub = Some n\<close>
          by (subst run_next2 [of u n]) (simp_all add: u_def iq_pop_def)
      qed
      ultimately show ?thesis by simp
    qed
  qed
  ultimately show ?thesis by simp
qed


lemma prod_run_push:
  assumes "prod s i = PClear n"
  shows "shm (prod_step (prod_step (prod_step s i) i) i) = iq_push (shm s) n"
  using assms by (simp add: prod_step_def iq_push_def Let_def)

lemma quiescent_rep:
  assumes "mpsc_reach s" "cons s = CStart" "\<forall>i p n. prod s i \<noteq> PLink p n"
  shows "iq_rep (shm s) (live (chain s))"
proof -
  have "plinks (prod s) = {}" using assms(3) by (auto simp: plinks_def plink_iff)
  then show ?thesis
    using mpsc_reach_inv [OF assms(1)] assms(2)
    by (auto simp: mpsc_inv_def shape_ok_simps iq_rep_def iq_chain_def clinks_def)
qed

lemma pop_quiet:
  assumes "mpsc_reach s" "cons s = CStart" "\<forall>i p n. prod s i \<noteq> PLink p n"
  shows "cons (cons_run 10 s) = CDone (case live (chain s) of [] \<Rightarrow> None | n # _ \<Rightarrow> Some n)"
proof -
  have "snd (iq_pop (shm s)) = (case live (chain s) of [] \<Rightarrow> None | n # _ \<Rightarrow> Some n)"
    using quiescent_rep [OF assms] by (rule intrusive.pop_eq)
  with cons_run_pop [OF assms(2)] show ?thesis by (simp add: pop_result_def)
qed

section \<open>Nodes that were returned\<close>

text \<open>The nodes whose \<open>next\<close> a thread's next step reads or writes.\<close>

fun prod_access :: "ppc \<Rightarrow> node set" where
  "prod_access (PClear n) = {n}"
| "prod_access (PLink p n) = {p}"
| "prod_access _ = {}"

fun cons_access :: "cpc \<Rightarrow> node set" where
  "cons_access (CLoadNext h) = {h}"
| "cons_access (CLoadNext2 h) = {h}"
| "cons_access (CClear h) = {Stub}"
| "cons_access (CLink h p) = {p}"
| "cons_access (CReload h) = {h}"
| "cons_access _ = {}"

fun accessed :: "mpsc \<Rightarrow> act list \<Rightarrow> node set" where
  "accessed s [] = {}"
| "accessed s (a # as) =
     (case a of Start i n \<Rightarrow> {} | Produce i \<Rightarrow> prod_access (prod s i) | Consume \<Rightarrow> cons_access (cons s))
       \<union> accessed (mpsc_act s a) as"

text \<open>A node that the queue has let go of. The stub's \<open>next\<close> may still point to it, while the stub is not in the
  list; it is cleared before it is read again.\<close>

definition let_go :: "node \<Rightarrow> mpsc \<Rightarrow> bool" where
  "let_go h s \<longleftrightarrow> h \<noteq> Stub \<and> h \<notin> set (chain s) \<and> (\<forall>i. h \<notin> holds (prod s i))"

lemma let_go_act:
  assumes "let_go h s" "\<forall>i. a \<noteq> Start i h"
  shows "let_go h (mpsc_act s a)"
proof (cases a)
  case (Start i n)
  then show ?thesis using assms by (auto simp: let_go_def)
next
  case (Produce i)
  have "n \<noteq> h" if "prod s i = PClear n \<or> prod s i = PXchg n" for n
    using assms(1) that unfolding let_go_def by (metis holds.simps(1,2) singletonI)
  then show ?thesis using assms(1) Produce by (auto simp: let_go_def prod_step_def split: ppc.split)
next
  case Consume
  have "h \<notin> set (tl (chain s))" using assms(1) by (cases "chain s") (auto simp: let_go_def)
  then show ?thesis using assms(1) Consume
    by (auto simp: let_go_def cons_step_def split: cpc.split option.split)
qed

lemma let_go_access:
  assumes inv: "mpsc_inv s" and h: "let_go h s"
  shows "h \<notin> prod_access (prod s i)" "h \<notin> cons_access (cons s)"
proof -
  have ne: "hd (chain s) \<in> set (chain s)" using inv shape_nonempty by (auto simp: mpsc_inv_def)
  have dom: "Domain (links s) \<subseteq> set (chain s)" using inv by (auto simp: mpsc_inv_def shape_ok_simps)
  show "h \<notin> prod_access (prod s i)"
  proof (cases "prod s i")
    case (PLink p n)
    then have "p \<in> Domain (links s)" by (auto simp: plinks_iff Domain_iff)
    then show ?thesis using PLink h dom by (auto simp: let_go_def)
  next
    case (PClear n)
    then show ?thesis using h unfolding let_go_def by (metis holds.simps(1) prod_access.simps(1))
  qed simp_all
  show "h \<notin> cons_access (cons s)"
  proof (cases "cons s")
    case (CLink k p)
    then have "p \<in> Domain (links s)" by (auto simp: clinks_iff Domain_iff)
    then show ?thesis using CLink h dom by (auto simp: let_go_def)
  qed (use inv h ne in \<open>auto simp: mpsc_inv_def let_go_def\<close>)
qed

lemma let_go_unaccessed:
  "mpsc_reach s \<Longrightarrow> let_go h s \<Longrightarrow> \<forall>i. Start i h \<notin> set as \<Longrightarrow> h \<notin> accessed s as"
proof (induction as arbitrary: s)
  case (Cons a as)
  have "\<forall>i. a \<noteq> Start i h" "\<forall>i. Start i h \<notin> set as" using Cons.prems(3) by auto
  then have "h \<notin> accessed (mpsc_act s a) as"
    using Cons.IH [OF mpsc_act_reach [OF Cons.prems(1)] let_go_act [OF Cons.prems(2)]] by blast
  then show ?case
    using let_go_access [OF mpsc_reach_inv [OF Cons.prems(1)] Cons.prems(2)] by (cases a) auto
qed simp

lemma take_lets_go:
  assumes "mpsc_inv s" "cons s = CTake h n"
  shows "let_go h (cons_step s)"
proof -
  have h: "h \<noteq> Stub" "h = hd (chain s)" "distinct (chain s)" "chain s \<noteq> []"
    using assms shape_nonempty by (auto simp: mpsc_inv_def shape_ok_simps)
  then have "h \<in> set (chain s)" "h \<notin> set (tl (chain s))" by (cases "chain s"; simp)+
  moreover have "h \<notin> holds (prod s i)" for i
    using assms(1) calculation(1) holds_outside [of "prod s" "chain s" "nxt s" h i] by (auto simp: mpsc_inv_def)
  ultimately show ?thesis using h(1) assms(2) by (simp add: let_go_def cons_step_def)
qed

section \<open>What a call of pop answers\<close>

text \<open>Some producer is between its exchange and its link.\<close>

definition gap :: "mpsc \<Rightarrow> bool" where
  "gap s \<longleftrightarrow> (\<exists>i p n. prod s i = PLink p n)"

text \<open>What holds at each line of a \<open>pop\<close> during which the list was never empty and never had a gap: it
  will return a node.\<close>

fun sure :: "cpc \<Rightarrow> node list \<Rightarrow> bool" where
  "sure (CLoadTail h) ch = (ch = [h])"
| "sure (CClear h) ch = (ch = [h])"
| "sure (CXchg h) ch = (ch = [h])"
| "sure (CLink h p) ch = (ch = [h, Stub] \<and> p = h)"
| "sure (CReload h) ch = (ch = [h, Stub])"
| "sure (CDone r) ch = (r \<noteq> None)"
| "sure _ ch = True"

lemma segs_end: "segs nx {} ch \<Longrightarrow> nx (hd ch) = None \<Longrightarrow> ch = [hd ch]"
  by (cases ch; cases "tl ch") auto

lemma mpsc_chain:
  assumes "mpsc_inv s"
  shows "chain s \<noteq> []" "cons_ok (cons s) (chain s) (nxt s)" "segs (nxt s) (links s) (chain s)"
    "last (chain s) = iq_tail (shm s)" "hd (chain s) = iq_head (shm s)"
  using assms segs_nonempty by (auto simp: mpsc_inv_def shape_ok_simps)

lemma sure_step:
  assumes inv: "mpsc_inv s" and quiet: "\<not> gap s" and some: "live (chain s) \<noteq> []"
    and sure: "sure (cons s) (chain s)" and run: "0 < rank (cons s)"
  shows "sure (cons (cons_step s)) (chain (cons_step s))"
proof -
  note ch = mpsc_chain [OF inv]
  have pl: "plinks (prod s) = {}" using quiet by (auto simp: gap_def plinks_iff)
  have segs: "segs (nxt s) {} (chain s)" if "clinks (cons s) = {}" using ch(3) pl that by simp
  have no: "\<exists>n. nxt s (hd (chain s)) = Some n" if "clinks (cons s) = {}" "chain s \<noteq> [hd (chain s)]"
    using segs_end [OF segs [OF that(1)]] that(2) by auto
  have stub: "chain s \<noteq> [Stub]" using some by auto
  show ?thesis
  proof (cases "cons s")
    case (CLoadNext h)
    then show ?thesis
      using ch(2) no stub by (cases "nxt s h") (auto simp: cons_step_def clinks_def)
  next
    case (CLoadNext2 h)
    then show ?thesis
      using ch(2) no by (cases "nxt s h") (auto simp: cons_step_def clinks_def)
  next
    case (CReload h)
    then have "segs (nxt s) {} [h, Stub]" using segs sure by (simp add: clinks_def)
    then show ?thesis using CReload by (simp add: cons_step_def)
  qed (use sure run ch(4) in \<open>auto simp: cons_step_def\<close>)
qed

text \<open>Another thread's step leaves the call where it is, or opens a gap.\<close>

lemma sure_other:
  assumes "\<not> gap s" "sure (cons s) (chain s)" "a \<noteq> Consume"
  shows "gap (mpsc_act s a) \<or> sure (cons (mpsc_act s a)) (chain (mpsc_act s a))"
proof (cases a)
  case (Produce i)
  show ?thesis
  proof (cases "prod s i")
    case (PXchg n)
    then have "prod (mpsc_act s a) i = PLink (iq_tail (shm s)) n" using Produce by (simp add: prod_step_def)
    then show ?thesis unfolding gap_def by blast
  qed (use assms Produce in \<open>auto simp: prod_step_def gap_def\<close>)
qed (use assms in auto)

text \<open>The empty list or the gap that an answer of null needs, seen at some moment.\<close>

definition cause_seen :: "mpsc \<Rightarrow> act list \<Rightarrow> bool" where
  "cause_seen s as \<longleftrightarrow> (\<exists>j\<le>length as. let v = mpsc_run s (take j as) in live (chain v) = [] \<or> gap v)"

lemma cause_seen_now: "live (chain s) = [] \<or> gap s \<Longrightarrow> cause_seen s as"
  unfolding cause_seen_def by (intro exI [of _ 0]) simp

lemma cause_seen_later: "cause_seen (mpsc_act s a) as \<Longrightarrow> cause_seen s (a # as)"
  unfolding cause_seen_def Let_def by (elim exE conjE, rule_tac x = "Suc j" in exI) simp

lemma cons_step_taken:
  "taken (cons_step s) = taken s @ (case cons s of CTake h n \<Rightarrow> [h] | _ \<Rightarrow> [])"
  "cons (cons_step s) = CDone (Some h) \<longleftrightarrow> (\<exists>n. cons s = CTake h n)"
  by (auto simp: cons_step_def split: cpc.split option.split)

lemma taken_other: "a \<noteq> Consume \<Longrightarrow> taken (mpsc_act s a) = taken s \<and> cons (mpsc_act s a) = cons s"
  by (cases a) (auto simp: prod_step_def split: ppc.split)

lemma pop_answer:
  "mpsc_reach s \<Longrightarrow> 0 < rank (cons s) \<Longrightarrow> rank (cons s) \<le> length (filter (\<lambda>a. a = Consume) as) \<Longrightarrow>
   \<exists>k\<le>length as. \<exists>r. cons (mpsc_run s (take k as)) = CDone r \<and>
     taken (mpsc_run s (take k as)) = taken s @ (case r of None \<Rightarrow> [] | Some n \<Rightarrow> [n]) \<and>
     (r = None \<longrightarrow> sure (cons s) (chain s) \<longrightarrow> cause_seen s (take k as))"
proof (induction as arbitrary: s)
  case (Cons a as)
  let ?t = "mpsc_act s a"
  have reach: "mpsc_reach ?t" by (rule mpsc_act_reach [OF Cons.prems(1)])
  have step: "cause_seen s (a # bs)" if "sure (cons s) (chain s)" "sure (cons ?t) (chain ?t) \<Longrightarrow> cause_seen ?t bs" for bs
  proof (cases "live (chain s) = [] \<or> gap s")
    case True
    then show ?thesis by (rule cause_seen_now)
  next
    case False
    then have "gap ?t \<or> sure (cons ?t) (chain ?t)"
      using sure_other [of s a] sure_step [OF mpsc_reach_inv [OF Cons.prems(1)] _ _ that(1) Cons.prems(2)] that(1)
      by (cases "a = Consume") auto
    then show ?thesis using that(2) cause_seen_now [of ?t bs] cause_seen_later by blast
  qed
  have taken: "taken ?t = taken s \<and> rank (cons ?t) \<le> length (filter (\<lambda>a. a = Consume) as)" if "0 < rank (cons ?t)"
  proof (cases "a = Consume")
    case True
    then show ?thesis
      using that rank_step [OF Cons.prems(2)] Cons.prems(3) cons_step_taken [of s]
      by (cases "cons s") auto
  next
    case False
    then show ?thesis using Cons.prems(3) taken_other [OF False, of s] by simp
  qed
  show ?case
  proof (cases "0 < rank (cons ?t)")
    case True
    then obtain k r where k: "k \<le> length as" "cons (mpsc_run ?t (take k as)) = CDone r"
      "taken (mpsc_run ?t (take k as)) = taken s @ (case r of None \<Rightarrow> [] | Some n \<Rightarrow> [n])"
      "r = None \<longrightarrow> sure (cons ?t) (chain ?t) \<longrightarrow> cause_seen ?t (take k as)"
      using Cons.IH [OF reach] taken by fastforce
    then show ?thesis using step by (intro exI [of _ "Suc k"]) auto
  next
    case False
    then obtain r where r: "cons ?t = CDone r" by (auto simp: rank_zero)
    have a: "a = Consume" using False Cons.prems(2) taken_other [of a s] by (cases "a = Consume") simp_all
    then have "taken ?t = taken s @ (case r of None \<Rightarrow> [] | Some n \<Rightarrow> [n])"
      using r cons_step_taken [of s] Cons.prems(2) by (cases r; cases "cons s") auto
    moreover have "r = None \<longrightarrow> sure (cons s) (chain s) \<longrightarrow> cause_seen s [a]"
      using step [of "[]"] r by auto
    ultimately show ?thesis using r by (intro exI [of _ 1]) auto
  qed
qed simp

section \<open>Whose nodes\<close>

text \<open>Who pushed what: the pushes begun, and those past their exchange, each with its producer.\<close>

fun begun :: "mpsc \<Rightarrow> act list \<Rightarrow> (nat \<times> node) list" where
  "begun s [] = []"
| "begun s (a # as) =
     (case a of Start i n \<Rightarrow> if can_start s i n then [(i, n)] else [] | _ \<Rightarrow> []) @ begun (mpsc_act s a) as"

fun exchanged :: "mpsc \<Rightarrow> act list \<Rightarrow> (nat \<times> node) list" where
  "exchanged s [] = []"
| "exchanged s (a # as) =
     (case a of Produce i \<Rightarrow> (case prod s i of PXchg n \<Rightarrow> [(i, n)] | _ \<Rightarrow> []) | _ \<Rightarrow> []) @ exchanged (mpsc_act s a) as"

definition of_producer :: "nat \<Rightarrow> (nat \<times> node) list \<Rightarrow> node list" where
  "of_producer i xs = map snd (filter (\<lambda>(j, n). j = i) xs)"

fun held :: "ppc \<Rightarrow> node list" where
  "held (PClear n) = [n]"
| "held (PXchg n) = [n]"
| "held _ = []"

lemma of_producer_simps [simp]:
  "of_producer i [] = []" "of_producer i ((j, n) # xs) = (if j = i then n # of_producer i xs else of_producer i xs)"
  by (simp_all add: of_producer_def)

lemma cons_step_prod [simp]: "prod (cons_step s) = prod s" "sent (cons_step s) = sent s"
  by (simp_all add: cons_step_def split: cpc.split option.split)

lemma pushes_of_producer:
  "held (prod s i) @ of_producer i (begun s as) = of_producer i (exchanged s as) @ held (prod (mpsc_run s as) i)"
proof (induction as arbitrary: s)
  case (Cons a as)
  show ?case
  proof (cases a)
    case (Start j n)
    have "prod s j = PIdle" if "can_start s j n" using that by (simp add: can_start_def)
    then show ?thesis
      using Start Cons [of "mpsc_act s a"] by (cases "can_start s j n"; cases "j = i") auto
  next
    case (Produce j)
    then show ?thesis
      using Cons [of "mpsc_act s a"] by (cases "prod s j"; cases "j = i") (simp_all add: prod_step_def)
  next
    case Consume
    then show ?thesis using Cons [of "mpsc_act s a"] by simp
  qed
qed simp

lemma exchanged_sent: "sent (mpsc_run s as) = sent s @ map snd (exchanged s as)"
proof (induction as arbitrary: s)
  case (Cons a as)
  show ?case
    using Cons [of "mpsc_act s a"] by (cases a) (auto simp: prod_step_def split: ppc.splits)
qed simp

section \<open>Properties\<close>

text \<open>C1. The intrusive queue delivers in order and loses or repeats nothing: under every
  schedule of any number of producers and the consumer, the nodes whose push has passed its
  exchange are, in that order, the nodes \<open>pop\<close> has returned followed by those still queued.\<close>

theorem mpsc_fifo:
  "sent (mpsc_run mpsc_init as) =
     taken (mpsc_run mpsc_init as) @ live (chain (mpsc_run mpsc_init as))"
  using mpsc_reach_inv [OF mpsc_run_reach [OF mpsc_reach.init]] by (simp add: mpsc_inv_def)

text \<open>C2. Each producer's nodes arrive in the order in which it pushed them: the nodes returned and queued
  are those exchanged, and of these, each producer's are its pushes in order, but for the one it
  may be about to exchange.\<close>

theorem producer_order:
  "map snd (exchanged mpsc_init as) = taken (mpsc_run mpsc_init as) @ live (chain (mpsc_run mpsc_init as)) \<and>
   (\<forall>i. of_producer i (begun mpsc_init as) =
      of_producer i (exchanged mpsc_init as) @ held (prod (mpsc_run mpsc_init as) i))"
proof -
  have "sent (mpsc_run mpsc_init as) = taken (mpsc_run mpsc_init as) @ live (chain (mpsc_run mpsc_init as))"
    using mpsc_reach_inv [OF mpsc_run_reach [OF mpsc_reach.init]] by (simp add: mpsc_inv_def)
  moreover have "of_producer i (begun mpsc_init as) =
      of_producer i (exchanged mpsc_init as) @ held (prod (mpsc_run mpsc_init as) i)" for i
    using pushes_of_producer [of mpsc_init i as] by (simp add: mpsc_init_def)
  ultimately show ?thesis using exchanged_sent [of mpsc_init as] by (simp add: mpsc_init_def)
qed

text \<open>C4. \<open>pop\<close> returns, and null only for cause. Whatever the producers do in between, ten of the consumer's
  own steps are enough for a call to return; it then has taken the node it returns and no other, and
  where it returns null there was a moment during the call at which the queue was empty or a push was
  between its exchange and its link.\<close>

theorem pop_answers:
  assumes "s = mpsc_run mpsc_init as" and "cons s = CStart" and "10 \<le> length (filter (\<lambda>a. a = Consume) bs)"
  shows "\<exists>k\<le>length bs. \<exists>r. cons (mpsc_run s (take k bs)) = CDone r \<and>
    taken (mpsc_run s (take k bs)) = taken s @ (case r of None \<Rightarrow> [] | Some n \<Rightarrow> [n]) \<and>
    (r = None \<longrightarrow> (\<exists>j\<le>k. let v = mpsc_run s (take j bs) in live (chain v) = [] \<or> gap v))"
proof -
  obtain k r where k: "k \<le> length bs" "cons (mpsc_run s (take k bs)) = CDone r"
    "taken (mpsc_run s (take k bs)) = taken s @ (case r of None \<Rightarrow> [] | Some n \<Rightarrow> [n])"
    and c: "r = None \<longrightarrow> cause_seen s (take k bs)"
    using pop_answer [of s bs] mpsc_run_reach [OF mpsc_reach.init] assms by fastforce
  have "\<exists>j\<le>k. let v = mpsc_run s (take j bs) in live (chain v) = [] \<or> gap v" if "r = None"
    using c that k(1) unfolding cause_seen_def by (auto simp: min_def split: if_splits)
  then show ?thesis using k by blast
qed

definition pop_example :: "act list" where
  "pop_example = [Start 0 (Node 7), Produce 0, Produce 0]"

theorem pop_answers_witness:
  "\<exists>k\<le>11. \<exists>r. cons (mpsc_run (mpsc_run mpsc_init pop_example) (take k (Produce 0 # replicate 10 Consume))) = CDone r \<and>
    taken (mpsc_run (mpsc_run mpsc_init pop_example) (take k (Produce 0 # replicate 10 Consume))) =
      (case r of None \<Rightarrow> [] | Some n \<Rightarrow> [n])"
proof -
  have "cons (mpsc_run mpsc_init pop_example) = CStart" "taken (mpsc_run mpsc_init pop_example) = []"
    by (simp_all add: pop_example_def mpsc_init_def iq_init_def can_start_def prod_step_def)
  then show ?thesis using pop_answers [OF refl, of pop_example "Produce 0 # replicate 10 Consume"] by auto
qed

text \<open>The step-by-step consumer is the function \<open>iq_pop\<close>: run alone from the start of a
  call, in any state of the memory, it returns within ten steps with \<open>iq_pop\<close>'s result and
  leaves \<open>iq_pop\<close>'s memory.\<close>

theorem pop_refines:
  assumes "cons s = CStart"
  shows "shm (cons_run 10 s) = fst (iq_pop (shm s)) \<and> cons (cons_run 10 s) = CDone (snd (iq_pop (shm s)))"
  using cons_run_pop [OF assms] by (simp add: pop_result_def)

theorem pop_refines_witness:
  "shm (cons_run 10 mpsc_init) = iq_init \<and> cons (cons_run 10 mpsc_init) = CDone None"
  using pop_refines [of mpsc_init] by (simp add: mpsc_init_def iq_init_def iq_pop_def)

text \<open>C5. \<open>pop\<close> fails only on an empty queue or while a push is between its exchange and its
  link: in any reachable state with no such push, the consumer alone gets the oldest node.\<close>

theorem pop_quiescent:
  assumes "s = mpsc_run mpsc_init as" and "cons s = CStart" and "\<forall>i p n. prod s i \<noteq> PLink p n"
  shows "cons (cons_run 10 s) = CDone (case live (chain s) of [] \<Rightarrow> None | n # _ \<Rightarrow> Some n)"
  using pop_quiet [OF _ assms(2,3)] mpsc_run_reach [OF mpsc_reach.init] assms(1) by blast

theorem pop_quiescent_witness:
  "let s = mpsc_run mpsc_init [Start 0 (Node 7), Produce 0, Produce 0, Produce 0]
   in cons (cons_run 10 s) = CDone (Some (Node 7))"
  using pop_quiescent [OF refl, of "[Start 0 (Node 7), Produce 0, Produce 0, Produce 0]"]
  by (simp add: mpsc_init_def iq_init_def can_start_def prod_step_def)

text \<open>C3. A node that \<open>pop\<close> returns may be freed at once. Whatever the consumer and any number of producers go
  on to do, no step of the queue reads or writes the node again until somebody starts to push it anew:
  not through the list, nor by a push that was under way, nor through the stub, whose \<open>next\<close> may
  still hold its address.\<close>

theorem popped_unreferenced:
  assumes "s = mpsc_run mpsc_init as" and "cons s = CTake h n" and "\<forall>i. Start i h \<notin> set bs"
  shows "cons (cons_step s) = CDone (Some h) \<and> h \<notin> accessed (cons_step s) bs"
proof -
  have reach: "mpsc_reach s" using assms(1) mpsc_run_reach [OF mpsc_reach.init] by simp
  then have "mpsc_reach (cons_step s)" using mpsc_act_reach [of s Consume] by simp
  then show ?thesis
    using let_go_unaccessed [OF _ take_lets_go [OF mpsc_reach_inv [OF reach] assms(2)]] assms(2,3)
    by (simp add: cons_step_def)
qed

theorem popped_unreferenced_witness:
  "let s = mpsc_run mpsc_init
     ([Start 0 (Node 7), Produce 0, Produce 0, Produce 0, Start 1 (Node 8), Produce 1, Produce 1,
       Produce 1] @ replicate 4 Consume)
   in nxt (cons_step s) Stub = Some (Node 7) \<and> cons (cons_step s) = CDone (Some (Node 7)) \<and>
     Node 7 \<notin> accessed (cons_step s) (replicate 20 Consume)"
proof -
  let ?as = "[Start 0 (Node 7), Produce 0, Produce 0, Produce 0, Start 1 (Node 8), Produce 1,
    Produce 1, Produce 1] @ replicate 4 Consume"
  let ?s = "mpsc_run mpsc_init ?as"
  have c: "cons ?s = CTake (Node 7) (Node 8)" and "nxt (cons_step ?s) Stub = Some (Node 7)"
    by (simp_all add: mpsc_init_def iq_init_def can_start_def prod_step_def cons_step_def
        numeral_eq_Suc)
  moreover have "\<forall>i. Start i (Node 7) \<notin> set (replicate 20 Consume)" by simp
  from popped_unreferenced [OF refl c this] show ?thesis using calculation(2) unfolding Let_def by blast
qed

end
