(* ===== verification/Eventcount.thy ===== *)
theory Eventcount
  imports IntMpscQueue
begin

text \<open>
  \<open>msgqueue/queue/eventcount.hpp\<close>: the consumer of a queue sleeps in \<open>out\<close> until a
  producer's \<open>notify\<close>. Every access to \<open>waiting\<close> and to the semaphore is one step of the
  relation; the queue behind it is a count of elements, whose \<open>pop\<close> may also fail while a
  push is under way (that is all \<open>IntMpscConc\<close> lets it do).
\<close>

section \<open>Threads\<close>

datatype epc =
    EIdle
  | EMid      \<comment> \<open>the push has begun and is not yet linked\<close>
  | ELoad     \<comment> \<open>pushed; \<open>notify\<close> is about to load \<open>waiting\<close>\<close>
  | EStore    \<comment> \<open>it was true: about to store false\<close>
  | EPost     \<comment> \<open>about to post the semaphore\<close>

datatype wpc =
    WFunc     \<comment> \<open>\<open>result = func()\<close> before the loop test\<close>
  | WPrepare  \<comment> \<open>about to store true into \<open>waiting\<close>\<close>
  | WFunc2    \<comment> \<open>\<open>result = func()\<close> after \<open>prepare_wait\<close>\<close>
  | WCancel   \<comment> \<open>it succeeded: about to store false\<close>
  | WCommit   \<comment> \<open>\<open>sem_wait\<close>\<close>
  | WDone     \<comment> \<open>\<open>out\<close> has returned an element\<close>

text \<open>\<open>ec_overlap\<close> records that a push has moved since \<open>WFunc2\<close> was entered.\<close>

record ec =
  ec_waiting :: bool
  ec_sem :: nat
  ec_items :: nat
  ec_prod :: "nat \<Rightarrow> epc"
  ec_cons :: wpc
  ec_overlap :: bool

definition ec_init :: ec where
  "ec_init = \<lparr>ec_waiting = False, ec_sem = 0, ec_items = 0, ec_prod = (\<lambda>_. EIdle),
     ec_cons = WFunc, ec_overlap = False\<rparr>"

abbreviation set_prod :: "ec \<Rightarrow> nat \<Rightarrow> epc \<Rightarrow> ec" where
  "set_prod s i c \<equiv> s\<lparr>ec_prod := (ec_prod s)(i := c)\<rparr>"

text \<open>When a call of \<open>func\<close> that began with \<open>WFunc2\<close> can come back empty.\<close>

definition may_fail :: "ec \<Rightarrow> bool" where
  "may_fail s \<longleftrightarrow> ec_items s = 0 \<or> (\<exists>i. ec_prod s i = EMid) \<or> ec_overlap s"

text \<open>The steps of the calls under way, and those that begin a push.\<close>

inductive ec_move :: "ec \<Rightarrow> ec \<Rightarrow> bool" where
  push_end: "ec_prod s i = EMid \<Longrightarrow> ec_move s ((set_prod s i ELoad)\<lparr>ec_overlap := True\<rparr>)"
| notify_load: "ec_prod s i = ELoad \<Longrightarrow>
     ec_move s (set_prod s i (if ec_waiting s then EStore else EIdle))"
| notify_store: "ec_prod s i = EStore \<Longrightarrow>
     ec_move s ((set_prod s i EPost)\<lparr>ec_waiting := False\<rparr>)"
| notify_post: "ec_prod s i = EPost \<Longrightarrow>
     ec_move s ((set_prod s i EIdle)\<lparr>ec_sem := Suc (ec_sem s)\<rparr>)"
| func_ok: "ec_cons s = WFunc \<Longrightarrow> 0 < ec_items s \<Longrightarrow>
     ec_move s (s\<lparr>ec_items := ec_items s - 1, ec_cons := WDone\<rparr>)"
| func_fail: "ec_cons s = WFunc \<Longrightarrow> ec_move s (s\<lparr>ec_cons := WPrepare\<rparr>)"
| prepare_wait: "ec_cons s = WPrepare \<Longrightarrow>
     ec_move s (s\<lparr>ec_waiting := True, ec_cons := WFunc2, ec_overlap := False\<rparr>)"
| func2_ok: "ec_cons s = WFunc2 \<Longrightarrow> 0 < ec_items s \<Longrightarrow>
     ec_move s (s\<lparr>ec_items := ec_items s - 1, ec_cons := WCancel\<rparr>)"
| func2_fail: "ec_cons s = WFunc2 \<Longrightarrow> may_fail s \<Longrightarrow> ec_move s (s\<lparr>ec_cons := WCommit\<rparr>)"
| cancel_wait: "ec_cons s = WCancel \<Longrightarrow> ec_move s (s\<lparr>ec_waiting := False, ec_cons := WDone\<rparr>)"
| commit_wait: "ec_cons s = WCommit \<Longrightarrow> 0 < ec_sem s \<Longrightarrow>
     ec_move s (s\<lparr>ec_sem := ec_sem s - 1, ec_cons := WFunc\<rparr>)"
| again: "ec_cons s = WDone \<Longrightarrow> ec_move s (s\<lparr>ec_cons := WFunc\<rparr>)"

inductive ec_step :: "ec \<Rightarrow> ec \<Rightarrow> bool" where
  push_begin: "ec_prod s i = EIdle \<Longrightarrow>
     ec_step s ((set_prod s i EMid)\<lparr>ec_items := Suc (ec_items s), ec_overlap := True\<rparr>)"
| under_way: "ec_move s t \<Longrightarrow> ec_step s t"

inductive ec_reach :: "ec \<Rightarrow> bool" where
  init: "ec_reach ec_init"
| step: "ec_reach s \<Longrightarrow> ec_step s t \<Longrightarrow> ec_reach t"

section \<open>No wake-up is lost\<close>

abbreviation some_prod :: "ec \<Rightarrow> epc set \<Rightarrow> bool" where
  "some_prod s C \<equiv> \<exists>i. ec_prod s i \<in> C"

text \<open>
  While the consumer is between \<open>prepare_wait\<close> and its wake-up, \<open>waiting\<close> is still set or a
  post has been made or is about to be made. And if it goes to sleep over an element, a
  post is on its way: from a producer past its load, or from one still to load \<open>waiting\<close>.
\<close>

definition ec_armed :: "ec \<Rightarrow> bool" where
  "ec_armed s \<longleftrightarrow> (ec_cons s = WFunc2 \<or> ec_cons s = WCommit \<longrightarrow>
     ec_waiting s \<or> 0 < ec_sem s \<or> (\<exists>i. ec_prod s i = EPost))"

abbreviation posting :: "epc \<Rightarrow> bool" where
  "posting c \<equiv> c = EStore \<or> c = EPost"

abbreviation pushing :: "epc \<Rightarrow> bool" where
  "pushing c \<equiv> c = EMid \<or> c = ELoad"

definition ec_wakes :: "ec \<Rightarrow> bool" where
  "ec_wakes s \<longleftrightarrow>
     (ec_cons s = WCommit \<or> ec_cons s = WFunc2 \<and> ec_overlap s \<longrightarrow> 0 < ec_items s \<longrightarrow>
      0 < ec_sem s \<or> (\<exists>i. posting (ec_prod s i)) \<or> ec_waiting s \<and> (\<exists>i. pushing (ec_prod s i)))"

lemma ec_move_armed: "ec_move s t \<Longrightarrow> ec_armed s \<Longrightarrow> ec_armed t"
proof (induction rule: ec_move.induct)
  case (notify_store s i)
  show ?case unfolding ec_armed_def by (auto intro: exI [of _ i])
next
  case (push_end s i)
  then show ?case unfolding ec_armed_def
    by simp (metis epc.distinct)
next
  case (notify_load s i)
  then show ?case unfolding ec_armed_def
    by simp (metis epc.distinct)
qed (auto simp: ec_armed_def)

lemma ec_step_armed: "ec_step s t \<Longrightarrow> ec_armed s \<Longrightarrow> ec_armed t"
proof (induction rule: ec_step.induct)
  case (push_begin s i)
  then show ?case unfolding ec_armed_def
    by simp (metis epc.distinct)
qed (rule ec_move_armed)

lemma ec_move_wakes: "ec_move s t \<Longrightarrow> ec_armed s \<Longrightarrow> ec_wakes s \<Longrightarrow> ec_wakes t"
proof (induction rule: ec_move.induct)
  case (push_end s i)
  then show ?case unfolding ec_wakes_def ec_armed_def
    by simp (metis epc.distinct)
next
  case (notify_load s i)
  then show ?case unfolding ec_wakes_def
    by simp (metis epc.distinct)
next
  case (notify_store s i)
  show ?case unfolding ec_wakes_def by (auto intro: exI [of _ i])
next
  case (func2_fail s)
  then show ?case unfolding ec_wakes_def ec_armed_def may_fail_def
    by simp (metis less_irrefl)
qed (auto simp: ec_wakes_def)

lemma ec_step_wakes: "ec_step s t \<Longrightarrow> ec_armed s \<Longrightarrow> ec_wakes s \<Longrightarrow> ec_wakes t"
proof (induction rule: ec_step.induct)
  case (push_begin s i)
  then show ?case unfolding ec_wakes_def ec_armed_def
    by simp (metis epc.distinct)
qed (rule ec_move_wakes)

text \<open>Every state the threads can reach is armed and wakes.\<close>

lemma ec_reach_inv: "ec_reach s \<Longrightarrow> ec_armed s \<and> ec_wakes s"
proof (induction rule: ec_reach.induct)
  case init
  show ?case by (simp add: ec_armed_def ec_wakes_def ec_init_def)
qed (auto dest: ec_step_armed ec_step_wakes)

section \<open>From asleep to awake\<close>

text \<open>A producer that is posting gets the semaphore up, and the consumer then runs.\<close>

lemma sem_wakes:
  "ec_cons s = WCommit \<Longrightarrow> 0 < ec_sem s \<Longrightarrow>
   \<exists>t. ec_move\<^sup>*\<^sup>* s t \<and> ec_cons t = WFunc \<and> ec_items t = ec_items s"
  by (rule exI [of _ "s\<lparr>ec_sem := ec_sem s - 1, ec_cons := WFunc\<rparr>"])
    (auto intro: ec_move.commit_wait [unfolded One_nat_def])

lemma post_wakes:
  assumes "ec_cons s = WCommit" "ec_prod s i = EPost"
  shows "\<exists>t. ec_move\<^sup>*\<^sup>* s t \<and> ec_cons t = WFunc \<and> ec_items t = ec_items s"
proof -
  let ?t = "(set_prod s i EIdle)\<lparr>ec_sem := Suc (ec_sem s)\<rparr>"
  have "ec_move s ?t" using assms(2) by (rule ec_move.notify_post)
  moreover have "\<exists>u. ec_move\<^sup>*\<^sup>* ?t u \<and> ec_cons u = WFunc \<and> ec_items u = ec_items ?t"
    by (rule sem_wakes) (use assms in simp_all)
  ultimately show ?thesis by (auto intro: converse_rtranclp_into_rtranclp)
qed

lemma store_wakes:
  assumes "ec_cons s = WCommit" "ec_prod s i = EStore"
  shows "\<exists>t. ec_move\<^sup>*\<^sup>* s t \<and> ec_cons t = WFunc \<and> ec_items t = ec_items s"
proof -
  let ?t = "(set_prod s i EPost)\<lparr>ec_waiting := False\<rparr>"
  have "ec_move s ?t" using assms(2) by (rule ec_move.notify_store)
  moreover have "\<exists>u. ec_move\<^sup>*\<^sup>* ?t u \<and> ec_cons u = WFunc \<and> ec_items u = ec_items ?t"
    by (rule post_wakes [of _ i]) (use assms in simp_all)
  ultimately show ?thesis by (auto intro: converse_rtranclp_into_rtranclp)
qed

lemma load_wakes:
  assumes "ec_cons s = WCommit" "ec_prod s i = ELoad" "ec_waiting s"
  shows "\<exists>t. ec_move\<^sup>*\<^sup>* s t \<and> ec_cons t = WFunc \<and> ec_items t = ec_items s"
proof -
  let ?t = "set_prod s i EStore"
  have "ec_move s ?t" using ec_move.notify_load [of s i] assms by simp
  moreover have "\<exists>u. ec_move\<^sup>*\<^sup>* ?t u \<and> ec_cons u = WFunc \<and> ec_items u = ec_items ?t"
    by (rule store_wakes [of _ i]) (use assms in simp_all)
  ultimately show ?thesis by (auto intro: converse_rtranclp_into_rtranclp)
qed

lemma mid_wakes:
  assumes "ec_cons s = WCommit" "ec_prod s i = EMid" "ec_waiting s"
  shows "\<exists>t. ec_move\<^sup>*\<^sup>* s t \<and> ec_cons t = WFunc \<and> ec_items t = ec_items s"
proof -
  let ?t = "(set_prod s i ELoad)\<lparr>ec_overlap := True\<rparr>"
  have "ec_move s ?t" using assms(2) by (rule ec_move.push_end)
  moreover have "\<exists>u. ec_move\<^sup>*\<^sup>* ?t u \<and> ec_cons u = WFunc \<and> ec_items u = ec_items ?t"
    by (rule load_wakes [of _ i]) (use assms in simp_all)
  ultimately show ?thesis by (auto intro: converse_rtranclp_into_rtranclp)
qed

text \<open>A state in which the consumer sleeps over an element.\<close>

definition ec_asleep :: ec where
  "ec_asleep = \<lparr>ec_waiting = True, ec_sem = 0, ec_items = 1,
     ec_prod = (\<lambda>_. EIdle)(0 := EMid), ec_cons = WCommit, ec_overlap = True\<rparr>"

lemma ec_asleep_reach: "ec_reach ec_asleep"
proof -
  let ?s = "ec_init\<lparr>ec_cons := WPrepare\<rparr>"
  let ?t = "?s\<lparr>ec_waiting := True, ec_cons := WFunc2, ec_overlap := False\<rparr>"
  let ?u = "?t\<lparr>ec_cons := WCommit\<rparr>"
  have "ec_reach ?s"
    by (rule ec_reach.step [OF ec_reach.init]) (rule ec_step.under_way [OF ec_move.func_fail], simp add: ec_init_def)
  then have "ec_reach ?t" by (rule ec_reach.step) (rule ec_step.under_way [OF ec_move.prepare_wait], simp)
  then have "ec_reach ?u"
    by (rule ec_reach.step) (rule ec_step.under_way [OF ec_move.func2_fail], simp_all add: may_fail_def ec_init_def)
  then have "ec_reach ((set_prod ?u 0 EMid)\<lparr>ec_items := Suc (ec_items ?u), ec_overlap := True\<rparr>)"
    by (rule ec_reach.step) (rule ec_step.push_begin, simp add: ec_init_def)
  then show ?thesis by (simp add: ec_init_def ec_asleep_def)
qed

text \<open>C7. However pushes, notifications and the consumer's \<open>out\<close> interleave, a consumer
  asleep in \<open>commit_wait\<close> over a queue with an element in it is never stranded: steps of the calls
  that are under way, with no push begun after, wake it.\<close>

theorem eventcount_no_lost_wakeup:
  assumes "ec_reach s" and "ec_cons s = WCommit" and "0 < ec_items s"
  shows "\<exists>t. ec_move\<^sup>*\<^sup>* s t \<and> ec_cons t = WFunc \<and> ec_items t = ec_items s"
proof -
  have "0 < ec_sem s \<or> (\<exists>i. posting (ec_prod s i)) \<or> ec_waiting s \<and> (\<exists>i. pushing (ec_prod s i))"
    using ec_reach_inv [OF assms(1)] assms(2,3) by (simp add: ec_wakes_def)
  then show ?thesis
    using sem_wakes post_wakes store_wakes load_wakes mid_wakes assms(2) by blast
qed

theorem eventcount_no_lost_wakeup_witness:
  "\<exists>t. ec_move\<^sup>*\<^sup>* ec_asleep t \<and> ec_cons t = WFunc \<and> ec_items t = 1"
  using eventcount_no_lost_wakeup [OF ec_asleep_reach] by (simp add: ec_asleep_def)

end
