(* ===== verification/Messages.thy ===== *)
theory Messages
  imports IntMpscQueue
begin

text \<open>
  What \<open>MessageQueue\<close>, \<open>SignaledQueue\<close> and \<open>AsyncQueue\<close> have in common: commands on the heap
  that carry their own queue node, the node's \<open>self\<close> pointer back to the command (null for
  a \<open>nullmsg\<close>), and the intrusive queue of the nodes. A command is a label; running it
  appends the label to a log.
\<close>

section \<open>Commands and their nodes\<close>

text \<open>\<open>msg_fresh\<close> stands for the heap: the nodes from it on have not been allocated.\<close>

record 'c msgs =
  msg_queue :: iq
  msg_self :: "nat \<Rightarrow> 'c option"
  msg_fresh :: nat

definition msg_init :: "'c msgs" where
  "msg_init = \<lparr>msg_queue = iq_init, msg_self = (\<lambda>_. None), msg_fresh = 0\<rparr>"

text \<open>\<open>new Command\<close> with \<open>node.self\<close> set to it, or \<open>new Node\<close> with a null \<open>self\<close>.\<close>

definition msg_new :: "'c msgs \<Rightarrow> 'c option \<Rightarrow> 'c msgs \<times> node" where
  "msg_new m x =
     (m\<lparr>msg_self := (msg_self m)(msg_fresh m := x), msg_fresh := Suc (msg_fresh m)\<rparr>,
      Node (msg_fresh m))"

definition msg_push :: "'c msgs \<Rightarrow> node \<Rightarrow> 'c msgs" where
  "msg_push m n = m\<lparr>msg_queue := iq_push (msg_queue m) n\<rparr>"

definition msg_post :: "'c msgs \<Rightarrow> 'c option \<Rightarrow> 'c msgs" where
  "msg_post m x = (let (m, n) = msg_new m x in msg_push m n)"

text \<open>\<open>getcommand\<close>: the command of a node, none for a null message.\<close>

fun getcommand :: "'c msgs \<Rightarrow> node \<Rightarrow> 'c option" where
  "getcommand m Stub = None"
| "getcommand m (Node n) = msg_self m n"

text \<open>\<open>pop\<close>, and what \<open>getcommand\<close> says of the node.\<close>

definition msg_next :: "'c msgs \<Rightarrow> 'c msgs \<times> 'c option option" where
  "msg_next m =
     (let (q, r) = iq_pop (msg_queue m); m = m\<lparr>msg_queue := q\<rparr>
      in (m, map_option (getcommand m) r))"

section \<open>The messages in a queue\<close>

definition msg_rep :: "'c msgs \<Rightarrow> 'c option list \<Rightarrow> bool" where
  "msg_rep m xs \<longleftrightarrow> (\<exists>ns. iq_rep (msg_queue m) (map Node ns) \<and> xs = map (msg_self m) ns \<and>
     (\<forall>n\<in>set ns. n < msg_fresh m))"

lemma msg_rep_init: "msg_rep msg_init []"
  by (simp add: msg_rep_def msg_init_def intrusive.rep_init)

lemma msg_rep_post:
  assumes "msg_rep m xs"
  shows "msg_rep (msg_post m x) (xs @ [x])"
proof -
  obtain ns where ns: "iq_rep (msg_queue m) (map Node ns)" "xs = map (msg_self m) ns"
    "\<forall>n\<in>set ns. n < msg_fresh m"
    using assms by (auto simp: msg_rep_def)
  let ?n = "msg_fresh m"
  have "?n \<notin> set ns" using ns(3) by auto
  then have "iq_rep (iq_push (msg_queue m) (Node ?n)) (map Node (ns @ [?n]))"
    using intrusive.rep_push [OF ns(1), of "Node ?n"] by (auto simp: iq_fresh_def)
  moreover have "xs @ [x] = map ((msg_self m)(?n := x)) (ns @ [?n])"
    using ns(2,3) by auto
  ultimately show ?thesis
    unfolding msg_rep_def using ns(3)
    by (intro exI [of _ "ns @ [?n]"]) (auto simp: msg_post_def msg_new_def msg_push_def)
qed

lemma msg_rep_next_Nil:
  "msg_rep m [] \<Longrightarrow> snd (msg_next m) = None \<and> msg_rep (fst (msg_next m)) []"
  using intrusive.rep_pop_Nil [of "msg_queue m"]
  by (auto simp: msg_rep_def msg_next_def case_prod_beta)

lemma msg_rep_next_Cons:
  assumes "msg_rep m (x # xs)"
  shows "snd (msg_next m) = Some x \<and> msg_rep (fst (msg_next m)) xs"
proof -
  obtain n ns where ns: "iq_rep (msg_queue m) (Node n # map Node ns)" "x = msg_self m n"
    "xs = map (msg_self m) ns" "\<forall>n\<in>set ns. n < msg_fresh m"
    using assms by (auto simp: msg_rep_def)
  show ?thesis
    using intrusive.rep_pop_Cons [OF ns(1)] ns(2-4)
    by (auto simp: msg_rep_def msg_next_def case_prod_beta)
qed

text \<open>A queue of messages takes any message: each is carried by a node of its own.\<close>

interpretation messages: fifo msg_rep msg_init msg_post msg_next "\<lambda>_ _. True"
  by unfold_locales (simp_all add: msg_rep_init msg_rep_post msg_rep_next_Nil msg_rep_next_Cons)

end
