(* ===== verification/AsyncQueue.thy ===== *)
theory AsyncQueue
  imports Messages
begin

text \<open>
  \<open>service/async_msgqueue.hpp\<close>: a message queue woken through a libev \<open>ev_async\<close> watcher.
  libev is not modelled: its calls are recorded in order in \<open>aq_calls\<close>, and when it runs
  the watcher's callback is up to the schedule. An \<open>EventLoop *\<close> is a number. As written, \<open>send\<close> cannot be
  instantiated: it leaves out the \<open>RESULT\<close> parameter of \<open>Command\<close>. It is modelled with that parameter supplied;
  \<open>request\<close>, whose \<open>RequestCommand\<close> has no such parameter, takes the same steps.
\<close>

section \<open>State and operations\<close>

datatype ev_call =
    EvAsyncInit
  | EvAsyncStart nat
  | EvAsyncStop nat
  | EvAsyncSend nat

record 'c async =
  aq_loop :: "nat option"
  aq_msgs :: "'c msgs"
  aq_calls :: "ev_call list"
  aq_ran :: "'c list"

definition async_new :: "'c async" where
  "async_new = \<lparr>aq_loop = None, aq_msgs = msg_init, aq_calls = [EvAsyncInit], aq_ran = []\<rparr>"

text \<open>\<open>loop->get_loop()\<close> as the argument of a libev call.\<close>

definition with_loop :: "'c async \<Rightarrow> (nat \<Rightarrow> ev_call) \<Rightarrow> 'c async result" where
  "with_loop a call =
     (case aq_loop a of None \<Rightarrow> Inl NullDeref
      | Some l \<Rightarrow> Inr (a\<lparr>aq_calls := aq_calls a @ [call l]\<rparr>))"

definition async_start :: "'c async \<Rightarrow> nat \<Rightarrow> 'c async result" where
  "async_start a l = with_loop (a\<lparr>aq_loop := Some l\<rparr>) EvAsyncStart"

definition async_stop :: "'c async \<Rightarrow> 'c async result" where
  "async_stop a = with_loop a EvAsyncStop"

definition async_send :: "'c async \<Rightarrow> 'c \<Rightarrow> 'c async result" where
  "async_send a c =
     (let (m, n) = msg_new (aq_msgs a) (Some c);
          a = a\<lparr>aq_msgs := msg_push m n\<rparr>
      in with_loop a EvAsyncSend)"

definition async_receive :: "'c async \<Rightarrow> 'c async \<times> bool" where
  "async_receive a =
     (let (m, r) = msg_next (aq_msgs a); a = a\<lparr>aq_msgs := m\<rparr> in
      case r of
        None \<Rightarrow> (a, False)
      | Some (Some c) \<Rightarrow> (a\<lparr>aq_ran := aq_ran a @ [c]\<rparr>, True)
      | Some None \<Rightarrow> (a, False))"

definition async_nullmsg :: "'c async \<Rightarrow> 'c async" where
  "async_nullmsg a =
     (let (m, n) = msg_new (aq_msgs a) None in a\<lparr>aq_msgs := msg_push m n\<rparr>)"

definition asyncCallback :: "'c async \<Rightarrow> 'c async result" where
  "asyncCallback a =
     (let (a, ok) = async_receive a in if \<not> ok then async_stop a else Inr a)"

section \<open>Schedules\<close>

text \<open>What the client threads do and when libev calls back.\<close>

datatype 'c aop = ASend 'c | ANull | ACallback

fun async_op :: "'c async \<Rightarrow> 'c aop \<Rightarrow> 'c async result" where
  "async_op a (ASend c) = async_send a c"
| "async_op a ANull = Inr (async_nullmsg a)"
| "async_op a ACallback = asyncCallback a"

fun async_run :: "'c async \<Rightarrow> 'c aop list \<Rightarrow> 'c async result" where
  "async_run a [] = Inr a"
| "async_run a (x # xs) = rbind (async_op a x) (\<lambda>a'. async_run a' xs)"

text \<open>The messages a schedule posts.\<close>

fun aposts :: "'c aop list \<Rightarrow> 'c option list" where
  "aposts [] = []"
| "aposts (ASend c # xs) = Some c # aposts xs"
| "aposts (ANull # xs) = None # aposts xs"
| "aposts (ACallback # xs) = aposts xs"

abbreviation callbacks :: "'c aop list \<Rightarrow> nat" where
  "callbacks xs \<equiv> length (filter (\<lambda>x. x = ACallback) xs)"

text \<open>The commands among messages, in order.\<close>

definition commands :: "'c option list \<Rightarrow> 'c list" where
  "commands xs = map the (filter (\<lambda>x. x \<noteq> None) xs)"

lemma commands_simps [simp]:
  "commands [] = []" "commands (Some c # xs) = c # commands xs" "commands (None # xs) = commands xs"
  "commands (xs @ ys) = commands xs @ commands ys"
  by (simp_all add: commands_def)

lemma commands_Some [simp]: "commands (map Some cs) = cs"
  by (induction cs) simp_all

lemma commands_None [simp]: "commands (replicate n None) = []"
  by (induction n) simp_all

lemma length_commands: "length (commands xs) \<le> length xs"
  by (simp add: commands_def)

definition async_pending :: "'c async \<Rightarrow> 'c option list \<Rightarrow> bool" where
  "async_pending a xs \<longleftrightarrow> msg_rep (aq_msgs a) xs \<and> aq_loop a \<noteq> None"

text \<open>One operation on a started queue.\<close>

lemma async_started: "\<exists>a. async_start async_new l = Inr a \<and> async_pending a [] \<and> aq_ran a = []"
  by (simp add: async_start_def with_loop_def async_new_def async_pending_def messages.rep_init)

lemma async_send_pending:
  assumes "async_pending a xs"
  shows "\<exists>a'. async_send a c = Inr a' \<and> async_pending a' (xs @ [Some c]) \<and> aq_ran a' = aq_ran a"
  using assms messages.rep_push [of "aq_msgs a" xs "Some c"]
  by (auto simp: async_send_def with_loop_def async_pending_def msg_post_def case_prod_beta Let_def)

lemma async_null_pending:
  assumes "async_pending a xs"
  shows "async_pending (async_nullmsg a) (xs @ [None]) \<and> aq_ran (async_nullmsg a) = aq_ran a"
  using assms messages.rep_push [of "aq_msgs a" xs None]
  by (auto simp: async_nullmsg_def async_pending_def msg_post_def case_prod_beta Let_def)

lemma asyncCallback_pending:
  assumes "async_pending a xs"
  shows "\<exists>a'. asyncCallback a = Inr a' \<and> async_pending a' (tl xs) \<and>
    aq_ran a' = aq_ran a @ commands (take 1 xs)"
proof (cases xs)
  case Nil
  then show ?thesis
    using assms messages.rep_pop_Nil [of "aq_msgs a"]
    by (auto simp: asyncCallback_def async_receive_def async_stop_def with_loop_def
        async_pending_def case_prod_beta Let_def)
next
  case (Cons x ys)
  then show ?thesis
    using assms messages.rep_pop_Cons [of "aq_msgs a" x ys]
    by (cases x) (auto simp: asyncCallback_def async_receive_def async_stop_def with_loop_def
        async_pending_def case_prod_beta Let_def)
qed

lemma async_run_pending:
  assumes "async_pending a xs"
  shows "\<exists>a' done left. async_run a ops = Inr a' \<and> async_pending a' left \<and>
    aq_ran a' = aq_ran a @ commands done \<and> xs @ aposts ops = done @ left \<and>
    length done \<le> callbacks ops"
  using assms
proof (induction ops arbitrary: a xs)
  case Nil
  then show ?case by (auto intro: exI [of _ "[]"])
next
  case (Cons x ops)
  show ?case
  proof (cases x)
    case (ASend c)
    obtain a1 where a1: "async_send a c = Inr a1" "async_pending a1 (xs @ [Some c])" "aq_ran a1 = aq_ran a"
      using async_send_pending [OF Cons.prems] by blast
    with Cons.IH [OF a1(2)] ASend show ?thesis by simp
  next
    case ANull
    with Cons.IH [of "async_nullmsg a" "xs @ [None]"] async_null_pending [OF Cons.prems]
    show ?thesis by simp
  next
    case ACallback
    obtain a1 where a1: "asyncCallback a = Inr a1" "async_pending a1 (tl xs)"
      "aq_ran a1 = aq_ran a @ commands (take 1 xs)"
      using asyncCallback_pending [OF Cons.prems] by blast
    obtain a' d l where l: "async_run a1 ops = Inr a'" "async_pending a' l"
      "aq_ran a' = aq_ran a1 @ commands d" "tl xs @ aposts ops = d @ l" "length d \<le> callbacks ops"
      using Cons.IH [OF a1(2)] by blast
    show ?thesis
    proof (cases xs)
      case Nil
      with l a1 ACallback show ?thesis
        by (intro exI [of _ a'] exI [of _ d] exI [of _ l]) simp
    next
      case (Cons y ys)
      then have "aq_ran a' = aq_ran a @ commands (y # d)"
        using l(3) a1(3) by (cases y) simp_all
      with l a1 ACallback Cons show ?thesis
        by (intro exI [of _ a'] exI [of _ "y # d"] exI [of _ l]) simp
    qed
  qed
qed

lemma async_fifo_run:
  fixes ops :: "'c aop list"
  shows "\<exists>a done left. rbind (async_start async_new l) (\<lambda>a. async_run a ops) = Inr a \<and>
     aq_ran a = commands done \<and> msg_rep (aq_msgs a) left \<and> aposts ops = done @ left \<and>
     length (aq_ran a) \<le> callbacks ops"
proof -
  obtain a0 :: "'c async" where a0: "async_start async_new l = Inr a0" "async_pending a0 []" "aq_ran a0 = []"
    using async_started by blast
  from async_run_pending [OF a0(2), of ops] obtain a d r where
    "async_run a0 ops = Inr a" "async_pending a r" "aq_ran a = commands d" "aposts ops = d @ r"
    "length d \<le> callbacks ops"
    using a0(3) by auto
  moreover have "length (commands d) \<le> length d" by (rule length_commands)
  ultimately show ?thesis using a0(1) by (auto simp: async_pending_def)
qed

section \<open>Properties\<close>

text \<open>C18. Whenever libev runs the callback, commands of a started \<open>AsyncQueue\<close> are executed
  in the order they were sent, each at most once, none invented; and a callback takes one
  message off the queue however many are waiting, so that no more commands have run than
  there were callbacks. With signals that libev merges into one callback, commands stay in
  the queue.\<close>

theorem async_fifo:
  fixes ops :: "'c aop list"
  shows "\<exists>a done left. rbind (async_start async_new l) (\<lambda>a. async_run a ops) = Inr a \<and>
     aq_ran a = commands done \<and> msg_rep (aq_msgs a) left \<and> aposts ops = done @ left \<and>
     length (aq_ran a) \<le> callbacks ops"
  by (rule async_fifo_run)

lemma async_sends:
  assumes "async_pending a xs"
  shows "\<exists>a'. async_run a (map ASend cs) = Inr a' \<and> async_pending a' (xs @ map Some cs) \<and>
    aq_ran a' = aq_ran a"
  using assms
proof (induction cs arbitrary: a xs)
  case (Cons c cs)
  obtain a1 where a1: "async_send a c = Inr a1" "async_pending a1 (xs @ [Some c])" "aq_ran a1 = aq_ran a"
    using async_send_pending [OF Cons.prems] by blast
  with Cons.IH [OF a1(2)] show ?case by simp
qed simp

lemma async_run_append:
  "async_run a (xs @ ys) = rbind (async_run a xs) (\<lambda>a'. async_run a' ys)"
proof (induction xs arbitrary: a)
  case (Cons x xs)
  then show ?case by (cases "async_op a x") simp_all
qed simp

text \<open>Sends merged into one callback: of any number of commands sent before the loop gets
  to run the watcher, one is executed and the others are left in the queue.\<close>

theorem async_coalesced:
  fixes c :: 'c
  shows "\<exists>a. rbind (async_start async_new l) (\<lambda>a. async_run a (map ASend (c # cs) @ [ACallback])) = Inr a \<and>
     aq_ran a = [c] \<and> msg_rep (aq_msgs a) (map Some cs)"
proof -
  obtain a0 :: "'c async" where a0: "async_start async_new l = Inr a0" "async_pending a0 []" "aq_ran a0 = []"
    using async_started by blast
  obtain a1 where a1: "async_run a0 (map ASend (c # cs)) = Inr a1"
    "async_pending a1 (map Some (c # cs))" "aq_ran a1 = []"
    using async_sends [OF a0(2), of "c # cs"] a0(3) by (metis append_Nil)
  obtain a where "asyncCallback a1 = Inr a" "async_pending a (map Some cs)" "aq_ran a = [c]"
    using asyncCallback_pending [OF a1(2)] a1(3) by auto
  with a0(1) a1(1) show ?thesis
    by (auto simp: async_run_append async_pending_def simp del: list.map(2) async_run.simps(2))
      (simp add: async_run.simps)
qed

text \<open>A null message silences the queue: posted before a command, it makes the callback
  stop the watcher without running anything, and the command stays behind it.\<close>

theorem async_null_stops:
  "\<exists>a. rbind (async_start async_new l) (\<lambda>a. async_run a [ANull, ASend c, ACallback]) = Inr a \<and>
     aq_ran a = [] \<and> last (aq_calls a) = EvAsyncStop l \<and> msg_rep (aq_msgs a) [Some c]"
proof -
  let ?m = "msg_post (msg_post msg_init None) (Some c)"
  have rep: "msg_rep ?m [None, Some c]"
    using messages.rep_push [OF messages.rep_push [OF messages.rep_init], of None "Some c"] by simp
  show ?thesis
    using messages.rep_pop_Cons [OF rep]
    by (auto simp: async_start_def with_loop_def async_new_def async_nullmsg_def async_send_def
        asyncCallback_def async_receive_def async_stop_def msg_post_def case_prod_beta Let_def)
qed

text \<open>Before \<open>start\<close> (or a \<open>loop\<close> is set otherwise) both \<open>send\<close> and \<open>stop\<close> follow a null
  pointer.\<close>

theorem async_not_started:
  "async_send async_new c = Inl NullDeref \<and> async_stop async_new = Inl NullDeref"
  by (simp add: async_send_def async_stop_def with_loop_def async_new_def case_prod_beta Let_def)

end
