(* ===== verification/MessageQueue.thy ===== *)
theory MessageQueue
  imports AsyncQueue
begin

text \<open>
  \<open>msgqueue/msgqueue.hpp\<close> over \<open>queue/int_mpsc_pipe.hpp\<close> and \<open>queue/eventcount.hpp\<close>, as one
  thread runs each call: \<open>out\<close> either returns or stops in \<open>sem_wait\<close> with the semaphore at
  zero. (\<open>Eventcount\<close> has the interleavings.)
\<close>

section \<open>Eventcount\<close>

record evc =
  evc_waiting :: bool
  evc_sem :: nat

definition evc_new :: evc where
  "evc_new = \<lparr>evc_waiting = False, evc_sem = 0\<rparr>"

definition prepare_wait :: "evc \<Rightarrow> evc" where
  "prepare_wait e = e\<lparr>evc_waiting := True\<rparr>"

definition cancel_wait :: "evc \<Rightarrow> evc" where
  "cancel_wait e = e\<lparr>evc_waiting := False\<rparr>"

text \<open>\<open>None\<close>: the caller sleeps.\<close>

definition commit_wait :: "evc \<Rightarrow> evc option" where
  "commit_wait e = (if evc_sem e = 0 then None else Some (e\<lparr>evc_sem := evc_sem e - 1\<rparr>))"

definition notify :: "evc \<Rightarrow> evc" where
  "notify e =
     (if evc_waiting e then e\<lparr>evc_waiting := False, evc_sem := Suc (evc_sem e)\<rparr> else e)"

datatype ('s, 'r) blocking = Blocked 's | Returned 's 'r

lemma commit_wait_sem: "commit_wait (prepare_wait e) = Some e' \<Longrightarrow> evc_sem e' < evc_sem e"
  by (auto simp: commit_wait_def prepare_wait_def split: if_splits)

text \<open>The loop of \<open>out\<close>, entered with \<open>result\<close>; each round uses up a post.\<close>

function out_loop ::
  "('s \<Rightarrow> 's \<times> 'r option) \<Rightarrow> 's \<Rightarrow> evc \<Rightarrow> 'r option \<Rightarrow> ('s \<times> evc, 'r) blocking" where
  "out_loop func s e (Some r) = Returned (s, e) r"
| "out_loop func s e None =
     (case func s of
        (s, Some r) \<Rightarrow> Returned (s, cancel_wait (prepare_wait e)) r
      | (s, None) \<Rightarrow>
          (case commit_wait (prepare_wait e) of
             None \<Rightarrow> Blocked (s, prepare_wait e)
           | Some e \<Rightarrow> (case func s of (s, result) \<Rightarrow> out_loop func s e result)))"
  by pat_completeness auto
termination
  by (relation "measure (\<lambda>(func, s, e, r). evc_sem e)") (auto dest: commit_wait_sem)

definition out ::
  "('s \<Rightarrow> 's \<times> 'r option) \<Rightarrow> 's \<Rightarrow> evc \<Rightarrow> ('s \<times> evc, 'r) blocking" where
  "out func s e = (case func s of (s, result) \<Rightarrow> out_loop func s e result)"

text \<open>On a queue with an element, \<open>out\<close> returns the first one at once.\<close>

context fifo
begin

lemma out_Cons:
  assumes "rep q (x # xs)"
  shows "\<exists>q'. out pop q e = Returned (q', e) x \<and> rep q' xs"
  using rep_pop_Cons [OF assms] by (cases "pop q") (auto simp: out_def)

text \<open>On an empty one it sleeps, when it has used up the posts there were.\<close>

lemma out_loop_Nil:
  "rep q [] \<Longrightarrow> \<exists>q'. out_loop pop q e None = Blocked (q', \<lparr>evc_waiting = True, evc_sem = 0\<rparr>) \<and> rep q' []"
proof (induction "evc_sem e" arbitrary: q e rule: less_induct)
  case less
  obtain q1 where q1: "pop q = (q1, None)" "rep q1 []"
    using rep_pop_Nil [OF less.prems] by (cases "pop q") auto
  obtain q2 where q2: "pop q1 = (q2, None)" "rep q2 []"
    using rep_pop_Nil [OF q1(2)] by (cases "pop q1") auto
  show ?case
  proof (cases "commit_wait (prepare_wait e)")
    case None
    then have "prepare_wait e = \<lparr>evc_waiting = True, evc_sem = 0\<rparr>"
      by (auto simp: commit_wait_def prepare_wait_def split: if_splits)
    with None q1 show ?thesis by simp
  next
    case (Some e')
    with less.hyps [OF commit_wait_sem [OF Some] q2(2)] q1 q2 show ?thesis by simp
  qed
qed

lemma out_Nil:
  assumes "rep q []"
  shows "\<exists>q'. out pop q e = Blocked (q', \<lparr>evc_waiting = True, evc_sem = 0\<rparr>) \<and> rep q' []"
  using rep_pop_Nil [OF assms] out_loop_Nil by (cases "pop q") (auto simp: out_def)

end

section \<open>The pipe and the message queue\<close>

record pipe =
  pipe_queue :: iq
  pipe_event :: evc

text \<open>\<open>IntMpscPipe::send\<close> takes a node and pops.\<close>

definition pipe_send :: "pipe \<Rightarrow> node \<Rightarrow> pipe" where
  "pipe_send p n =
     p\<lparr>pipe_queue := fst (iq_pop (pipe_queue p)), pipe_event := notify (pipe_event p)\<rparr>"

definition pipe_recv :: "pipe \<Rightarrow> (pipe, node) blocking" where
  "pipe_recv p =
     (case out iq_pop (pipe_queue p) (pipe_event p) of
        Blocked (q, e) \<Rightarrow> Blocked \<lparr>pipe_queue = q, pipe_event = e\<rparr>
      | Returned (q, e) n \<Rightarrow> Returned \<lparr>pipe_queue = q, pipe_event = e\<rparr> n)"

definition pipe_try_recv :: "pipe \<Rightarrow> pipe \<times> node option" where
  "pipe_try_recv p = (let (q, n) = iq_pop (pipe_queue p) in (p\<lparr>pipe_queue := q\<rparr>, n))"

record 'c mqueue =
  mq_pipe :: pipe
  mq_self :: "nat \<Rightarrow> 'c option"
  mq_fresh :: nat
  mq_ran :: "'c list"

definition mq_new :: "'c mqueue" where
  "mq_new = \<lparr>mq_pipe = \<lparr>pipe_queue = iq_init, pipe_event = evc_new\<rparr>,
     mq_self = (\<lambda>_. None), mq_fresh = 0, mq_ran = []\<rparr>"

text \<open>\<open>send\<close> and \<open>request\<close> differ in what the command does when it is called.\<close>

definition mq_send :: "'c mqueue \<Rightarrow> 'c \<Rightarrow> 'c mqueue" where
  "mq_send s c =
     (let n = mq_fresh s;
          s = s\<lparr>mq_fresh := Suc n, mq_self := (mq_self s)(n := Some c)\<rparr>
      in s\<lparr>mq_pipe := pipe_send (mq_pipe s) (Node n)\<rparr>)"

definition mq_nullmsg :: "'c mqueue \<Rightarrow> 'c mqueue" where
  "mq_nullmsg s =
     (let n = mq_fresh s;
          s = s\<lparr>mq_fresh := Suc n, mq_self := (mq_self s)(n := None)\<rparr>
      in s\<lparr>mq_pipe := pipe_send (mq_pipe s) (Node n)\<rparr>)"

definition mq_receive :: "'c mqueue \<Rightarrow> ('c mqueue, bool) blocking" where
  "mq_receive s =
     (case pipe_recv (mq_pipe s) of
        Blocked p \<Rightarrow> Blocked (s\<lparr>mq_pipe := p\<rparr>)
      | Returned p node \<Rightarrow>
          let s = s\<lparr>mq_pipe := p\<rparr> in
          (case (case node of Stub \<Rightarrow> None | Node n \<Rightarrow> mq_self s n) of
             Some c \<Rightarrow> Returned (s\<lparr>mq_ran := mq_ran s @ [c]\<rparr>) True
           | None \<Rightarrow> Returned s False))"

text \<open>\<open>run\<close>: until a null message arrives, or asleep in a \<open>receive\<close>.\<close>

partial_function (option) mq_run :: "'c mqueue \<Rightarrow> ('c mqueue, unit) blocking option" where
  "mq_run s =
     (case mq_receive s of
        Blocked s \<Rightarrow> Some (Blocked s)
      | Returned s ok \<Rightarrow> if ok then mq_run s else Some (Returned s ()))"

datatype 'c mop = MSend 'c | MNull | MReceive

fun mq_op :: "'c mqueue \<Rightarrow> 'c mop \<Rightarrow> 'c mqueue" where
  "mq_op s (MSend c) = mq_send s c"
| "mq_op s MNull = mq_nullmsg s"
| "mq_op s MReceive = (case mq_receive s of Blocked s \<Rightarrow> s | Returned s _ \<Rightarrow> s)"

text \<open>Nothing a client does puts a node into the pipe.\<close>

definition mq_dry :: "'c mqueue \<Rightarrow> bool" where
  "mq_dry s \<longleftrightarrow> iq_rep (pipe_queue (mq_pipe s)) [] \<and> mq_ran s = []"

lemma mq_dry_new: "mq_dry mq_new"
  by (simp add: mq_dry_def mq_new_def intrusive.rep_init)

lemma mq_dry_sends: "mq_dry s \<Longrightarrow> mq_dry (mq_send s c) \<and> mq_dry (mq_nullmsg s)"
  using intrusive.rep_pop_Nil [of "pipe_queue (mq_pipe s)"]
  by (simp add: mq_dry_def mq_send_def mq_nullmsg_def pipe_send_def Let_def)

lemma mq_dry_receive:
  assumes "mq_dry s"
  shows "\<exists>s'. mq_receive s = Blocked s' \<and> mq_dry s'"
  using intrusive.out_Nil [of "pipe_queue (mq_pipe s)" "pipe_event (mq_pipe s)"] assms
  by (auto simp: mq_dry_def mq_receive_def pipe_recv_def)

lemma mq_dry_op: "mq_dry s \<Longrightarrow> mq_dry (mq_op s x)"
  by (cases x) (auto simp: mq_dry_sends dest: mq_dry_receive)

lemma mq_dry_ops: "mq_dry s \<Longrightarrow> mq_dry (foldl mq_op s xs)"
  by (induction xs arbitrary: s) (auto intro: mq_dry_op)

lemma mqueue_sleeps: "\<exists>s'. mq_run (foldl mq_op mq_new xs) = Some (Blocked s') \<and> mq_ran s' = []"
proof -
  have "mq_dry (foldl mq_op mq_new xs)" by (rule mq_dry_ops [OF mq_dry_new])
  then obtain s' where "mq_receive (foldl mq_op mq_new xs) = Blocked s'" "mq_dry s'"
    using mq_dry_receive by blast
  then show ?thesis by (subst mq_run.simps) (simp add: mq_dry_def)
qed

section \<open>Properties\<close>

text \<open>C22. A \<open>MessageQueue\<close> delivers nothing. Whatever is sent, and however often its worker
  has been woken, no command is ever executed and \<open>run\<close> sleeps for ever: \<open>IntMpscPipe::send\<close>
  pops where it should push, so that not even the null message meant to end \<open>run\<close> arrives.\<close>

theorem mqueue_delivers_nothing:
  "\<exists>s'. mq_run (foldl mq_op mq_new xs) = Some (Blocked s') \<and> mq_ran s' = []"
  by (rule mqueue_sleeps)

text \<open>C8. \<open>Eventcount::out\<close> over the intrusive queue is a blocking \<open>pop\<close>: it returns the oldest
  node when there is one, without touching the semaphore, and otherwise goes to sleep with
  \<open>waiting\<close> set and all posts consumed, so that the next \<open>notify\<close> posts.\<close>

theorem out_blocking_pop:
  assumes "iq_rep q ns"
  shows "case ns of
      n # ns' \<Rightarrow> \<exists>q'. out iq_pop q e = Returned (q', e) n \<and> iq_rep q' ns'
    | [] \<Rightarrow> \<exists>q' e'. out iq_pop q e = Blocked (q', e') \<and> iq_rep q' [] \<and> evc_sem e' = 0 \<and>
        evc_sem (notify e') = 1"
  using intrusive.out_Cons [of q _ _ e] intrusive.out_Nil [of q e] assms
  by (cases ns) (fastforce simp: notify_def)+

theorem out_blocking_pop_witness:
  "\<exists>q'. out iq_pop (iq_push iq_init (Node 3)) evc_new = Returned (q', evc_new) (Node 3) \<and> iq_rep q' []"
proof -
  have "iq_rep (iq_push iq_init (Node 3)) [Node 3]"
    using intrusive.rep_push [OF intrusive.rep_init, of "Node 3"] by (simp add: iq_fresh_def)
  from out_blocking_pop [OF this, of evc_new] show ?thesis by simp
qed

end
