(* ===== verification/SignaledQueue.thy ===== *)
theory SignaledQueue
  imports AsyncQueue
begin

text \<open>
  \<open>msgqueue/signal/signaler.hpp\<close> and \<open>signaled_queue.hpp\<close>: a message queue whose sends add
  to a non-blocking \<open>eventfd\<close> counter. \<open>receive\<close> reads the counter and takes that many
  messages, spinning while the queue hands none out. As in \<open>AsyncQueue\<close>, \<open>send\<close> is modelled with the \<open>RESULT\<close> parameter of
  \<open>Command\<close> that it leaves out, and \<open>request\<close> takes the same steps.
\<close>

section \<open>The eventfd counter\<close>

text \<open>\<open>eventfd(0, 0)\<close>, set to be non-blocking; both ends are this descriptor.\<close>

definition signaler_new :: u64 where "signaler_new = 0"

text \<open>\<open>write\<close> adds one, and fails where the counter would reach its maximum.\<close>

definition signaler_send :: "u64 \<Rightarrow> u64 \<times> int" where
  "signaler_send cnt = (if cnt = 0xFFFFFFFFFFFFFFFE then (cnt, -1) else (cnt + 1, 8))"

text \<open>
  \<open>read\<close> returns the counter and resets it; at zero it fails, and the \<open>assert\<close> on its size
  does. The result goes through the \<open>int\<close> that \<open>recv\<close> returns.
\<close>

definition signaler_recv :: "u64 \<Rightarrow> (u64 \<times> int) result" where
  "signaler_recv cnt =
     (let (cnt', ret, sz) = (if cnt = 0 then (cnt, 0, -1) else (0, cnt, 8 :: int))
      in rbind (rassert (sz = 8)) (\<lambda>_. Inr (cnt', sint (ucast ret :: u32))))"

section \<open>The queue\<close>

record 'c sq =
  sq_count :: u64
  sq_msgs :: "'c msgs"
  sq_ran :: "'c list"

definition sq_new :: "'c sq" where
  "sq_new = \<lparr>sq_count = signaler_new, sq_msgs = msg_init, sq_ran = []\<rparr>"

definition sq_send :: "'c sq \<Rightarrow> 'c \<Rightarrow> 'c sq" where
  "sq_send s c =
     (let (m, n) = msg_new (sq_msgs s) (Some c);
          s = s\<lparr>sq_msgs := msg_push m n\<rparr>
      in s\<lparr>sq_count := fst (signaler_send (sq_count s))\<rparr>)"

definition sq_nullmsg :: "'c sq \<Rightarrow> 'c sq" where
  "sq_nullmsg s =
     (let (m, n) = msg_new (sq_msgs s) None in s\<lparr>sq_msgs := msg_push m n\<rparr>)"

text \<open>The inner \<open>for (;;)\<close>: an empty \<open>pop\<close> is tried again, for ever if nothing arrives.\<close>

partial_function (option) sq_take :: "'c sq \<Rightarrow> 'c sq option" where
  "sq_take s =
     (let (m, r) = msg_next (sq_msgs s); s = s\<lparr>sq_msgs := m\<rparr> in
      case r of
        None \<Rightarrow> sq_take s
      | Some (Some c) \<Rightarrow> Some (s\<lparr>sq_ran := sq_ran s @ [c]\<rparr>)
      | Some None \<Rightarrow> Some s)"

fun sq_loop :: "nat \<Rightarrow> 'c sq \<Rightarrow> 'c sq option" where
  "sq_loop 0 s = Some s"
| "sq_loop (Suc k) s = (case sq_take s of None \<Rightarrow> None | Some s \<Rightarrow> sq_loop k s)"

text \<open>\<open>receive\<close>: a fault, or the state and \<open>times\<close>, or \<open>None\<close> where it never returns.\<close>

definition sq_receive :: "'c sq \<Rightarrow> ('c sq \<times> int) option result" where
  "sq_receive s =
     rbind (signaler_recv (sq_count s)) (\<lambda>(cnt, times).
       let s = s\<lparr>sq_count := cnt\<rparr> in
       Inr (map_option (\<lambda>s. (s, times)) (sq_loop (nat times) s)))"

section \<open>What a receive takes\<close>

fun sq_post :: "'c sq \<Rightarrow> 'c option \<Rightarrow> 'c sq" where
  "sq_post s (Some c) = sq_send s c"
| "sq_post s None = sq_nullmsg s"

fun sq_posts :: "'c sq \<Rightarrow> 'c option list \<Rightarrow> 'c sq" where
  "sq_posts s [] = s"
| "sq_posts s (x # xs) = sq_posts (sq_post s x) xs"

lemma sq_take_simp:
  "msg_rep (sq_msgs s) (x # xs) \<Longrightarrow>
   \<exists>s'. sq_take s = Some s' \<and> msg_rep (sq_msgs s') xs \<and> sq_ran s' = sq_ran s @ commands [x] \<and>
     sq_count s' = sq_count s"
  using messages.rep_pop_Cons [of "sq_msgs s" x xs]
  by (subst sq_take.simps) (cases x, auto simp: case_prod_beta Let_def)

lemma sq_loop_takes:
  "msg_rep (sq_msgs s) xs \<Longrightarrow> k \<le> length xs \<Longrightarrow>
   \<exists>s'. sq_loop k s = Some s' \<and> msg_rep (sq_msgs s') (drop k xs) \<and>
     sq_ran s' = sq_ran s @ commands (take k xs) \<and> sq_count s' = sq_count s"
proof (induction k arbitrary: s xs)
  case (Suc k)
  then obtain x ys where xs: "xs = x # ys" by (cases xs) auto
  obtain s1 where s1: "sq_take s = Some s1" "msg_rep (sq_msgs s1) ys"
    "sq_ran s1 = sq_ran s @ commands [x]" "sq_count s1 = sq_count s"
    using sq_take_simp Suc.prems(1) xs by blast
  from Suc.IH [OF s1(2)] Suc.prems(2) xs s1 show ?case by (cases x) auto
qed simp

text \<open>The counter counts the commands sent: null messages do not signal.\<close>

definition sq_inv :: "'c sq \<Rightarrow> 'c option list \<Rightarrow> nat \<Rightarrow> bool" where
  "sq_inv s xs k \<longleftrightarrow> msg_rep (sq_msgs s) xs \<and> unat (sq_count s) = k"

lemma sq_inv_post:
  assumes "sq_inv s xs k" and "k < 2 ^ 31"
  shows "sq_inv (sq_post s x) (xs @ [x]) (k + length (commands [x])) \<and>
    sq_ran (sq_post s x) = sq_ran s"
proof (cases x)
  case None
  with assms messages.rep_push [of "sq_msgs s" xs x] show ?thesis
    by (auto simp: sq_inv_def sq_nullmsg_def msg_post_def case_prod_beta Let_def)
next
  case (Some c)
  have k: "unat (sq_count s) = k" using assms(1) by (simp add: sq_inv_def)
  have "sq_count s \<noteq> 0xFFFFFFFFFFFFFFFE"
  proof
    assume "sq_count s = 0xFFFFFFFFFFFFFFFE"
    with k assms(2) show False by simp
  qed
  moreover have "unat (sq_count s + 1) = Suc k"
    using k assms(2) by (simp add: unat_word_ariths)
  ultimately show ?thesis
    using assms(1) messages.rep_push [of "sq_msgs s" xs x] Some
    by (auto simp: sq_inv_def sq_send_def signaler_send_def msg_post_def case_prod_beta Let_def)
qed

lemma sq_inv_posts:
  "sq_inv s xs k \<Longrightarrow> k + length (commands ys) \<le> 2 ^ 31 \<Longrightarrow>
   sq_inv (sq_posts s ys) (xs @ ys) (k + length (commands ys)) \<and> sq_ran (sq_posts s ys) = sq_ran s"
proof (induction ys arbitrary: s xs k)
  case (Cons y ys)
  show ?case
  proof (cases y)
    case None
    then show ?thesis
      using Cons.prems Cons.IH [of "sq_post s y" "xs @ [y]" k] messages.rep_push [of "sq_msgs s" xs None]
      by (auto simp: sq_inv_def sq_nullmsg_def msg_post_def case_prod_beta Let_def)
  next
    case (Some c)
    then show ?thesis
      using Cons.prems Cons.IH [of "sq_post s y" "xs @ [y]" "Suc k"] sq_inv_post [of s xs k y] by auto
  qed
qed simp

lemma sq_inv_new: "sq_inv sq_new [] 0"
  by (simp add: sq_inv_def sq_new_def signaler_new_def messages.rep_init)

lemma small_int_of_nat: "k < 2 ^ 31 \<Longrightarrow> signed_take_bit 31 (int k) = int k"
  by (intro signed_take_bit_int_eq_self) simp_all

lemma signaler_recv_small:
  assumes "0 < unat cnt" and "unat cnt < 2 ^ 31"
  shows "signaler_recv cnt = Inr (0, int (unat cnt))"
proof -
  have "unat (ucast cnt :: u32) = unat cnt"
    using assms(2) by (simp add: unsigned_ucast_eq take_bit_nat_eq_self)
  then have "uint (ucast cnt :: u32) = int (unat cnt)"
    by (metis uint_nat)
  moreover have "signed_take_bit 31 (int (unat cnt)) = int (unat cnt)"
    by (rule small_int_of_nat) (rule assms(2))
  ultimately have "sint (ucast cnt :: u32) = int (unat cnt)"
    by (simp add: sint_uint)
  moreover have "cnt \<noteq> 0" using assms(1) by auto
  ultimately show ?thesis by (simp add: signaler_recv_def)
qed

section \<open>Properties\<close>

text \<open>C31. After any mix of sends and null messages with at least one and fewer than \<open>2 ^ 31\<close>
  sends, \<open>receive\<close> returns, reports the number of sends, and has taken exactly that many of
  the oldest messages, running the commands among them in order. Each null message posted
  before keeps one later message waiting, since it is taken without having been signalled.\<close>

theorem signaled_receive:
  assumes "0 < length (commands xs)" and "length (commands xs) < 2 ^ 31"
  shows "\<exists>s. sq_receive (sq_posts sq_new xs) = Inr (Some (s, int (length (commands xs)))) \<and>
    sq_ran s = commands (take (length (commands xs)) xs) \<and>
    msg_rep (sq_msgs s) (drop (length (commands xs)) xs) \<and> sq_count s = 0"
proof -
  let ?k = "length (commands xs)" and ?s = "sq_posts sq_new xs"
  have s: "msg_rep (sq_msgs ?s) xs" "unat (sq_count ?s) = ?k" "sq_ran ?s = []"
    using sq_inv_posts [OF sq_inv_new, of xs] assms(2) by (auto simp: sq_inv_def sq_new_def signaler_new_def)
  have "signaler_recv (sq_count ?s) = Inr (0, int ?k)"
    using signaler_recv_small [of "sq_count ?s"] s(2) assms by simp
  moreover have "msg_rep (sq_msgs (?s\<lparr>sq_count := 0\<rparr>)) xs" using s(1) by simp
  from sq_loop_takes [OF this, of ?k] length_commands [of xs] s(3) obtain s' where
    "sq_loop ?k (?s\<lparr>sq_count := 0\<rparr>) = Some s'" "msg_rep (sq_msgs s') (drop ?k xs)"
    "sq_ran s' = commands (take ?k xs)" "sq_count s' = 0" by auto
  ultimately show ?thesis by (simp add: sq_receive_def)
qed

theorem signaled_receive_witness:
  "\<exists>s. sq_receive (sq_posts sq_new [Some 1, None, Some (2 :: nat)]) = Inr (Some (s, 2)) \<and>
    sq_ran s = [1] \<and> msg_rep (sq_msgs s) [Some 2] \<and> sq_count s = 0"
  using signaled_receive [of "[Some 1, None, Some (2 :: nat)]"] by simp

text \<open>\<open>receive\<close> without a signal aborts: the counter of a new queue, or of one that holds
  nothing but null messages, is zero, and the \<open>assert\<close> in \<open>Signaler::recv\<close> fails.\<close>

theorem signaled_receive_unsignalled:
  "sq_receive (sq_posts sq_new (replicate n (None :: 'c option))) = Inl AssertFailed"
proof -
  have "unat (sq_count (sq_posts sq_new (replicate n (None :: 'c option)))) = 0"
    using sq_inv_posts [OF sq_inv_new, of "replicate n (None :: 'c option)"] by (simp add: sq_inv_def)
  then show ?thesis by (simp add: sq_receive_def signaler_recv_def unsigned_eq_0_iff)
qed

end
