(* ===== verification/MpscQueue.thy ===== *)
theory MpscQueue
  imports MessageQueue
begin

text \<open>
  \<open>msgqueue/queue/mpsc_queue.hpp\<close>: the queue that allocates its own nodes. The heap maps
  the address of every allocated node to its fields; an access to any other address is a
  fault, so that a queue that works is also one that touches no freed node. The receiving
  half of \<open>mpsc_pipe.hpp\<close> is \<open>out\<close> over \<open>pop\<close>; its \<open>send\<close> applies \<open>->\<close> to an object and
  cannot be instantiated.
\<close>

section \<open>Memory and operations\<close>

record 'd qnode =
  qn_next :: "nat option"
  qn_data :: 'd

record 'd mpscq =
  q_heap :: "nat \<rightharpoonup> 'd qnode"
  q_fresh :: nat
  q_head :: nat
  q_tail :: nat

text \<open>\<open>new Node()\<close> clears both fields; \<open>zero\<close> is the data's zero value.\<close>

definition q_new :: "'d \<Rightarrow> 'd mpscq" where
  "q_new zero =
     \<lparr>q_heap = [0 \<mapsto> \<lparr>qn_next = None, qn_data = zero\<rparr>], q_fresh = 1, q_head = 0, q_tail = 0\<rparr>"

definition q_get :: "'d mpscq \<Rightarrow> nat \<Rightarrow> 'd qnode result" where
  "q_get q p = (case q_heap q p of None \<Rightarrow> Inl UseAfterFree | Some n \<Rightarrow> Inr n)"

definition q_set :: "'d mpscq \<Rightarrow> nat \<Rightarrow> 'd qnode \<Rightarrow> 'd mpscq result" where
  "q_set q p n =
     (case q_heap q p of None \<Rightarrow> Inl UseAfterFree
      | Some _ \<Rightarrow> Inr (q\<lparr>q_heap := (q_heap q)(p \<mapsto> n)\<rparr>))"

definition q_delete :: "'d mpscq \<Rightarrow> nat \<Rightarrow> 'd mpscq result" where
  "q_delete q p =
     (case q_heap q p of None \<Rightarrow> Inl UseAfterFree
      | Some _ \<Rightarrow> Inr (q\<lparr>q_heap := (q_heap q)(p := None)\<rparr>))"

definition q_push :: "'d mpscq \<Rightarrow> 'd \<Rightarrow> 'd mpscq result" where
  "q_push q data =
     (let next = q_fresh q;
          q = q\<lparr>q_fresh := Suc next, q_heap := (q_heap q)(next \<mapsto> \<lparr>qn_next = None, qn_data = data\<rparr>)\<rparr>;
          prev = q_tail q;
          q = q\<lparr>q_tail := next\<rparr>
      in rbind (q_get q prev) (\<lambda>n. q_set q prev (n\<lparr>qn_next := Some next\<rparr>)))"

text \<open>\<open>pop\<close> returns the data it stores through its argument, or none where it returns false.\<close>

definition q_pop :: "'d mpscq \<Rightarrow> ('d mpscq \<times> 'd option) result" where
  "q_pop q =
     (let h = q_head q in
      rbind (q_get q h) (\<lambda>hn.
        case qn_next hn of
          Some next \<Rightarrow>
            let q = q\<lparr>q_head := next\<rparr> in
            rbind (q_get q next) (\<lambda>n.
            rbind (q_delete q h) (\<lambda>q. Inr (q, Some (qn_data n))))
        | None \<Rightarrow> Inr (q, None)))"

text \<open>
  The destructor: the dummy node first, then every other node with its data (\<open>clearData\<close>,
  whose arguments are collected). The walk follows the nodes as far as they go.
\<close>

partial_function (option) q_destroy_from ::
  "'d mpscq \<Rightarrow> nat option \<Rightarrow> 'd list \<Rightarrow> ('d mpscq \<times> 'd list) result option" where
  "q_destroy_from q node cleared =
     (case node of
        None \<Rightarrow> Some (Inr (q, cleared))
      | Some p \<Rightarrow>
          (case q_get q p of
             Inl e \<Rightarrow> Some (Inl e)
           | Inr n \<Rightarrow>
               (case q_delete q p of
                  Inl e \<Rightarrow> Some (Inl e)
                | Inr q \<Rightarrow> q_destroy_from q (qn_next n) (cleared @ [qn_data n]))))"

definition q_destroy :: "'d mpscq \<Rightarrow> ('d mpscq \<times> 'd list) result option" where
  "q_destroy q =
     (case rbind (q_get q (q_head q)) (\<lambda>n. rbind (q_delete q (q_head q)) (\<lambda>q. Inr (q, qn_next n))) of
        Inl e \<Rightarrow> Some (Inl e)
      | Inr (q, next) \<Rightarrow> q_destroy_from q next [])"

section \<open>The list a queue holds\<close>

text \<open>
  \<open>q_path h ps p xs\<close>: from the node \<open>p\<close> the \<open>next\<close> fields lead through \<open>ps\<close>, whose data
  are \<open>xs\<close>, and end there.
\<close>

fun q_path :: "(nat \<rightharpoonup> 'd qnode) \<Rightarrow> nat \<Rightarrow> nat list \<Rightarrow> 'd list \<Rightarrow> bool" where
  "q_path h p [] xs = (xs = [] \<and> (\<exists>d. h p = Some \<lparr>qn_next = None, qn_data = d\<rparr>))"
| "q_path h p (p' # ps) xs =
     (\<exists>d x xs'. xs = x # xs' \<and> h p = Some \<lparr>qn_next = Some p', qn_data = d\<rparr> \<and>
       (\<exists>n. h p' = Some n \<and> qn_data n = x) \<and> q_path h p' ps xs')"

definition q_inv :: "'d mpscq \<Rightarrow> nat list \<Rightarrow> 'd list \<Rightarrow> bool" where
  "q_inv q ps xs \<longleftrightarrow> q_path (q_heap q) (q_head q) ps xs \<and> distinct (q_head q # ps) \<and>
     q_tail q = last (q_head q # ps) \<and> dom (q_heap q) = insert (q_head q) (set ps) \<and>
     (\<forall>p\<in>insert (q_head q) (set ps). p < q_fresh q)"

lemma q_path_alloc: "q_path h p ps xs \<Longrightarrow> p' \<in> insert p (set ps) \<Longrightarrow> h p' \<noteq> None"
  by (induction h p ps xs rule: q_path.induct) auto

lemma q_path_cong:
  "q_path h p ps xs \<Longrightarrow> (\<And>p'. p' \<in> insert p (set ps) \<Longrightarrow> h' p' = h p') \<Longrightarrow> q_path h' p ps xs"
  by (induction h p ps xs rule: q_path.induct) auto

lemma q_path_snoc:
  assumes "q_path h p ps xs" "distinct (p # ps)" "n \<notin> insert p (set ps)"
    "h (last (p # ps)) = Some l"
  shows "q_path (h(n \<mapsto> \<lparr>qn_next = None, qn_data = x\<rparr>, last (p # ps) \<mapsto> l\<lparr>qn_next := Some n\<rparr>))
    p (ps @ [n]) (xs @ [x])"
  using assms
proof (induction h p ps xs rule: q_path.induct)
  case (2 h p p' ps xs)
  have "last (p' # ps) \<in> set (p' # ps)" by (rule last_in_set) simp
  with 2 show ?case by (auto split: if_splits)
qed auto

lemma q_path_last: "q_path h p ps xs \<Longrightarrow> \<exists>l. h (last (p # ps)) = Some l"
  using q_path_alloc [of h p ps xs "last (p # ps)"] last_in_set [of "p # ps"] by auto

lemma last_Cons_snoc: "last (a # xs @ [b]) = b"
  by simp

lemma q_inv_new: "q_inv (q_new zero) [] []"
  by (simp add: q_inv_def q_new_def)

lemma q_inv_push:
  assumes "q_inv q ps xs"
  shows "\<exists>q'. q_push q x = Inr q' \<and> q_inv q' (ps @ [q_fresh q]) (xs @ [x])"
proof -
  let ?n = "q_fresh q" and ?t = "last (q_head q # ps)"
  have path: "q_path (q_heap q) (q_head q) ps xs" and d: "distinct (q_head q # ps)"
    and t: "q_tail q = ?t" and dom: "dom (q_heap q) = insert (q_head q) (set ps)"
    and fr: "\<forall>p\<in>insert (q_head q) (set ps). p < ?n"
    using assms by (simp_all add: q_inv_def)
  have n: "?n \<notin> insert (q_head q) (set ps)" using fr by blast
  obtain l where l: "q_heap q ?t = Some l" using q_path_last [OF path] by blast
  have "?t \<in> insert (q_head q) (set ps)" using last_in_set [of "q_head q # ps"] by simp
  then have tn: "?t \<noteq> ?n" using n by (metis (no_types))
  let ?q = "q\<lparr>q_fresh := Suc ?n, q_tail := ?n,
     q_heap := (q_heap q)(?n \<mapsto> \<lparr>qn_next = None, qn_data = x\<rparr>, ?t \<mapsto> l\<lparr>qn_next := Some ?n\<rparr>)\<rparr>"
  have "q_push q x = Inr ?q"
    using t l tn by (simp add: q_push_def q_get_def q_set_def Let_def del: last.simps)
  moreover have "q_path (q_heap ?q) (q_head ?q) (ps @ [?n]) (xs @ [x])"
    using q_path_snoc [OF path d n l] by simp
  then have "q_inv ?q (ps @ [?n]) (xs @ [x])"
    using d n dom fr l \<open>?t \<in> insert (q_head q) (set ps)\<close>
    by (auto simp: q_inv_def last_Cons_snoc simp del: last.simps)
  ultimately show ?thesis by blast
qed

lemma q_inv_pop_Nil: "q_inv q [] xs \<Longrightarrow> xs = [] \<and> q_pop q = Inr (q, None)"
  by (auto simp: q_inv_def q_pop_def q_get_def)

lemma q_inv_pop_Cons:
  assumes "q_inv q (p # ps) xs"
  shows "\<exists>x xs' q'. xs = x # xs' \<and> q_pop q = Inr (q', Some x) \<and> q_inv q' ps xs'"
proof -
  obtain d x xs' n where h: "xs = x # xs'" "q_heap q (q_head q) = Some \<lparr>qn_next = Some p, qn_data = d\<rparr>"
    "q_heap q p = Some n" "qn_data n = x" "q_path (q_heap q) p ps xs'"
    using assms by (auto simp: q_inv_def)
  let ?q = "q\<lparr>q_head := p, q_heap := (q_heap q)(q_head q := None)\<rparr>"
  have "q_pop q = Inr (?q, Some x)"
    using h by (simp add: q_pop_def q_get_def q_delete_def)
  moreover have "q_path (q_heap ?q) p ps xs'"
    by (rule q_path_cong [OF h(5)]) (use assms in \<open>auto simp: q_inv_def\<close>)
  then have "q_inv ?q ps xs'" using assms by (auto simp: q_inv_def)
  ultimately show ?thesis using h(1) by blast
qed

section \<open>The contract\<close>

text \<open>Operations that may fault, as operations on a queue that has not faulted so far.\<close>

definition q_rep :: "'d mpscq result \<Rightarrow> 'd list \<Rightarrow> bool" where
  "q_rep r xs \<longleftrightarrow> (\<exists>q ps. r = Inr q \<and> q_inv q ps xs)"

definition q_push_r :: "'d mpscq result \<Rightarrow> 'd \<Rightarrow> 'd mpscq result" where
  "q_push_r r x = rbind r (\<lambda>q. q_push q x)"

definition q_pop_r :: "'d mpscq result \<Rightarrow> 'd mpscq result \<times> 'd option" where
  "q_pop_r r =
     (case rbind r q_pop of Inl e \<Rightarrow> (Inl e, None) | Inr (q, x) \<Rightarrow> (Inr q, x))"

lemma q_rep_new: "q_rep (Inr (q_new zero)) []"
  unfolding q_rep_def using q_inv_new [of zero] by blast

lemma q_rep_push: "q_rep r xs \<Longrightarrow> q_rep (q_push_r r x) (xs @ [x])"
  using q_inv_push by (fastforce simp: q_rep_def q_push_r_def)

lemma q_inv_Nil: "q_inv q ps [] \<Longrightarrow> ps = []"
  by (cases ps) (auto simp: q_inv_def)

lemma q_rep_pop_Nil: "q_rep r [] \<Longrightarrow> snd (q_pop_r r) = None \<and> q_rep (fst (q_pop_r r)) []"
  using q_inv_pop_Nil q_inv_Nil by (fastforce simp: q_rep_def q_pop_r_def)

lemma q_rep_pop_Cons:
  assumes "q_rep r (x # xs)"
  shows "snd (q_pop_r r) = Some x \<and> q_rep (fst (q_pop_r r)) xs"
proof -
  obtain q ps where q: "r = Inr q" "q_inv q ps (x # xs)" using assms by (auto simp: q_rep_def)
  then obtain p ps' where "ps = p # ps'" by (cases ps) (auto simp: q_inv_def)
  with q_inv_pop_Cons [of q p ps'] q show ?thesis by (fastforce simp: q_rep_def q_pop_r_def)
qed

interpretation mpscq: fifo q_rep "Inr (q_new zero)" q_push_r q_pop_r "\<lambda>_ _. True"
  by unfold_locales (simp_all add: q_rep_new q_rep_push q_rep_pop_Nil q_rep_pop_Cons)

section \<open>Destruction\<close>

lemma q_destroy_path:
  assumes "q_path (q_heap q) p ps xs" "distinct (p # ps)" "dom (q_heap q) = insert p (set ps)"
    "q_heap q p = Some n"
  shows "\<exists>q'. q_destroy_from q (Some p) cleared = Some (Inr (q', cleared @ qn_data n # xs)) \<and>
    q_heap q' = Map.empty"
  using assms
proof (induction ps arbitrary: q p xs n cleared)
  case Nil
  then have "(q_heap q)(p := None) = Map.empty" by (auto simp: fun_eq_iff dom_def)
  with Nil show ?case
    by (subst q_destroy_from.simps, subst q_destroy_from.simps)
      (auto simp: q_get_def q_delete_def)
next
  case (Cons p' ps)
  then obtain x xs' n' d where h: "xs = x # xs'" "n = \<lparr>qn_next = Some p', qn_data = d\<rparr>"
    "q_heap q p' = Some n'" "qn_data n' = x" "q_path (q_heap q) p' ps xs'" by auto
  let ?q = "q\<lparr>q_heap := (q_heap q)(p := None)\<rparr>"
  have "q_path (q_heap ?q) p' ps xs'"
    by (rule q_path_cong [OF h(5)]) (use Cons.prems(2) in auto)
  moreover have "distinct (p' # ps)" "dom (q_heap ?q) = insert p' (set ps)" "q_heap ?q p' = Some n'"
    using Cons.prems h(3) by auto
  ultimately have "\<exists>q'. q_destroy_from ?q (Some p') (cleared @ [d])
      = Some (Inr (q', (cleared @ [d]) @ qn_data n' # xs')) \<and> q_heap q' = Map.empty"
    by (rule Cons.IH)
  then show ?case
    using Cons.prems(4) h by (subst q_destroy_from.simps) (simp add: q_get_def q_delete_def)
qed

lemma q_destroy_inv:
  assumes "q_inv q ps xs"
  shows "\<exists>q'. q_destroy q = Some (Inr (q', xs)) \<and> q_heap q' = Map.empty"
proof (cases ps)
  case Nil
  let ?q = "q\<lparr>q_heap := (q_heap q)(q_head q := None)\<rparr>"
  have "q_heap ?q = Map.empty" using assms Nil by (auto simp: q_inv_def fun_eq_iff dom_def)
  moreover have "q_destroy q = q_destroy_from ?q None []"
    using assms Nil by (auto simp: q_inv_def q_destroy_def q_get_def q_delete_def)
  ultimately show ?thesis
    using assms Nil by (auto simp: q_inv_def q_destroy_from.simps)
next
  case (Cons p ps')
  then obtain d x xs' n where h: "xs = x # xs'" "q_heap q (q_head q) = Some \<lparr>qn_next = Some p, qn_data = d\<rparr>"
    "q_heap q p = Some n" "qn_data n = x" "q_path (q_heap q) p ps' xs'"
    using assms by (auto simp: q_inv_def)
  let ?q = "q\<lparr>q_heap := (q_heap q)(q_head q := None)\<rparr>"
  have "q_path (q_heap ?q) p ps' xs'"
    by (rule q_path_cong [OF h(5)]) (use assms Cons in \<open>auto simp: q_inv_def\<close>)
  moreover have "distinct (p # ps')" "dom (q_heap ?q) = insert p (set ps')" "q_heap ?q p = Some n"
    using assms Cons h(3) by (auto simp: q_inv_def)
  ultimately have "\<exists>q'. q_destroy_from ?q (Some p) [] = Some (Inr (q', [] @ qn_data n # xs')) \<and>
      q_heap q' = Map.empty"
    by (rule q_destroy_path)
  then show ?thesis
    using h(1,2,4) by (simp add: q_destroy_def q_get_def q_delete_def)
qed

section \<open>Properties\<close>

text \<open>\<open>MpscQueue\<close> is first-in first-out and safe with its memory: pushing \<open>xs\<close> into a new
  queue and popping any number of them returns them in order and touches no freed node, and
  the destructor then releases the data left, in order, and every node, each once.\<close>

theorem mpscq_lifecycle:
  assumes "n \<le> length xs"
  shows "\<exists>q q'. pop_n q_pop_r n (push_all q_push_r (Inr (q_new zero)) xs) = (Inr q, map Some (take n xs)) \<and>
    q_destroy q = Some (Inr (q', drop n xs)) \<and> q_heap q' = Map.empty"
proof -
  have "q_rep (push_all q_push_r (Inr (q_new zero)) xs) xs"
    using mpscq.rep_push_all [OF mpscq.rep_init, of xs] by simp
  then have p: "snd (pop_n q_pop_r n (push_all q_push_r (Inr (q_new zero)) xs)) = map Some (take n xs)"
    "q_rep (fst (pop_n q_pop_r n (push_all q_push_r (Inr (q_new zero)) xs))) (drop n xs)"
    using mpscq.rep_pop_n assms by blast+
  then obtain q ps where "fst (pop_n q_pop_r n (push_all q_push_r (Inr (q_new zero)) xs)) = Inr q"
    "q_inv q ps (drop n xs)" by (auto simp: q_rep_def)
  with p(1) q_destroy_inv show ?thesis by (metis prod.collapse)
qed

theorem mpscq_lifecycle_witness:
  "\<exists>q q'. pop_n q_pop_r 1 (push_all q_push_r (Inr (q_new 0)) [5, 7 :: nat]) = (Inr q, [Some 5]) \<and>
    q_destroy q = Some (Inr (q', [7])) \<and> q_heap q' = Map.empty"
  using mpscq_lifecycle [of 1 "[5, 7 :: nat]" 0] by simp

end
