(* ===== verification/CircularBuffer.thy ===== *)
theory CircularBuffer
  imports Prelude
begin

text \<open>
  \<open>base/circular_buffer.cpp\<close>: the ring buffer of the session code, in \<open>size_t\<close> arithmetic,
  and \<open>net/socket_buffer.cpp\<close> over it. Memory that \<open>malloc\<close> returns holds arbitrary bytes,
  which the constructor takes as an argument.
\<close>

section \<open>State and operations\<close>

record circ =
  cb_begin :: u64
  cb_end :: u64
  cb_size :: u64
  cb_capacity :: u64
  cb_buffer :: "byte list"

definition circ_new :: "byte list \<Rightarrow> circ" where
  "circ_new junk = \<lparr>cb_begin = 0, cb_end = 0, cb_size = 0,
     cb_capacity = of_nat (length junk), cb_buffer = junk\<rparr>"

definition distance :: "u64 \<Rightarrow> u64 \<Rightarrow> u64 \<Rightarrow> u64" where
  "distance from to sz = (if from < to then to - from else sz - (from + to))"

definition cont_distance :: "u64 \<Rightarrow> u64 \<Rightarrow> u64 \<Rightarrow> u64" where
  "cont_distance from to sz = (if from < to then to - from else sz - from)"

definition hasfilled :: "circ \<Rightarrow> u64" where
  "hasfilled c =
     (if cb_begin c \<noteq> cb_end c then distance (cb_begin c) (cb_end c) (cb_capacity c) else 0)"

definition hasfree :: "circ \<Rightarrow> u64" where
  "hasfree c =
     (if cb_begin c \<noteq> cb_end c then distance (cb_end c) (cb_begin c) (cb_capacity c)
      else cb_capacity c)"

text \<open>The results are \<open>int\<close>: the low half of the \<open>size_t\<close>, and back with its sign.\<close>

definition to_int :: "u64 \<Rightarrow> u32" where
  "to_int w = ucast w"

definition from_int :: "u32 \<Rightarrow> u64" where
  "from_int i = scast i"

text \<open>\<open>memcpy\<close> between a buffer and the caller's memory.\<close>

definition circ_add :: "circ \<Rightarrow> byte list \<Rightarrow> u64 \<Rightarrow> (circ \<times> u32) result" where
  "circ_add c data sz =
     (let free = hasfree c in
      if free = 0 then Inr (c, 0)
      else
        let sz = (if sz > free then free else sz);
            cont_len = cont_distance (cb_end c) (cb_begin c) (cb_capacity c);
            done = min cont_len sz in
        rbind (mem_read data 0 (unat done)) (\<lambda>bs.
        rbind (mem_write (cb_buffer c) (unat (cb_end c)) bs) (\<lambda>b.
        rbind (if done < sz then
                 let left = sz - done in
                 rbind (mem_read data (unat done) (unat left)) (\<lambda>bs.
                 rbind (mem_write b 0 bs) (\<lambda>b. Inr (b, done + left)))
               else Inr (b, done)) (\<lambda>(b, done).
        Inr (c\<lparr>cb_buffer := b, cb_end := (cb_end c + done) mod cb_capacity c,
               cb_size := cb_size c + done\<rparr>, to_int done)))))"

definition circ_pick :: "circ \<Rightarrow> u64 \<Rightarrow> (byte list \<times> u32) result" where
  "circ_pick c sz =
     (let filled = hasfilled c in
      if filled = 0 then Inr ([], 0)
      else
        let sz = (if sz > filled then filled else sz);
            cont_len = cont_distance (cb_begin c) (cb_end c) (cb_capacity c);
            done = min cont_len sz in
        rbind (mem_read (cb_buffer c) (unat (cb_begin c)) (unat done)) (\<lambda>bs.
        if done < sz then
          let left = sz - done in
          rbind (mem_read (cb_buffer c) 0 (unat left)) (\<lambda>bs'. Inr (bs @ bs', to_int (done + left)))
        else Inr (bs, to_int done)))"

definition circ_get :: "circ \<Rightarrow> u64 \<Rightarrow> (circ \<times> byte list \<times> u32) result" where
  "circ_get c sz =
     rbind (circ_pick c sz) (\<lambda>(bs, ret).
       let done = from_int ret in
       if done \<noteq> 0 then
         Inr (c\<lparr>cb_begin := (cb_begin c + done) mod cb_capacity c,
                cb_size := cb_size c - done\<rparr>, bs, to_int done)
       else Inr (c, bs, to_int done))"

text \<open>\<open>watch_in\<close> and \<open>watch_out\<close>: a length and, unless it is zero, an offset in the buffer.\<close>

definition watch_in :: "circ \<Rightarrow> u64 \<times> u64 option" where
  "watch_in c =
     (let d = cont_distance (cb_begin c) (cb_end c) (cb_capacity c)
      in (d, if d \<noteq> 0 then Some (cb_begin c) else None))"

definition watch_out :: "circ \<Rightarrow> u64 \<times> u64 option" where
  "watch_out c =
     (let d = cont_distance (cb_end c) (cb_begin c) (cb_capacity c)
      in (d, if d \<noteq> 0 then Some (cb_end c) else None))"

definition flush_in :: "circ \<Rightarrow> u64 \<Rightarrow> circ" where
  "flush_in c sz =
     (if sz = 0 \<or> sz \<ge> cb_size c then c\<lparr>cb_begin := cb_end c\<rparr>
      else
        let cont = cont_distance (cb_begin c) (cb_end c) (cb_capacity c) in
        if sz > cont then c\<lparr>cb_begin := sz - cont\<rparr>
        else c\<lparr>cb_begin := cb_begin c + sz\<rparr>)"

definition flush_out :: "circ \<Rightarrow> u64 \<Rightarrow> circ" where
  "flush_out c sz =
     (if sz = 0 \<or> sz \<ge> cb_size c then c\<lparr>cb_begin := cb_end c\<rparr>
      else
        let cont = cont_distance (cb_begin c) (cb_end c) (cb_capacity c) in
        if sz > cont then c\<lparr>cb_begin := sz - cont\<rparr>
        else c\<lparr>cb_begin := cb_begin c + sz\<rparr>)"

section \<open>SocketBuffer\<close>

text \<open>What \<open>send(2)\<close> and \<open>recv(2)\<close> do: a byte count or an error number.\<close>

datatype os_result = Bytes u64 | Errno nat

definition try_again :: "nat \<Rightarrow> bool" where
  "try_again err \<longleftrightarrow> err = 11 \<or> err = 4"

definition sb_send :: "(byte list \<Rightarrow> os_result) \<Rightarrow> circ \<Rightarrow> u32 result" where
  "sb_send os c =
     (case watch_in c of
        (sz, None) \<Rightarrow> Inr (- 1)
      | (sz, Some off) \<Rightarrow>
          rbind (mem_read (cb_buffer c) (unat off) (unat sz)) (\<lambda>bs.
            case os bs of
              Errno e \<Rightarrow> Inr (if try_again e then 0 else - 1)
            | Bytes n \<Rightarrow> Inr (to_int n)))"

text \<open>\<open>recv(2)\<close> is asked for at most \<open>sz\<close> bytes and stores what it got in the buffer.\<close>

definition sb_recv :: "(nat \<Rightarrow> byte list + nat) \<Rightarrow> circ \<Rightarrow> (circ \<times> u32) result" where
  "sb_recv os c =
     (case watch_out c of
        (sz, None) \<Rightarrow> Inr (c, - 1)
      | (sz, Some off) \<Rightarrow>
          (case os (unat sz) of
             Inr e \<Rightarrow> Inr (c, if try_again e then 0 else - 1)
           | Inl bs \<Rightarrow>
               rbind (mem_write (cb_buffer c) (unat off) (take (unat sz) bs)) (\<lambda>b.
                 Inr (c\<lparr>cb_buffer := b\<rparr>, if bs = [] then - 1 else to_int (of_nat (length bs))))))"

section \<open>The linear region\<close>

text \<open>
  While the content has not wrapped, it lies between \<open>begin\<close> and \<open>end\<close>. Capacities stay
  below \<open>2 ^ 31\<close>, so that counts survive the \<open>int\<close> results.
\<close>

definition circ_lin :: "circ \<Rightarrow> byte list \<Rightarrow> bool" where
  "circ_lin c xs \<longleftrightarrow>
     length (cb_buffer c) = unat (cb_capacity c) \<and> unat (cb_capacity c) < 2 ^ 31 \<and>
     unat (cb_begin c) \<le> unat (cb_end c) \<and> unat (cb_end c) < unat (cb_capacity c) \<and>
     xs = take (unat (cb_end c) - unat (cb_begin c)) (drop (unat (cb_begin c)) (cb_buffer c)) \<and>
     unat (cb_size c) = length xs"

lemmas unat_iff = word_less_nat_alt word_le_nat_alt word_unat_eq_iff

lemma unat_plus: "unat a + unat b < 2 ^ 64 \<Longrightarrow> unat (a + b :: u64) = unat a + unat b"
  by (simp add: unat_word_ariths)

lemma unat_minus: "unat b \<le> unat a \<Longrightarrow> unat (a - b :: u64) = unat a - unat b"
  by (simp add: unat_sub word_le_nat_alt)

lemma to_int_small: "unat w < 2 ^ 31 \<Longrightarrow> unat (to_int w) = unat w"
  by (simp add: to_int_def unsigned_ucast_eq take_bit_nat_eq_self)

lemma from_to_int:
  assumes "unat w < 2 ^ 31"
  shows "from_int (to_int w) = w"
proof (rule bit_word_eqI)
  fix i assume i: "i < LENGTH(64)"
  have hi: "\<not> bit w k" if "31 \<le> k" for k
  proof -
    have "unat w < 2 ^ k" using assms that power_increasing [of 31 k "2::nat"] by linarith
    then have "\<not> bit (unat w) k" by (simp add: bit_iff_odd)
    then show ?thesis by (simp add: bit_unsigned_iff)
  qed
  show "bit (from_int (to_int w)) i = bit w i"
    using hi i by (cases "i < 31") (auto simp: from_int_def to_int_def bit_simps min_def)
qed

lemma circ_lin_length: "circ_lin c xs \<Longrightarrow> length xs = unat (cb_end c) - unat (cb_begin c)"
  by (auto simp: circ_lin_def)

lemma circ_add_lin:
  assumes c: "circ_lin c xs"
    and fit: "unat (cb_begin c) = unat (cb_end c) \<or>
      unat (cb_begin c) + unat (cb_end c) + length ys \<le> unat (cb_capacity c)"
    and fit': "unat (cb_end c) + length ys < unat (cb_capacity c)"
  shows "\<exists>c' r. circ_add c ys (of_nat (length ys)) = Inr (c', r) \<and> unat r = length ys \<and>
    circ_lin c' (xs @ ys) \<and> cb_begin c' = cb_begin c \<and>
    unat (cb_end c') = unat (cb_end c) + length ys \<and> cb_capacity c' = cb_capacity c"
proof -
  let ?b = "unat (cb_begin c)" and ?e = "unat (cb_end c)" and ?n = "unat (cb_capacity c)"
  have bn: "length (cb_buffer c) = ?n" "?n < 2 ^ 31" "?b \<le> ?e" "?e < ?n"
    "xs = take (?e - ?b) (drop ?b (cb_buffer c))" "unat (cb_size c) = length xs"
    using c by (auto simp: circ_lin_def)
  have sz: "unat (of_nat (length ys) :: u64) = length ys"
    using fit' bn(2) by (simp add: unat_of_nat take_bit_nat_eq_self)
  have sum: "unat (cb_end c + cb_begin c) = ?e + ?b"
    by (rule unat_plus) (use bn in simp)
  have free: "unat (hasfree c) = (if ?b = ?e then ?n else ?n - (?e + ?b))"
    using bn fit sum by (auto simp: hasfree_def distance_def unat_iff unat_minus)
  have cont: "unat (cont_distance (cb_end c) (cb_begin c) (cb_capacity c)) = ?n - ?e"
    using bn by (auto simp: cont_distance_def unat_iff unat_minus)
  have end': "unat ((cb_end c + of_nat (length ys)) mod cb_capacity c) = ?e + length ys"
    using fit' bn by (simp add: unat_mod unat_plus sz)
  have size': "unat (cb_size c + of_nat (length ys)) = length xs + length ys"
    using bn fit' by (simp add: unat_plus sz)
  let ?c = "c\<lparr>cb_buffer := splice (cb_buffer c) ?e ys,
     cb_end := (cb_end c + of_nat (length ys)) mod cb_capacity c,
     cb_size := cb_size c + of_nat (length ys)\<rparr>"
  have lin: "circ_lin ?c (xs @ ys)"
    using bn fit' by (simp add: circ_lin_def end' size' splice_def take_drop min_def)
  show ?thesis
  proof (cases "hasfree c = 0")
    case True
    then have "?n - (?e + ?b) = 0 \<or> ?n = 0" using free by (simp split: if_splits)
    then have "?b \<noteq> ?e" using True free bn(4) by auto
    then have "length ys = 0" using fit \<open>?n - (?e + ?b) = 0 \<or> ?n = 0\<close> bn(4) by linarith
    then have "ys = []" by simp
    with True c show ?thesis
      by (intro exI [of _ c] exI [of _ 0]) (simp add: circ_add_def)
  next
    case False
    have "\<not> hasfree c < of_nat (length ys)" using free fit fit' by (auto simp: unat_iff sz split: if_splits)
    moreover have "min (cont_distance (cb_end c) (cb_begin c) (cb_capacity c)) (of_nat (length ys))
        = of_nat (length ys)"
      using cont fit' by (auto simp: min_def unat_iff sz)
    ultimately have "circ_add c ys (of_nat (length ys)) = Inr (?c, to_int (of_nat (length ys)))"
      using False bn fit' by (simp add: circ_add_def Let_def sz mem_read_def mem_write_def)
    moreover have "unat (to_int (of_nat (length ys))) = length ys"
      using fit' bn(2) by (simp add: to_int_small sz)
    ultimately show ?thesis using lin end' by auto
  qed
qed

text \<open>What \<open>hasfree\<close> says of such a buffer; \<open>add\<close> looks at no more data than that.\<close>

definition lin_free :: "circ \<Rightarrow> nat" where
  "lin_free c = (if cb_begin c = cb_end c then unat (cb_capacity c)
     else unat (cb_capacity c) - (unat (cb_begin c) + unat (cb_end c)))"

lemma lin_free_ok:
  assumes "circ_lin c xs" "cb_begin c = cb_end c \<or> unat (cb_begin c) + unat (cb_end c) \<le> unat (cb_capacity c)"
  shows "unat (hasfree c) = lin_free c"
proof -
  have "unat (cb_end c + cb_begin c) = unat (cb_end c) + unat (cb_begin c)"
    by (rule unat_plus) (use assms(1) in \<open>simp add: circ_lin_def\<close>)
  then show ?thesis
    using assms by (auto simp: hasfree_def distance_def lin_free_def circ_lin_def unat_iff unat_minus)
qed

lemma circ_add_clips:
  assumes "unat (hasfree c) \<le> length ys" "length ys < 2 ^ 64"
  shows "circ_add c ys (of_nat (length ys)) = circ_add c (take (unat (hasfree c)) ys) (of_nat (unat (hasfree c)))"
proof -
  let ?f = "hasfree c" and ?y = "of_nat (length ys) :: u64"
  have y: "unat ?y = length ys" using assms(2) by (simp add: unat_of_nat take_bit_nat_eq_self)
  have sz: "(if ?f < ?y then ?f else ?y) = ?f" using assms(1) y by (auto simp: unat_iff)
  define d where "d = min (cont_distance (cb_end c) (cb_begin c) (cb_capacity c)) ?f"
  have d: "unat d \<le> unat ?f" by (simp add: d_def min_def unat_iff)
  have r: "mem_read ys 0 (unat d) = mem_read (take (unat ?f) ys) 0 (unat d)"
    using d assms(1) by (simp add: mem_read_def min_def)
  have "unat d + unat (?f - d) = unat ?f" using d by (simp add: unat_minus)
  then have r': "mem_read ys (unat d) (unat (?f - d)) = mem_read (take (unat ?f) ys) (unat d) (unat (?f - d))"
    using assms(1) by (simp add: mem_read_def take_drop)
  have f: "of_nat (unat ?f) = ?f" "(if ?f < ?f then ?f else ?f) = ?f" by simp_all
  show ?thesis unfolding circ_add_def Let_def f sz d_def [symmetric] r r' by (rule refl)
qed

lemma circ_get_lin:
  assumes c: "circ_lin c xs"
  shows "\<exists>c' r. circ_pick c k = Inr (take (unat k) xs, r) \<and> circ_get c k = Inr (c', take (unat k) xs, r) \<and>
    unat r = min (unat k) (length xs) \<and> circ_lin c' (drop (unat k) xs)"
proof -
  let ?b = "unat (cb_begin c)" and ?e = "unat (cb_end c)" and ?n = "unat (cb_capacity c)"
  have bn: "length (cb_buffer c) = ?n" "?n < 2 ^ 31" "?b \<le> ?e" "?e < ?n"
    "xs = take (?e - ?b) (drop ?b (cb_buffer c))" "unat (cb_size c) = length xs"
    using c by (auto simp: circ_lin_def)
  have filled: "unat (hasfilled c) = length xs"
    using bn by (auto simp: hasfilled_def distance_def unat_iff unat_minus)
  show ?thesis
  proof (cases "hasfilled c = 0")
    case True
    with filled have "xs = []" by simp
    with True c show ?thesis by (auto simp: circ_get_def circ_pick_def from_int_def to_int_def)
  next
    case False
    define d where "d = (if k > hasfilled c then hasfilled c else k)"
    have d: "unat d = min (unat k) (length xs)" using filled by (auto simp: d_def unat_iff)
    have cont: "cont_distance (cb_begin c) (cb_end c) (cb_capacity c) = hasfilled c"
      using False bn(3) by (auto simp: cont_distance_def hasfilled_def distance_def unat_iff split: if_splits)
    have mn: "min (hasfilled c) d = d" by (auto simp: d_def min_def)
    have len: "length xs = ?e - ?b" using bn by simp
    have small: "unat d < 2 ^ 31" using d len bn(2,4) by simp
    have pick: "circ_pick c k = Inr (take (unat k) xs, to_int d)"
      unfolding circ_pick_def Let_def cont d_def [symmetric] mn
      using False bn d len by (auto simp: mem_read_def min_def)
    have begin': "unat ((cb_begin c + d) mod cb_capacity c) = unat d + ?b"
      using bn d len by (simp add: unat_mod unat_plus)
    have size': "unat (cb_size c - d) = length xs - unat d"
      using bn d by (simp add: unat_minus)
    let ?c = "c\<lparr>cb_begin := (cb_begin c + d) mod cb_capacity c, cb_size := cb_size c - d\<rparr>"
    have "drop (unat k) xs = take (?e - (unat d + ?b)) (drop (unat d + ?b) (cb_buffer c))"
      using bn(3,5) d len by (cases "unat k \<le> ?e - ?b") (simp_all add: drop_take add.commute)
    then have "circ_lin ?c (drop (unat k) xs)"
      using bn(1-4,6) d len by (auto simp: circ_lin_def begin' size' min_def)
    moreover have "circ_get c k = Inr (if d \<noteq> 0 then ?c else c, take (unat k) xs, to_int d)"
      using small by (simp add: circ_get_def pick from_to_int Let_def)
    moreover have "cb_begin c mod cb_capacity c = cb_begin c"
      using bn(3,4) by (simp add: word_unat_eq_iff unat_mod)
    then have "d = 0 \<Longrightarrow> ?c = c" by simp
    ultimately show ?thesis using d small pick by (auto simp: to_int_small)
  qed
qed

section \<open>Properties\<close>

lemma circ_lin_new:
  "junk \<noteq> [] \<Longrightarrow> length junk < 2 ^ 31 \<Longrightarrow>
   circ_lin (circ_new junk) [] \<and> unat (cb_capacity (circ_new junk)) = length junk"
  by (simp add: circ_lin_def circ_new_def unat_of_nat take_bit_nat_eq_self)

text \<open>C36. As long as the content has not wrapped, and \<open>begin + end\<close> does not exceed the capacity unless the buffer is
  empty, the ring buffer is a byte queue with less room than it has. \<open>add\<close> appends the first of its data, as many as
  \<open>hasfree\<close> says (the capacity for an empty buffer, otherwise what \<open>begin + end\<close> leaves of it), reports their number and
  drops the rest, provided that they end before the last byte. After it \<open>pick\<close> shows, and \<open>get\<close> takes, what they
  ask for (or what there is) from the front, and \<open>get\<close> leaves the rest.\<close>

theorem circ_linear_fifo:
  assumes "circ_lin c xs"
    and "cb_begin c = cb_end c \<or> unat (cb_begin c) + unat (cb_end c) \<le> unat (cb_capacity c)"
    and "m = min (length ys) (lin_free c)" and "unat (cb_end c) + m < unat (cb_capacity c)" and "length ys < 2 ^ 64"
  shows "\<exists>c' r. circ_add c ys (of_nat (length ys)) = Inr (c', r) \<and> unat r = m \<and>
    circ_lin c' (xs @ take m ys) \<and>
    (\<forall>k. \<exists>c'' r'. circ_pick c' k = Inr (take (unat k) (xs @ take m ys), r') \<and>
       circ_get c' k = Inr (c'', take (unat k) (xs @ take m ys), r') \<and>
       unat r' = min (unat k) (length xs + m) \<and> circ_lin c'' (drop (unat k) (xs @ take m ys)))"
proof -
  have free: "unat (hasfree c) = lin_free c" by (rule lin_free_ok [OF assms(1,2)])
  have len: "length (take m ys) = m" using assms(3) by simp
  have "circ_add c ys (of_nat (length ys)) = circ_add c (take m ys) (of_nat (length (take m ys)))"
  proof (cases "length ys \<le> lin_free c")
    case False
    then show ?thesis using circ_add_clips [of c ys] assms(3,5) free len by simp
  qed (use assms(3) in simp)
  moreover have "unat (cb_begin c) = unat (cb_end c) \<or>
      unat (cb_begin c) + unat (cb_end c) + length (take m ys) \<le> unat (cb_capacity c)"
    using assms(2,3) len by (auto simp: lin_free_def)
  ultimately obtain c' r where "circ_add c ys (of_nat (length ys)) = Inr (c', r)" "unat r = m"
    "circ_lin c' (xs @ take m ys)"
    using circ_add_lin [OF assms(1), of "take m ys"] assms(4) len by auto
  then show ?thesis using circ_get_lin [of c' "xs @ take m ys"] len by (metis length_append)
qed

theorem circ_linear_fifo_witness:
  "\<exists>c' r. circ_add \<lparr>cb_begin = 3, cb_end = 4, cb_size = 1, cb_capacity = 8, cb_buffer = [0, 0, 0, 6, 0, 0, 0, 0]\<rparr> [7, 8, 9] 3
      = Inr (c', r) \<and> unat r = 1 \<and> circ_lin c' [6, 7] \<and>
    (\<forall>k. \<exists>c'' r'. circ_pick c' k = Inr (take (unat k) [6, 7], r') \<and> circ_get c' k = Inr (c'', take (unat k) [6, 7], r') \<and>
       unat r' = min (unat k) (Suc 1) \<and> circ_lin c'' (drop (unat k) [6, 7]))"
proof -
  let ?c = "\<lparr>cb_begin = 3, cb_end = 4, cb_size = 1, cb_capacity = 8, cb_buffer = [0, 0, 0, 6, 0, 0, 0, 0]\<rparr>"
  have l: "circ_lin ?c [6]" by (simp add: circ_lin_def)
  show ?thesis
    using circ_linear_fifo [OF l, of 1 "[7, 8, 9]"] by (simp add: lin_free_def)
qed

text \<open>A buffer filled to its capacity reads as empty: the \<open>add\<close> that fills a new buffer
  reports every byte stored, and after it \<open>begin = end\<close>, \<open>get\<close> returns nothing, and the
  whole capacity is offered as free again.\<close>

theorem circ_full_is_empty:
  assumes "length ys = length junk" and "junk \<noteq> []" and "length junk < 2 ^ 31"
  shows "\<exists>c r. circ_add (circ_new junk) ys (of_nat (length ys)) = Inr (c, r) \<and>
    unat r = length ys \<and> cb_buffer c = ys \<and>
    circ_get c k = Inr (c, [], 0) \<and> hasfree c = cb_capacity c"
proof -
  let ?c = "circ_new junk" and ?n = "of_nat (length ys) :: u64"
  have n: "unat ?n = length ys" using assms by (simp add: unat_of_nat take_bit_nat_eq_self)
  have pos: "?n \<noteq> 0" using assms n by (metis length_0_conv unat_0)
  have "circ_add ?c ys ?n = Inr (?c\<lparr>cb_buffer := ys, cb_end := ?n mod ?n, cb_size := ?n\<rparr>, to_int ?n)"
    using assms pos n
    by (simp add: circ_add_def circ_new_def hasfree_def cont_distance_def mem_read_def mem_write_def
        splice_def Let_def)
  moreover have "unat (to_int ?n) = length ys"
    using n assms by (simp add: to_int_small)
  ultimately show ?thesis
    using assms
    by (simp add: circ_new_def circ_get_def circ_pick_def hasfilled_def hasfree_def from_int_def
        to_int_def)
qed

theorem circ_full_is_empty_witness:
  "\<exists>c r. circ_add (circ_new [0, 0]) [1, 2] 2 = Inr (c, r) \<and> unat r = 2 \<and> cb_buffer c = [1, 2] \<and>
    circ_get c 2 = Inr (c, [], 0) \<and> hasfree c = cb_capacity c"
  using circ_full_is_empty [of "[1, 2]" "[0, 0]" 2] by (simp flip: numeral_2_eq_2)

text \<open>\<open>hasfree\<close> subtracts \<open>begin + end\<close> where it should subtract their difference. Once
  both have moved so far that the sum exceeds the capacity, it wraps around to a huge
  number, \<open>add\<close> no longer limits its data, and data longer than the buffer is written past
  the buffer's end.\<close>

theorem circ_add_overruns:
  assumes "cb_begin c < cb_end c" and "cb_end c < cb_capacity c" and "unat (cb_capacity c) < 2 ^ 31"
    and "length (cb_buffer c) = unat (cb_capacity c)"
    and "unat (cb_capacity c) < unat (cb_begin c) + unat (cb_end c)"
    and "2 * unat (cb_capacity c) - unat (cb_end c) < length ys" and "length ys < 2 ^ 32"
  shows "circ_add c ys (of_nat (length ys)) = Inl OutOfBounds"
proof -
  let ?b = "unat (cb_begin c)" and ?e = "unat (cb_end c)" and ?n = "unat (cb_capacity c)"
  let ?y = "of_nat (length ys) :: u64"
  have be: "?b < ?e" "?e < ?n" using assms(1,2) by (simp_all add: unat_iff)
  have y: "unat ?y = length ys" using assms(7) by (simp add: unat_of_nat take_bit_nat_eq_self)
  have sum: "unat (cb_end c + cb_begin c) = ?e + ?b"
    by (rule unat_plus) (use assms(3) be in simp)
  then have "unat (hasfree c) = 2 ^ 64 + ?n - (?e + ?b)"
    using be assms(5) by (auto simp: hasfree_def distance_def unat_iff unat_sub_if_size word_size)
  then have free: "\<not> hasfree c < ?y" "hasfree c \<noteq> 0"
    using assms(3,7) be y by (auto simp: unat_iff)
  have cont: "cont_distance (cb_end c) (cb_begin c) (cb_capacity c) = cb_capacity c - cb_end c"
    using be by (auto simp: cont_distance_def unat_iff)
  have cont_n: "unat (cb_capacity c - cb_end c) = ?n - ?e" using be by (simp add: unat_minus)
  then have lt: "cb_capacity c - cb_end c < ?y" using assms(6) be by (simp add: unat_iff y)
  then have mn: "min (cb_capacity c - cb_end c) ?y = cb_capacity c - cb_end c" by simp
  have left: "unat (?y - (cb_capacity c - cb_end c)) = length ys - (?n - ?e)"
    using lt cont_n y by (simp add: unat_minus unat_iff)
  show ?thesis
    using free lt be assms(4,6) left cont_n
    by (simp add: circ_add_def Let_def cont mn mem_read_def mem_write_def)
qed

text \<open>Eight bytes of capacity, seven written and five read, then ten to write.\<close>

definition circ_example :: circ where
  "circ_example = \<lparr>cb_begin = 5, cb_end = 7, cb_size = 2, cb_capacity = 8,
     cb_buffer = [1, 2, 3, 4, 5, 6, 7, 0]\<rparr>"

theorem circ_add_overruns_witness:
  "circ_add circ_example (replicate 10 0) 10 = Inl OutOfBounds"
  using circ_add_overruns [of circ_example "replicate 10 0"] by (simp add: circ_example_def)

end
