(* ===== verification/Address.thy ===== *)
theory Address
  imports Prelude
begin

text \<open>
  The addresses the sensor keeps and compares: \<open>base/hw_address.hpp\<close>,
  \<open>base/internet_address.cpp\<close> and \<open>reactor/address.cpp\<close>, as the bytes of the C structures
  behind them, with the hash functions over those bytes (\<open>base/hash.hpp\<close>, \<open>get_hash\<close> of
  \<open>sensor_service.hpp\<close>), and the session map of \<open>service/negotiation_model.cpp\<close>.
\<close>

section \<open>Hashing bytes\<close>

text \<open>\<open>char\<close> is signed on the target: a byte is sign-extended before it is added.\<close>

definition times33 :: "byte list \<Rightarrow> u64" where
  "times33 data = foldl (\<lambda>hash b. 33 * hash + scast b) 0 data"

definition sdbm :: "byte list \<Rightarrow> u64" where
  "sdbm data = foldl (\<lambda>hash b. scast b + push_bit 6 hash + push_bit 16 hash - hash) 0 data"

definition get_hash :: "byte list \<Rightarrow> u64" where
  "get_hash data = foldl (\<lambda>h b. h + (33 * h + scast b)) 0 data"

section \<open>Hardware addresses\<close>

datatype hw_address = HwAddress byte byte byte byte byte byte

fun hw_data :: "hw_address \<Rightarrow> byte list" where
  "hw_data (HwAddress a b c d e f) = [a, b, c, d, e, f]"

definition hw_zero :: hw_address where
  "hw_zero = HwAddress 0 0 0 0 0 0"

definition hw_eq :: "hw_address \<Rightarrow> hw_address \<Rightarrow> bool" where
  "hw_eq a b \<longleftrightarrow> memcmp (hw_data a) (hw_data b) = 0"

lemma length_hw_data [simp]: "length (hw_data a) = 6"
  by (cases a) simp

lemma hw_data_inj: "hw_data a = hw_data b \<longleftrightarrow> a = b"
  by (cases a; cases b) simp

lemma hw_eq_iff: "hw_eq a b \<longleftrightarrow> a = b"
  by (simp add: hw_eq_def memcmp_eq_0 hw_data_inj)

section \<open>Internet addresses\<close>

definition AF_UNSPEC :: u16 where "AF_UNSPEC = 0"
definition AF_INET :: u16 where "AF_INET = 2"
definition AF_INET6 :: u16 where "AF_INET6 = 10"

text \<open>
  The family, two bytes of padding that nothing initialises, and the sixteen bytes of the
  union, of which an IPv4 address takes the first four.
\<close>

record inet =
  ia_family :: u16
  ia_pad :: "byte list"
  ia_address :: "byte list"

definition inet_wf :: "inet \<Rightarrow> bool" where
  "inet_wf a \<longleftrightarrow> length (ia_pad a) = 2 \<and> length (ia_address a) = 16"

definition inet_bytes :: "inet \<Rightarrow> byte list" where
  "inet_bytes a = le_bytes16 (ia_family a) @ ia_pad a @ ia_address a"

definition inet_unspec :: "byte list \<Rightarrow> inet" where
  "inet_unspec pad = \<lparr>ia_family = AF_UNSPEC, ia_pad = pad, ia_address = replicate 16 0\<rparr>"

definition inet_ip4 :: "byte list \<Rightarrow> byte list \<Rightarrow> inet" where
  "inet_ip4 pad ip4 =
     \<lparr>ia_family = AF_INET, ia_pad = pad, ia_address = splice (replicate 16 0) 0 ip4\<rparr>"

definition inet_ip6 :: "byte list \<Rightarrow> byte list \<Rightarrow> inet" where
  "inet_ip6 pad ip6 =
     \<lparr>ia_family = AF_INET6, ia_pad = pad, ia_address = splice (replicate 16 0) 0 ip6\<rparr>"

text \<open>From a \<open>sockaddr\<close>; here the union is not cleared first (\<open>junk\<close> is its old content).\<close>

definition inet_sockaddr :: "byte list \<Rightarrow> byte list \<Rightarrow> byte list \<Rightarrow> nat \<Rightarrow> inet result" where
  "inet_sockaddr pad junk addr len =
     rbind (mem_read addr 0 2) (\<lambda>f.
       let family = le_word16 f in
       if family = AF_INET \<and> len \<ge> 16 then
         rbind (mem_read addr 4 4) (\<lambda>ip4.
           Inr \<lparr>ia_family = family, ia_pad = pad, ia_address = splice junk 0 ip4\<rparr>)
       else if family = AF_INET6 \<and> len \<ge> 28 then
         rbind (mem_read addr 8 16) (\<lambda>ip6.
           Inr \<lparr>ia_family = family, ia_pad = pad, ia_address = splice junk 0 ip6\<rparr>)
       else Inr \<lparr>ia_family = AF_UNSPEC, ia_pad = pad, ia_address = junk\<rparr>)"

definition setAddr4 :: "inet \<Rightarrow> byte list \<Rightarrow> inet" where
  "setAddr4 a ip4 = a\<lparr>ia_family := AF_INET, ia_address := splice (ia_address a) 0 ip4\<rparr>"

definition setAddr6 :: "inet \<Rightarrow> byte list \<Rightarrow> inet" where
  "setAddr6 a ip6 = a\<lparr>ia_family := AF_INET6, ia_address := splice (ia_address a) 0 ip6\<rparr>"

definition inet_assign :: "inet \<Rightarrow> inet \<Rightarrow> inet" where
  "inet_assign this other = this\<lparr>ia_family := ia_family other, ia_address := ia_address other\<rparr>"

text \<open>\<open>operator==\<close> stores the \<open>int\<close> of \<open>memcmp\<close> in a \<open>bool\<close>: true where it is not zero.\<close>

definition inet_eq :: "inet \<Rightarrow> inet \<Rightarrow> bool" where
  "inet_eq this other =
     (if ia_family this = ia_family other then
        (if ia_family this = AF_INET
         then memcmp (take 4 (ia_address this)) (take 4 (ia_address other)) \<noteq> 0
         else memcmp (ia_address this) (ia_address other) \<noteq> 0)
      else False)"

definition inet_hash :: "inet \<Rightarrow> u64" where
  "inet_hash a = times33 (inet_bytes a)"

text \<open>The bytes of an address that its family gives a meaning.\<close>

definition inet_value :: "inet \<Rightarrow> u16 \<times> byte list" where
  "inet_value a =
     (ia_family a, if ia_family a = AF_INET then take 4 (ia_address a) else ia_address a)"

section \<open>Sessions\<close>

text \<open>
  A \<open>std::unordered_map\<close> compares a stored key with the one looked for where their hashes
  agree. \<open>operator[]\<close> inserts a null pointer where it finds none. A session is a number,
  the heap hands them out in order.
\<close>

type_synonym sessions = "(inet \<times> nat option) list"

definition session_match :: "inet \<Rightarrow> inet \<Rightarrow> bool" where
  "session_match stored k \<longleftrightarrow> inet_hash stored = inet_hash k \<and> inet_eq stored k"

fun session_find :: "sessions \<Rightarrow> inet \<Rightarrow> nat option option" where
  "session_find [] k = None"
| "session_find ((k', v) # m) k = (if session_match k' k then Some v else session_find m k)"

fun session_set :: "sessions \<Rightarrow> inet \<Rightarrow> nat option \<Rightarrow> sessions" where
  "session_set [] k v = []"
| "session_set ((k', v') # m) k v =
     (if session_match k' k then (k', v) # m else (k', v') # session_set m k v)"

definition session_index :: "sessions \<Rightarrow> inet \<Rightarrow> sessions \<times> nat option" where
  "session_index m k =
     (case session_find m k of Some v \<Rightarrow> (m, v) | None \<Rightarrow> ((k, None) # m, None))"

record negotiation =
  ng_sessions :: sessions
  ng_next :: nat

definition ng_new :: negotiation where
  "ng_new = \<lparr>ng_sessions = [], ng_next = 0\<rparr>"

definition get_session :: "negotiation \<Rightarrow> inet \<Rightarrow> negotiation \<times> nat option" where
  "get_session n a =
     (let (m, v) = session_index (ng_sessions n) a in (n\<lparr>ng_sessions := m\<rparr>, v))"

definition check_session :: "negotiation \<Rightarrow> inet \<Rightarrow> negotiation \<times> bool" where
  "check_session n a = (let (n, v) = get_session n a in (n, v \<noteq> None))"

text \<open>\<open>sessions[address] = session\<close> assigns to the entry found, or to a new one in front.\<close>

definition create_session :: "negotiation \<Rightarrow> inet \<Rightarrow> negotiation \<times> nat" where
  "create_session n a =
     (let s = ng_next n; n = n\<lparr>ng_next := Suc s\<rparr> in
      case session_find (ng_sessions n) a of
        Some _ \<Rightarrow> (n\<lparr>ng_sessions := session_set (ng_sessions n) a (Some s)\<rparr>, s)
      | None \<Rightarrow> (n\<lparr>ng_sessions := (a, Some s) # ng_sessions n\<rparr>, s))"

datatype ng_op = NgCreate | NgGet | NgCheck

fun ng_run :: "negotiation \<Rightarrow> inet \<Rightarrow> ng_op list \<Rightarrow> negotiation" where
  "ng_run n a [] = n"
| "ng_run n a (NgCreate # xs) = ng_run (fst (create_session n a)) a xs"
| "ng_run n a (NgGet # xs) = ng_run (fst (get_session n a)) a xs"
| "ng_run n a (NgCheck # xs) = ng_run (fst (check_session n a)) a xs"

section \<open>Endpoints\<close>

text \<open>A \<open>sockaddr_storage\<close> of 128 bytes.\<close>

type_synonym endpoint = "byte list"

definition ep_copy :: "endpoint \<Rightarrow> endpoint" where
  "ep_copy e = take 128 e"

definition ep_eq :: "endpoint \<Rightarrow> endpoint \<Rightarrow> bool" where
  "ep_eq a b \<longleftrightarrow> memcmp a b = 0"

definition ep_in6 :: "byte list \<Rightarrow> u16 \<Rightarrow> endpoint" where
  "ep_in6 addr port =
     (let e = replicate 128 0;
          e = splice e 0 (le_bytes16 AF_INET6);
          e = splice e 8 addr
      in splice e 2 (le_bytes16 (htons port)))"

definition ep_in4 :: "byte list \<Rightarrow> u16 \<Rightarrow> endpoint" where
  "ep_in4 addr port =
     (let e = replicate 128 0;
          e = splice e 0 (le_bytes16 AF_INET);
          e = splice e 4 addr
      in splice e 2 (le_bytes16 (htons port)))"

definition ep_sockaddr :: "byte list \<Rightarrow> endpoint result" where
  "ep_sockaddr addr =
     rbind (mem_read addr 0 2) (\<lambda>f.
       let e = replicate 128 0 in
       if le_word16 f = AF_INET then
         rbind (mem_read addr 0 16) (\<lambda>bs. Inr (splice e 0 bs))
       else if le_word16 f = AF_INET6 then
         rbind (mem_read addr 0 28) (\<lambda>bs. Inr (splice e 0 bs))
       else Inl (Thrown ''invalid_argument''))"

definition ep_family :: "endpoint \<Rightarrow> u16" where
  "ep_family e = le_word16 (take 2 e)"

definition get_socklen :: "endpoint \<Rightarrow> nat" where
  "get_socklen e = (if ep_family e = AF_INET then 16 else if ep_family e = AF_INET6 then 28 else 0)"

text \<open>\<open>operator<<\<close> prints the address bytes (through \<open>inet_ntop\<close>, a parameter) and the port.\<close>

definition ep_print :: "(u16 \<Rightarrow> byte list \<Rightarrow> string) \<Rightarrow> endpoint \<Rightarrow> string \<times> u16" where
  "ep_print ntop e =
     (if ep_family e = AF_INET then
        (ntop AF_INET (take 4 (drop 4 e)), ntohs (le_word16 (take 2 (drop 2 e))))
      else if ep_family e = AF_INET6 then
        (ntop AF_INET6 (take 16 (drop 8 e)), ntohs (le_word16 (take 2 (drop 2 e))))
      else ([], 0))"

lemmas af_defs = AF_UNSPEC_def AF_INET_def AF_INET6_def

section \<open>Equality of internet addresses\<close>

lemma inet_eq_iff:
  assumes "inet_wf a" "inet_wf b"
  shows "inet_eq a b \<longleftrightarrow> ia_family a = ia_family b \<and> inet_value a \<noteq> inet_value b"
  using assms by (auto simp: inet_eq_def inet_value_def inet_wf_def memcmp_eq_0)

lemma inet_eq_self [simp]: "\<not> inet_eq a a"
  by (simp add: inet_eq_def)

text \<open>\<open>InternetAddress::operator==\<close> is inverted: it holds of two addresses exactly when they
  are of one family and differ, so that no address equals itself.\<close>

theorem inet_eq_inverted:
  assumes "inet_wf a" and "inet_wf b"
  shows "inet_eq a b \<longleftrightarrow> ia_family a = ia_family b \<and> inet_value a \<noteq> inet_value b"
  by (rule inet_eq_iff [OF assms])

theorem inet_eq_inverted_witness:
  "\<not> inet_eq (inet_ip4 [0, 0] [127, 0, 0, 1]) (inet_ip4 [0, 0] [127, 0, 0, 1]) \<and>
   inet_eq (inet_ip4 [0, 0] [127, 0, 0, 1]) (inet_ip4 [0, 0] [10, 0, 0, 1])"
  using inet_eq_inverted [of "inet_ip4 [0, 0] [127, 0, 0, 1]" "inet_ip4 [0, 0] [127, 0, 0, 1]"]
    inet_eq_inverted [of "inet_ip4 [0, 0] [127, 0, 0, 1]" "inet_ip4 [0, 0] [10, 0, 0, 1]"]
  by (simp add: inet_ip4_def inet_wf_def inet_value_def splice_def)

text \<open>Every entry of a model used with one address has that address as its key.\<close>

definition ng_only :: "negotiation \<Rightarrow> inet \<Rightarrow> bool" where
  "ng_only n a \<longleftrightarrow> fst ` set (ng_sessions n) \<subseteq> {a}"

lemma session_find_only: "fst ` set m \<subseteq> {a} \<Longrightarrow> session_find m a = None"
  by (induction m a rule: session_find.induct) (auto simp: session_match_def)

lemma ng_only_step:
  assumes "ng_only n a"
  shows "get_session n a = (n\<lparr>ng_sessions := (a, None) # ng_sessions n\<rparr>, None)"
    and "ng_only (fst (get_session n a)) a" "ng_only (fst (check_session n a)) a"
    and "ng_only (fst (create_session n a)) a"
  using assms session_find_only [of "ng_sessions n" a]
  by (auto simp: ng_only_def get_session_def check_session_def create_session_def session_index_def
      Let_def)

lemma ng_only_run: "ng_only n a \<Longrightarrow> ng_only (ng_run n a xs) a"
  by (induction n a xs rule: ng_run.induct) (simp_all add: ng_only_step(2-4))

lemma length_ng_run:
  "ng_only n a \<Longrightarrow> length (ng_sessions (ng_run n a xs)) = length (ng_sessions n) + length xs"
proof (induction n a xs rule: ng_run.induct)
  case (2 n a xs)
  then show ?case
    using ng_only_step(4) [OF 2(2)] session_find_only [of "ng_sessions n" a]
    by (simp add: create_session_def ng_only_def Let_def)
next
  case (4 n a xs)
  then show ?case
    using ng_only_step(3) [OF 4(2)] ng_only_step(1) [OF 4(2)] by (simp add: check_session_def)
qed (use ng_only_step in simp_all)

text \<open>A session is never found again. Whatever has been created, fetched or checked for an
  address in a new \<open>NegotiationModel\<close>, \<open>get_session\<close> returns null for it, and every call,
  lookups included, has added an entry to the map.\<close>

theorem session_never_found:
  "snd (get_session (ng_run ng_new a xs) a) = None \<and>
   \<not> snd (check_session (ng_run ng_new a xs) a) \<and>
   length (ng_sessions (ng_run ng_new a xs)) = length xs"
proof -
  have "ng_only ng_new a" by (simp add: ng_only_def ng_new_def)
  then show ?thesis
    using ng_only_step(1) [OF ng_only_run] length_ng_run [of ng_new a xs]
    by (simp add: check_session_def ng_new_def)
qed

section \<open>Endpoints compare as address and port\<close>

lemma length_ep:
  "length addr = 4 \<Longrightarrow> length (ep_in4 addr port) = 128"
  "length addr = 16 \<Longrightarrow> length (ep_in6 addr port) = 128"
  by (simp_all add: ep_in4_def ep_in6_def Let_def)

lemma ep_in4_bytes:
  "length addr = 4 \<Longrightarrow>
   ep_in4 addr port = le_bytes16 AF_INET @ rev (le_bytes16 port) @ addr @ replicate 120 0"
  by (simp add: ep_in4_def Let_def splice_def)

lemma ep_in6_bytes:
  "length addr = 16 \<Longrightarrow>
   ep_in6 addr port
     = le_bytes16 AF_INET6 @ rev (le_bytes16 port) @ replicate 4 0 @ addr @ replicate 104 0"
  by (simp add: ep_in6_def Let_def splice_def)

lemma le_bytes16_inj: "le_bytes16 a = le_bytes16 b \<longleftrightarrow> a = b"
  by (metis le_word16_bytes)

text \<open>Endpoints of one family are equal exactly when their address and port are, an IPv4
  endpoint never equals an IPv6 one, and the \<open>sockaddr\<close> of an endpoint, cut at its
  \<open>get_socklen\<close>, makes an equal endpoint again.\<close>

theorem endpoint_equality:
  assumes "length a = 4" "length b = 4" "length c = 16" "length d = 16"
  shows "(ep_eq (ep_in4 a p) (ep_in4 b q) \<longleftrightarrow> a = b \<and> p = q) \<and>
    (ep_eq (ep_in6 c p) (ep_in6 d q) \<longleftrightarrow> c = d \<and> p = q) \<and>
    \<not> ep_eq (ep_in4 a p) (ep_in6 c q) \<and>
    ep_sockaddr (take (get_socklen (ep_in4 a p)) (ep_in4 a p)) = Inr (ep_in4 a p) \<and>
    ep_sockaddr (take (get_socklen (ep_in6 c p)) (ep_in6 c p)) = Inr (ep_in6 c p)"
proof (intro conjI)
  show "ep_eq (ep_in4 a p) (ep_in4 b q) \<longleftrightarrow> a = b \<and> p = q"
    using assms by (auto simp: ep_eq_def memcmp_eq_0 length_ep ep_in4_bytes le_bytes16_inj)
  show "ep_eq (ep_in6 c p) (ep_in6 d q) \<longleftrightarrow> c = d \<and> p = q"
    using assms by (auto simp: ep_eq_def memcmp_eq_0 length_ep ep_in6_bytes le_bytes16_inj)
  show "\<not> ep_eq (ep_in4 a p) (ep_in6 c q)"
    using assms by (simp add: ep_eq_def memcmp_eq_0 length_ep ep_in4_bytes ep_in6_bytes
        le_bytes16_inj af_defs)
  show "ep_sockaddr (take (get_socklen (ep_in4 a p)) (ep_in4 a p)) = Inr (ep_in4 a p)"
    using assms
    by (simp add: ep_in4_bytes ep_sockaddr_def get_socklen_def ep_family_def mem_read_def
        splice_def replicate_add [symmetric] Let_def)
  show "ep_sockaddr (take (get_socklen (ep_in6 c p)) (ep_in6 c p)) = Inr (ep_in6 c p)"
    using assms
    by (simp add: ep_in6_bytes ep_sockaddr_def get_socklen_def ep_family_def mem_read_def
        splice_def af_defs replicate_add [symmetric] Let_def)
qed

theorem endpoint_equality_witness:
  "ep_eq (ep_in4 [10, 0, 0, 1] 80) (ep_in4 [10, 0, 0, 1] 80) \<and>
   \<not> ep_eq (ep_in4 [10, 0, 0, 1] 80) (ep_in4 [10, 0, 0, 1] 81)"
  using endpoint_equality [of "[10, 0, 0, 1]" "[10, 0, 0, 1]" "replicate 16 0" "replicate 16 0" 80 80]
    endpoint_equality [of "[10, 0, 0, 1]" "[10, 0, 0, 1]" "replicate 16 0" "replicate 16 0" 80 81]
  by simp

end
