(* ===== verification/TsHashTable.thy ===== *)
theory TsHashTable
  imports Address
begin

text \<open>
  \<open>base/ts_hash_table.hpp\<close>: a chained hash table over any key type with \<open>operator==\<close>. An
  operation is modelled as one thread runs it; \<open>TableThreads\<close> shows that threads, whose operations run
  under the table's lock, see the same. A chain of buckets is a list; the key type's equality
  and object bytes are arguments, whose laws are the locale \<open>hash_key\<close>.
\<close>

section \<open>Hashes\<close>

type_synonym hash_t = u32

definition ht_times33 :: "byte list \<Rightarrow> hash_t" where
  "ht_times33 data = foldl (\<lambda>hash b. 33 * hash + scast b) 0 data"

text \<open>\<open>int\<close> arithmetic: shifts to the right keep the sign, those to the left wrap around.\<close>

definition spread_hash :: "u32 \<Rightarrow> u32" where
  "spread_hash h =
     (let h = h XOR (push_bit 15 h XOR 0xcd7dcd7d);
          h = h XOR signed_drop_bit 10 h;
          h = h XOR push_bit 3 h;
          h = h XOR signed_drop_bit 6 h;
          h = h XOR (push_bit 2 h + push_bit 14 h);
          h = h XOR signed_drop_bit 16 h
      in h)"

definition ht_hash :: "('k \<Rightarrow> byte list) \<Rightarrow> 'k \<Rightarrow> hash_t" where
  "ht_hash bytes key = spread_hash (ht_times33 (bytes key))"

definition get_place :: "nat \<Rightarrow> hash_t \<Rightarrow> nat" where
  "get_place len hash = unat hash AND (len - 1)"

section \<open>State\<close>

record ('k, 'v) bucket =
  bk_hash :: hash_t
  bk_key :: 'k
  bk_val :: 'v

record ('k, 'v) ht =
  ht_table :: "('k, 'v) bucket list list"
  ht_capacity :: nat
  ht_length :: nat

definition ht_new :: "('k, 'v) ht" where
  "ht_new = \<lparr>ht_table = replicate 16 [], ht_capacity = 0, ht_length = 16\<rparr>"

definition ht_chain :: "('k, 'v) bucket list list \<Rightarrow> nat \<Rightarrow> ('k, 'v) bucket list result" where
  "ht_chain tb i = (if i < length tb then Inr (tb ! i) else Inl OutOfBounds)"

section \<open>Operations\<close>

definition bk_match :: "('k \<Rightarrow> 'k \<Rightarrow> bool) \<Rightarrow> hash_t \<Rightarrow> 'k \<Rightarrow> ('k, 'v) bucket \<Rightarrow> bool" where
  "bk_match eq hash key b \<longleftrightarrow> bk_hash b = hash \<and> eq (bk_key b) key"

definition get_bucket ::
  "('k \<Rightarrow> 'k \<Rightarrow> bool) \<Rightarrow> ('k, 'v) ht \<Rightarrow> hash_t \<Rightarrow> 'k \<Rightarrow> ('k, 'v) bucket option result" where
  "get_bucket eq t hash key =
     (let index = get_place (ht_length t) hash in
      rbind (ht_chain (ht_table t) index) (\<lambda>ch. Inr (find (bk_match eq hash key) ch)))"

text \<open>The first match of a chain, and the chain without it.\<close>

fun steal_from :: "('k \<Rightarrow> 'k \<Rightarrow> bool) \<Rightarrow> hash_t \<Rightarrow> 'k \<Rightarrow> ('k, 'v) bucket list \<Rightarrow>
    ('k, 'v) bucket list \<times> ('k, 'v) bucket option" where
  "steal_from eq hash key [] = ([], None)"
| "steal_from eq hash key (b # bs) =
     (if bk_match eq hash key b then (bs, Some b)
      else let (bs, r) = steal_from eq hash key bs in (b # bs, r))"

definition steal_bucket :: "('k \<Rightarrow> 'k \<Rightarrow> bool) \<Rightarrow> ('k, 'v) ht \<Rightarrow> hash_t \<Rightarrow> 'k \<Rightarrow>
    (('k, 'v) ht \<times> ('k, 'v) bucket option) result" where
  "steal_bucket eq t hash key =
     (let index = get_place (ht_length t) hash in
      rbind (ht_chain (ht_table t) index) (\<lambda>ch.
        let (ch, r) = steal_from eq hash key ch
        in Inr (t\<lparr>ht_table := (ht_table t)[index := ch]\<rparr>, r)))"

text \<open>Moving the buckets of one chain; \<open>j\<close> is an \<open>int\<close>.\<close>

fun move_chain :: "nat \<Rightarrow> ('k, 'v) bucket list \<Rightarrow> ('k, 'v) bucket list list \<Rightarrow>
    ('k, 'v) bucket list list result" where
  "move_chain newLen [] newData = Inr newData"
| "move_chain newLen (b # bs) newData =
     (let j = sint (word_of_nat (get_place newLen (bk_hash b)) :: u32) in
      if j < 0 then Inl OutOfBounds
      else
        rbind (ht_chain newData (nat j)) (\<lambda>ch.
          move_chain newLen bs (newData[nat j := b # ch])))"

fun move_chains :: "nat \<Rightarrow> ('k, 'v) bucket list list \<Rightarrow> ('k, 'v) bucket list list \<Rightarrow>
    ('k, 'v) bucket list list result" where
  "move_chains newLen [] newData = Inr newData"
| "move_chains newLen (ch # chs) newData =
     rbind (move_chain newLen ch newData) (\<lambda>newData. move_chains newLen chs newData)"

definition expand_map :: "('k, 'v) ht \<Rightarrow> ('k, 'v) ht result" where
  "expand_map t =
     (let newLen = 2 * ht_length t in
      rbind (move_chains newLen (take (ht_length t) (ht_table t)) (replicate newLen [])) (\<lambda>newData.
        Inr (t\<lparr>ht_table := newData, ht_length := newLen\<rparr>)))"

text \<open>
  The load test in \<open>float\<close>: a count is rounded to 24 significant bits, to the even neighbour
  on a tie. Lengths are powers of two, so that the quotient and its comparison are exact.
\<close>

fun bit_length :: "nat \<Rightarrow> nat" where
  "bit_length n = (if n = 0 then 0 else Suc (bit_length (n div 2)))"

declare bit_length.simps [simp del]

definition to_float :: "nat \<Rightarrow> nat" where
  "to_float n =
     (let s = bit_length n - 24; q = n div 2 ^ s; r = n mod 2 ^ s in
      if s = 0 then n
      else (if 2 * r > 2 ^ s \<or> 2 * r = 2 ^ s \<and> odd q then q + 1 else q) * 2 ^ s)"

definition ht_loaded :: "('k, 'v) ht \<Rightarrow> bool" where
  "ht_loaded t \<longleftrightarrow> 4 * to_float (ht_capacity t) \<ge> 3 * to_float (ht_length t)"

definition ht_add :: "('k \<Rightarrow> 'k \<Rightarrow> bool) \<Rightarrow> ('k \<Rightarrow> byte list) \<Rightarrow> ('k, 'v) ht \<Rightarrow> 'k \<Rightarrow> 'v \<Rightarrow>
    (('k, 'v) ht \<times> bool) result" where
  "ht_add eq bytes t key val =
     rbind (if ht_loaded t then expand_map t else Inr t) (\<lambda>t.
       let hash = ht_hash bytes key; index = get_place (ht_length t) hash in
       rbind (ht_chain (ht_table t) index) (\<lambda>ch.
         let found = list_ex (bk_match eq hash key) ch;
             ch = map (\<lambda>b. if bk_match eq hash key b then b\<lparr>bk_val := val\<rparr> else b) ch in
         if \<not> found then
           Inr (t\<lparr>ht_table := (ht_table t)[index := \<lparr>bk_hash = hash, bk_key = key, bk_val = val\<rparr> # ch],
                  ht_capacity := ht_capacity t + 1\<rparr>, found)
         else Inr (t\<lparr>ht_table := (ht_table t)[index := ch]\<rparr>, found)))"

definition ht_get :: "('k \<Rightarrow> 'k \<Rightarrow> bool) \<Rightarrow> ('k \<Rightarrow> byte list) \<Rightarrow> ('k, 'v) ht \<Rightarrow> 'k \<Rightarrow> 'v option result" where
  "ht_get eq bytes t key =
     rbind (get_bucket eq t (ht_hash bytes key) key) (\<lambda>b. Inr (map_option bk_val b))"

definition ht_contains :: "('k \<Rightarrow> 'k \<Rightarrow> bool) \<Rightarrow> ('k \<Rightarrow> byte list) \<Rightarrow> ('k, 'v) ht \<Rightarrow> 'k \<Rightarrow> bool result" where
  "ht_contains eq bytes t key =
     rbind (get_bucket eq t (ht_hash bytes key) key) (\<lambda>b. Inr (b \<noteq> None))"

text \<open>The assignment to the bucket that \<open>get_bucket\<close> points to changes it in its chain.\<close>

fun set_first :: "('b \<Rightarrow> bool) \<Rightarrow> ('b \<Rightarrow> 'b) \<Rightarrow> 'b list \<Rightarrow> 'b list" where
  "set_first P f [] = []"
| "set_first P f (b # bs) = (if P b then f b # bs else b # set_first P f bs)"

definition ht_replace :: "('k \<Rightarrow> 'k \<Rightarrow> bool) \<Rightarrow> ('k \<Rightarrow> byte list) \<Rightarrow> ('k, 'v) ht \<Rightarrow> 'k \<Rightarrow> 'v \<Rightarrow>
    (('k, 'v) ht \<times> bool) result" where
  "ht_replace eq bytes t key val =
     (let hash = ht_hash bytes key; index = get_place (ht_length t) hash in
      rbind (get_bucket eq t hash key) (\<lambda>b.
        case b of
          None \<Rightarrow> Inr (t, False)
        | Some _ \<Rightarrow>
            Inr (t\<lparr>ht_table := (ht_table t)[index :=
                  set_first (bk_match eq hash key) (\<lambda>b. b\<lparr>bk_val := val\<rparr>) (ht_table t ! index)]\<rparr>, True)))"

definition ht_steal :: "('k \<Rightarrow> 'k \<Rightarrow> bool) \<Rightarrow> ('k \<Rightarrow> byte list) \<Rightarrow> ('k, 'v) ht \<Rightarrow> 'k \<Rightarrow>
    (('k, 'v) ht \<times> 'v option) result" where
  "ht_steal eq bytes t key =
     rbind (steal_bucket eq t (ht_hash bytes key) key) (\<lambda>(t, b).
       case b of
         None \<Rightarrow> Inr (t, None)
       | Some b \<Rightarrow> Inr (t\<lparr>ht_capacity := ht_capacity t - 1\<rparr>, Some (bk_val b)))"

definition ht_remove :: "('k \<Rightarrow> 'k \<Rightarrow> bool) \<Rightarrow> ('k \<Rightarrow> byte list) \<Rightarrow> ('k, 'v) ht \<Rightarrow> 'k \<Rightarrow>
    (('k, 'v) ht \<times> bool) result" where
  "ht_remove eq bytes t key =
     rbind (steal_bucket eq t (ht_hash bytes key) key) (\<lambda>(t, b).
       case b of
         None \<Rightarrow> Inr (t, False)
       | Some _ \<Rightarrow> Inr (t\<lparr>ht_capacity := ht_capacity t - 1\<rparr>, True))"

text \<open>The destructor deletes buckets until it has counted \<open>capacity\<close> of them; it returns them.\<close>

fun ht_delete :: "nat \<Rightarrow> ('k, 'v) bucket list list \<Rightarrow> ('k, 'v) bucket list" where
  "ht_delete cap [] = []"
| "ht_delete cap (ch # chs) = (if cap = 0 then [] else ch @ ht_delete (cap - length ch) chs)"

definition ht_destroy :: "('k, 'v) ht \<Rightarrow> ('k, 'v) bucket list" where
  "ht_destroy t = ht_delete (ht_capacity t) (take (ht_length t) (ht_table t))"

section \<open>Well-formed tables\<close>

text \<open>
  The table has \<open>2 ^ k\<close> chains with \<open>k\<close> from 4 to 31, every bucket is in the chain of its
  key's hash, no two buckets of a chain have equal keys, and \<open>capacity\<close> counts the buckets.
\<close>

definition chain_ok ::
  "('k \<Rightarrow> 'k \<Rightarrow> bool) \<Rightarrow> ('k \<Rightarrow> byte list) \<Rightarrow> nat \<Rightarrow> nat \<Rightarrow> ('k, 'v) bucket list \<Rightarrow> bool" where
  "chain_ok eq bytes len i ch \<longleftrightarrow>
     (\<forall>b\<in>set ch. bk_hash b = ht_hash bytes (bk_key b) \<and> get_place len (bk_hash b) = i) \<and>
     sorted_wrt (\<lambda>b b'. \<not> eq (bk_key b) (bk_key b')) ch"

definition table_ok ::
  "('k \<Rightarrow> 'k \<Rightarrow> bool) \<Rightarrow> ('k \<Rightarrow> byte list) \<Rightarrow> nat \<Rightarrow> ('k, 'v) bucket list list \<Rightarrow> bool" where
  "table_ok eq bytes len tb \<longleftrightarrow> length tb = len \<and> (\<forall>i<len. chain_ok eq bytes len i (tb ! i))"

definition len_ok :: "nat \<Rightarrow> bool" where
  "len_ok len \<longleftrightarrow> (\<exists>k. len = 2 ^ k \<and> 4 \<le> k \<and> k \<le> 31)"

definition ht_inv :: "('k \<Rightarrow> 'k \<Rightarrow> bool) \<Rightarrow> ('k \<Rightarrow> byte list) \<Rightarrow> ('k, 'v) ht \<Rightarrow> bool" where
  "ht_inv eq bytes t \<longleftrightarrow> len_ok (ht_length t) \<and> table_ok eq bytes (ht_length t) (ht_table t) \<and>
     ht_capacity t = sum_list (map length (ht_table t))"

text \<open>The value a table holds for a key.\<close>

definition chain_val :: "('k \<Rightarrow> 'k \<Rightarrow> bool) \<Rightarrow> 'k \<Rightarrow> ('k, 'v) bucket list \<Rightarrow> 'v option" where
  "chain_val eq key ch = map_option bk_val (find (\<lambda>b. eq (bk_key b) key) ch)"

definition ht_val ::
  "('k \<Rightarrow> 'k \<Rightarrow> bool) \<Rightarrow> ('k \<Rightarrow> byte list) \<Rightarrow> ('k, 'v) ht \<Rightarrow> 'k \<Rightarrow> 'v option" where
  "ht_val eq bytes t key =
     chain_val eq key (ht_table t ! get_place (ht_length t) (ht_hash bytes key))"

section \<open>Places\<close>

lemma get_place_pow: "get_place (2 ^ k) h = unat h mod 2 ^ k"
  unfolding get_place_def mask_eq_exp_minus_1 [symmetric]
  by (simp only: take_bit_eq_mask [symmetric] take_bit_eq_mod)

lemma get_place_less: "len_ok len \<Longrightarrow> get_place len h < len"
  by (auto simp: len_ok_def get_place_pow)

lemma int_of_place:
  assumes "p < 2 ^ 31"
  shows "sint (word_of_nat p :: u32) = int p"
proof -
  have "uint (word_of_nat p :: u32) = int p"
    using assms by (simp add: uint_nat unat_of_nat take_bit_nat_eq_self)
  moreover have "signed_take_bit 31 (int p) = int p"
    using assms by (intro signed_take_bit_int_eq_self) simp_all
  ultimately show ?thesis by (simp add: sint_uint)
qed

text \<open>Moving buckets puts each in front of the chain of its place.\<close>

lemma move_chain_places:
  assumes "newLen = 2 ^ k" "k \<le> 31" "length nd = newLen"
  shows "move_chain newLen bs nd
    = Inr (map (\<lambda>p. rev (filter (\<lambda>b. get_place newLen (bk_hash b) = p) bs) @ nd ! p) [0..<newLen])"
  using assms(3)
proof (induction bs arbitrary: nd)
  case Nil
  then show ?case by (simp add: list_eq_iff_nth_eq)
next
  case (Cons b bs)
  let ?p = "get_place newLen (bk_hash b)"
  have p: "?p < newLen" using assms(1) by (simp add: get_place_pow)
  have "newLen \<le> 2 ^ 31" using assms(1,2) power_increasing [of k 31 "2 :: nat"] by simp
  with p have "sint (word_of_nat ?p :: u32) = int ?p" by (intro int_of_place) linarith
  then have "move_chain newLen (b # bs) nd = move_chain newLen bs (nd[?p := b # nd ! ?p])"
    using p Cons.prems by (simp add: ht_chain_def Let_def)
  also have "\<dots> = Inr (map (\<lambda>q. rev (filter (\<lambda>b. get_place newLen (bk_hash b) = q) bs)
      @ nd[?p := b # nd ! ?p] ! q) [0..<newLen])"
    by (rule Cons.IH) (use Cons.prems in simp)
  also have "\<dots> = Inr (map (\<lambda>q. rev (filter (\<lambda>b. get_place newLen (bk_hash b) = q) (b # bs))
      @ nd ! q) [0..<newLen])"
    using p Cons.prems by (auto simp: nth_list_update)
  finally show ?case .
qed

lemma move_chains_places:
  assumes "newLen = 2 ^ k" "k \<le> 31" "length nd = newLen"
  shows "move_chains newLen chs nd
    = Inr (map (\<lambda>p. rev (filter (\<lambda>b. get_place newLen (bk_hash b) = p) (concat chs)) @ nd ! p) [0..<newLen])"
  using assms(3)
proof (induction chs arbitrary: nd)
  case Nil
  then show ?case by (simp add: list_eq_iff_nth_eq)
next
  case (Cons ch chs)
  then show ?case
    by (simp add: move_chain_places [OF assms(1,2) Cons.prems])
qed

lemma sum_filter_places:
  assumes "\<And>b. b \<in> set bs \<Longrightarrow> f b < (n :: nat)"
  shows "(\<Sum>p\<leftarrow>[0..<n]. length (filter (\<lambda>b. f b = p) bs)) = length bs"
  using assms
proof (induction bs)
  case (Cons b bs)
  have "(\<Sum>p\<leftarrow>[0..<n]. length (filter (\<lambda>b. f b = p) (b # bs)))
      = (\<Sum>p\<leftarrow>[0..<n]. (if f b = p then 1 else 0) + length (filter (\<lambda>b. f b = p) bs))"
    by (rule arg_cong [of _ _ sum_list]) simp
  also have "\<dots> = (\<Sum>p\<leftarrow>[0..<n]. if f b = p then 1 else 0) + length bs"
    using Cons by (simp add: sum_list_addf)
  also have "(\<Sum>p\<leftarrow>[0..<n]. if f b = p then 1 else (0 :: nat)) = 1"
    using Cons.prems by (simp add: interv_sum_list_conv_sum_set_nat)
  finally show ?case by simp
qed simp

section \<open>The load test\<close>

lemma bit_length_double: "0 < n \<Longrightarrow> bit_length (2 * n) = Suc (bit_length n)"
  by (subst bit_length.simps) simp

lemma bit_length_pow: "bit_length (2 ^ k) = Suc k"
proof (induction k)
  case 0
  show ?case by (simp add: bit_length.simps [of 1] bit_length.simps [of 0] flip: One_nat_def)
next
  case (Suc k)
  then show ?case by (simp add: bit_length_double)
qed

lemma bit_length_le: "0 < n \<Longrightarrow> 2 ^ bit_length n \<le> 2 * n"
proof (induction n rule: bit_length.induct)
  case (1 n)
  show ?case
  proof (cases "n div 2 = 0")
    case True
    then have "n = 1" using 1(2) by simp
    then show ?thesis by (simp add: bit_length.simps)
  next
    case False
    then have "2 ^ bit_length (n div 2) \<le> 2 * (n div 2)" using 1 by simp
    then show ?thesis using 1(2) by (subst bit_length.simps) simp
  qed
qed

lemma to_float_le: "to_float n \<le> 2 * n"
proof (cases "bit_length n - 24 = 0")
  case False
  let ?s = "bit_length n - 24"
  have "bit_length 0 = 0" by (simp add: bit_length.simps [of 0])
  then have "n \<noteq> 0" using False by (metis diff_0_eq_0)
  then have "2 ^ bit_length n \<le> 2 * n" by (simp add: bit_length_le)
  moreover have "(2 :: nat) ^ bit_length n = 2 ^ ?s * 2 ^ 24"
    using False by (subst power_add [symmetric]) simp
  ultimately have s: "2 ^ ?s \<le> n" by simp
  have q: "n div 2 ^ ?s * 2 ^ ?s \<le> n" by (rule div_times_less_eq_dividend)
  have "to_float n = n div 2 ^ ?s * 2 ^ ?s \<or> to_float n = (n div 2 ^ ?s + 1) * 2 ^ ?s"
    by (cases "2 * (n mod 2 ^ ?s) > 2 ^ ?s \<or> 2 * (n mod 2 ^ ?s) = 2 ^ ?s \<and> odd (n div 2 ^ ?s)")
      (simp_all only: to_float_def Let_def if_True if_False False simp_thms)
  then show ?thesis using s q unfolding distrib_right by linarith
qed (simp add: to_float_def)

lemma to_float_pow: "to_float (2 ^ k) = 2 ^ k"
proof -
  have "(2 :: nat) ^ k = 2 ^ (k - 23) * 2 ^ (k - (k - 23))" by (simp flip: power_add)
  then have "(2 :: nat) ^ k mod 2 ^ (k - 23) = 0" "2 ^ k div 2 ^ (k - 23) * 2 ^ (k - 23) = (2 :: nat) ^ k"
    by (metis mod_mult_self1_is_0, metis dvd_triv_left dvd_div_mult_self)
  then show ?thesis by (simp add: to_float_def Let_def bit_length_pow)
qed

text \<open>A table with fewer than \<open>2 ^ 29\<close> buckets never has to grow past \<open>2 ^ 31\<close> chains.\<close>

lemma ht_loaded_room:
  assumes "len_ok (ht_length t)" "ht_capacity t < 2 ^ 29" "ht_loaded t"
  shows "ht_length t < 2 ^ 31"
proof (rule ccontr)
  assume "\<not> ht_length t < 2 ^ 31"
  moreover obtain k where "ht_length t = 2 ^ k" "k \<le> 31" using assms(1) by (auto simp: len_ok_def)
  moreover have "(2 :: nat) ^ k \<le> 2 ^ 31" using \<open>k \<le> 31\<close> by (intro power_increasing) auto
  ultimately have "to_float (ht_length t) = 2 ^ 31" using to_float_pow [of k] by simp
  moreover have "to_float (ht_capacity t) < 2 ^ 30"
    using to_float_le [of "ht_capacity t"] assms(2) by simp
  ultimately show False using assms(3) by (simp add: ht_loaded_def)
qed

section \<open>Chains\<close>

lemma chain_val_simps [simp]:
  "chain_val eq k [] = None"
  "chain_val eq k (b # ch) = (if eq (bk_key b) k then Some (bk_val b) else chain_val eq k ch)"
  by (simp_all add: chain_val_def)

lemma chain_val_None: "chain_val eq k ch = None \<longleftrightarrow> (\<forall>b\<in>set ch. \<not> eq (bk_key b) k)"
  by (induction ch) auto

lemma bk_match_chain:
  "chain_ok eq bytes len i ch \<Longrightarrow> b \<in> set ch \<Longrightarrow> (\<And>k k'. eq k k' \<Longrightarrow> bytes k = bytes k') \<Longrightarrow>
   bk_match eq (ht_hash bytes key) key b \<longleftrightarrow> eq (bk_key b) key"
  by (auto simp: bk_match_def chain_ok_def ht_hash_def)

lemma find_match_cong: "(\<And>b. b \<in> set ch \<Longrightarrow> P b = Q b) \<Longrightarrow> find P ch = find Q ch"
  by (induction ch) auto

lemma list_ex_cong': "(\<And>b. b \<in> set ch \<Longrightarrow> P b = Q b) \<Longrightarrow> list_ex P ch = list_ex Q ch"
  by (induction ch) auto

lemma set_first_cong: "(\<And>b. b \<in> set ch \<Longrightarrow> P b = Q b) \<Longrightarrow> set_first P f ch = set_first Q f ch"
  by (induction ch) auto

lemma sorted_wrt_keys:
  "sorted_wrt (\<lambda>b b'. \<not> eq (bk_key b) (bk_key b')) ch \<longleftrightarrow>
   sorted_wrt (\<lambda>k k'. \<not> eq k k') (map bk_key ch)"
  by (simp add: sorted_wrt_map)

lemma set_first_keys:
  "map bk_key (set_first P (\<lambda>b. b\<lparr>bk_val := v\<rparr>) ch) = map bk_key ch"
  "map bk_hash (set_first P (\<lambda>b. b\<lparr>bk_val := v\<rparr>) ch) = map bk_hash ch"
  by (induction ch) auto

lemma chain_ok_zip:
  "chain_ok eq bytes len i ch \<longleftrightarrow>
     (\<forall>(h, k)\<in>set (zip (map bk_hash ch) (map bk_key ch)). h = ht_hash bytes k \<and> get_place len h = i) \<and>
     sorted_wrt (\<lambda>k k'. \<not> eq k k') (map bk_key ch)"
proof -
  have "(\<forall>b\<in>set ch. P (bk_hash b) (bk_key b)) \<longleftrightarrow>
      (\<forall>(h, k)\<in>set (zip (map bk_hash ch) (map bk_key ch)). P h k)" for P
    by (induction ch) auto
  from this [of "\<lambda>h k. h = ht_hash bytes k \<and> get_place len h = i"] show ?thesis
    by (simp add: chain_ok_def sorted_wrt_keys)
qed

lemma chain_ok_keys:
  "map bk_key ch' = map bk_key ch \<Longrightarrow> map bk_hash ch' = map bk_hash ch \<Longrightarrow>
   chain_ok eq bytes len i ch' = chain_ok eq bytes len i ch"
  by (simp add: chain_ok_zip)

lemma chain_ok_Cons:
  "chain_ok eq bytes len i (b # ch) \<longleftrightarrow>
     bk_hash b = ht_hash bytes (bk_key b) \<and> get_place len (bk_hash b) = i \<and>
     (\<forall>b'\<in>set ch. \<not> eq (bk_key b) (bk_key b')) \<and> chain_ok eq bytes len i ch"
  unfolding chain_ok_def by (simp only: list.set ball_simps sorted_wrt.simps) blast

lemma steal_from_set:
  "steal_from eq h key ch = (ch', r) \<Longrightarrow> set ch' \<subseteq> set ch"
  by (induction ch arbitrary: ch' r) (auto split: if_splits prod.splits)

lemma steal_from_sorted:
  "steal_from eq h key ch = (ch', r) \<Longrightarrow> sorted_wrt R ch \<Longrightarrow> sorted_wrt R ch'"
proof (induction ch arbitrary: ch' r)
  case (Cons b ch)
  obtain ch1 r1 where 1: "steal_from eq h key ch = (ch1, r1)" by (cases "steal_from eq h key ch")
  show ?case
    using Cons.IH [OF 1] Cons.prems steal_from_set [OF 1] by (auto simp: 1 subset_iff split: if_splits)
qed simp

lemma steal_from_ok:
  "steal_from eq h key ch = (ch', r) \<Longrightarrow> chain_ok eq bytes len i ch \<Longrightarrow> chain_ok eq bytes len i ch'"
  using steal_from_set [of eq h key ch ch' r] steal_from_sorted [of eq h key ch ch' r]
  by (auto simp: chain_ok_def)

lemma steal_from_length:
  "steal_from eq h key ch = (ch', r) \<Longrightarrow> length ch = length ch' + (if r = None then 0 else 1)"
  by (induction ch arbitrary: ch' r) (auto split: if_splits prod.splits)

text \<open>Replacing one chain of a table.\<close>

lemma table_ok_update:
  "table_ok eq bytes len tb \<Longrightarrow> i < len \<Longrightarrow> chain_ok eq bytes len i ch \<Longrightarrow>
   table_ok eq bytes len (tb[i := ch])"
  by (auto simp: table_ok_def nth_list_update)

lemma sum_length_update:
  assumes "i < length tb" "length ch' + d = length (tb ! i) + d'"
  shows "sum_list (map length (tb[i := ch'])) + d = sum_list (map length tb) + d'"
proof -
  have "tb = take i tb @ tb ! i # drop (Suc i) tb" using assms(1) by (rule id_take_nth_drop)
  then have "sum_list (map length tb)
      = sum_list (map length (take i tb)) + length (tb ! i) + sum_list (map length (drop (Suc i) tb))"
    by (metis (no_types, lifting) add.assoc list.simps(9) map_append sum_list.Cons sum_list_append)
  moreover have "sum_list (map length (tb[i := ch']))
      = sum_list (map length (take i tb)) + length ch' + sum_list (map length (drop (Suc i) tb))"
    using assms(1) by (simp add: upd_conv_take_nth_drop)
  ultimately show ?thesis using assms(2) by simp
qed

section \<open>What a key type must provide\<close>

text \<open>
  \<open>operator==\<close> is an equivalence, and equal keys have equal object bytes (the table hashes
  \<open>sizeof(KeyT)\<close> bytes, padding included).
\<close>

locale hash_key =
  fixes eq :: "'k \<Rightarrow> 'k \<Rightarrow> bool"
    and bytes :: "'k \<Rightarrow> byte list"
  assumes eq_refl: "eq k k"
    and eq_sym: "eq k k' \<Longrightarrow> eq k' k"
    and eq_trans: "eq k k' \<Longrightarrow> eq k' k'' \<Longrightarrow> eq k k''"
    and eq_bytes: "eq k k' \<Longrightarrow> bytes k = bytes k'"
begin

lemma eq_class: "eq a k \<Longrightarrow> eq a k' \<longleftrightarrow> eq k k'"
  using eq_sym eq_trans by blast

lemma eq_hash: "eq k k' \<Longrightarrow> ht_hash bytes k = ht_hash bytes k'"
  by (simp add: ht_hash_def eq_bytes)

lemma chain_match:
  "chain_ok eq bytes len i ch \<Longrightarrow> b \<in> set ch \<Longrightarrow>
   bk_match eq (ht_hash bytes key) key b \<longleftrightarrow> eq (bk_key b) key"
  by (rule bk_match_chain) (use eq_bytes in auto)

lemma find_chain:
  "chain_ok eq bytes len i ch \<Longrightarrow>
   map_option bk_val (find (bk_match eq (ht_hash bytes key) key) ch) = chain_val eq key ch"
  unfolding chain_val_def by (subst find_match_cong [of ch _ "\<lambda>b. eq (bk_key b) key"]) (auto simp: chain_match)

lemma chain_val_eq: "eq key k \<Longrightarrow> chain_val eq k ch = chain_val eq key ch"
  by (induction ch) (auto dest: eq_class eq_trans eq_sym)

text \<open>What an update does to the value of every key.\<close>

lemma chain_val_map:
  assumes "chain_ok eq bytes len i ch"
  shows "chain_val eq k (map (\<lambda>b. if bk_match eq (ht_hash bytes key) key b then b\<lparr>bk_val := v\<rparr> else b) ch)
    = (if eq key k then map_option (\<lambda>_. v) (chain_val eq k ch) else chain_val eq k ch)"
proof -
  have "map (\<lambda>b. if bk_match eq (ht_hash bytes key) key b then b\<lparr>bk_val := v\<rparr> else b) ch
      = map (\<lambda>b. if eq (bk_key b) key then b\<lparr>bk_val := v\<rparr> else b) ch"
    using chain_match [OF assms] by (intro map_cong) auto
  moreover have "chain_val eq k (map (\<lambda>b. if eq (bk_key b) key then b\<lparr>bk_val := v\<rparr> else b) ch)
      = (if eq key k then map_option (\<lambda>_. v) (chain_val eq k ch) else chain_val eq k ch)"
    by (induction ch) (auto dest: eq_class eq_trans eq_sym)
  ultimately show ?thesis by (simp only:)
qed

lemma chain_val_set_first:
  assumes "chain_ok eq bytes len i ch"
  shows "chain_val eq k (set_first (bk_match eq (ht_hash bytes key) key) (\<lambda>b. b\<lparr>bk_val := v\<rparr>) ch)
    = (if eq key k then map_option (\<lambda>_. v) (chain_val eq k ch) else chain_val eq k ch)"
proof -
  have "set_first (bk_match eq (ht_hash bytes key) key) (\<lambda>b. b\<lparr>bk_val := v\<rparr>) ch
      = set_first (\<lambda>b. eq (bk_key b) key) (\<lambda>b. b\<lparr>bk_val := v\<rparr>) ch"
    using chain_match [OF assms] by (intro set_first_cong) auto
  moreover have "chain_val eq k (set_first (\<lambda>b. eq (bk_key b) key) (\<lambda>b. b\<lparr>bk_val := v\<rparr>) ch)
      = (if eq key k then map_option (\<lambda>_. v) (chain_val eq k ch) else chain_val eq k ch)"
    by (induction ch) (auto dest: eq_class eq_trans eq_sym)
  ultimately show ?thesis by simp
qed

lemma steal_chain:
  assumes "chain_ok eq bytes len i ch"
    and "steal_from eq (ht_hash bytes key) key ch = (ch', r)"
  shows "map_option bk_val r = chain_val eq key ch"
    and "chain_val eq k ch' = (if eq key k then None else chain_val eq k ch)"
proof -
  have "map_option bk_val r = chain_val eq key ch \<and>
    chain_val eq k ch' = (if eq key k then None else chain_val eq k ch)"
    using assms
  proof (induction ch arbitrary: ch' r)
    case (Cons b ch)
    have ok: "chain_ok eq bytes len i ch" and b: "\<And>b'. b' \<in> set ch \<Longrightarrow> \<not> eq (bk_key b) (bk_key b')"
      and m: "bk_match eq (ht_hash bytes key) key b \<longleftrightarrow> eq (bk_key b) key"
      using Cons.prems(1) chain_match [OF Cons.prems(1), of b] by (auto simp: chain_ok_def)
    show ?case
    proof (cases "eq (bk_key b) key")
      case True
      then have "chain_val eq key ch = None" "eq key k \<Longrightarrow> chain_val eq k ch = None"
        using b eq_class eq_sym eq_trans unfolding chain_val_None by blast+
      with True Cons.prems(2) m show ?thesis using eq_class [OF True] by auto
    next
      case False
      obtain ch1 r1 where 1: "steal_from eq (ht_hash bytes key) key ch = (ch1, r1)"
        by (cases "steal_from eq (ht_hash bytes key) key ch")
      with False m Cons.prems(2) have "ch' = b # ch1" "r = r1" by auto
      moreover have "eq (bk_key b) k \<Longrightarrow> \<not> eq key k"
        using False eq_sym eq_trans by blast
      ultimately show ?thesis using Cons.IH [OF ok 1] False by auto
    qed
  qed simp
  then show "map_option bk_val r = chain_val eq key ch"
    "chain_val eq k ch' = (if eq key k then None else chain_val eq k ch)" by simp_all
qed

abbreviation inv :: "('k, 'v) ht \<Rightarrow> bool" where "inv \<equiv> ht_inv eq bytes"
abbreviation val :: "('k, 'v) ht \<Rightarrow> 'k \<Rightarrow> 'v option" where "val \<equiv> ht_val eq bytes"

lemma inv_chain:
  fixes t :: "('k, 'v) ht" and key :: 'k
  assumes "inv t"
  defines "i \<equiv> get_place (ht_length t) (ht_hash bytes key)"
  shows "ht_chain (ht_table t) i = Inr (ht_table t ! i)" "i < length (ht_table t)"
    "chain_ok eq bytes (ht_length t) i (ht_table t ! i)"
  using assms get_place_less [of "ht_length t"]
  by (auto simp: ht_inv_def table_ok_def ht_chain_def)

lemma get_ok: "inv t \<Longrightarrow> ht_get eq bytes t key = Inr (val t key)"
  by (simp add: ht_get_def get_bucket_def Let_def inv_chain find_chain [OF inv_chain(3)] ht_val_def)

lemma contains_ok: "inv t \<Longrightarrow> ht_contains eq bytes t key = Inr (val t key \<noteq> None)"
  by (simp add: ht_contains_def get_bucket_def Let_def inv_chain ht_val_def
      find_chain [OF inv_chain(3), symmetric])

text \<open>Replacing the chain of one key by one in which its value, and no other, has changed.\<close>

lemma update_chain:
  fixes t :: "('k, 'v) ht" and key :: 'k
  assumes t: "inv t"
  defines "i \<equiv> get_place (ht_length t) (ht_hash bytes key)"
  assumes ch: "chain_ok eq bytes (ht_length t) i ch"
    and val: "\<And>k. chain_val eq k ch = (if eq key k then x else chain_val eq k (ht_table t ! i))"
    and len: "length ch + d = length (ht_table t ! i) + d'" and cap: "cap + d = ht_capacity t + d'"
  shows "inv (t\<lparr>ht_table := (ht_table t)[i := ch], ht_capacity := cap\<rparr>) \<and>
    val (t\<lparr>ht_table := (ht_table t)[i := ch], ht_capacity := cap\<rparr>) k = (if eq key k then x else val t k)"
proof
  have i: "i < ht_length t" "i < length (ht_table t)" "length (ht_table t) = ht_length t"
    using t get_place_less by (auto simp: i_def ht_inv_def table_ok_def)
  then have "table_ok eq bytes (ht_length t) ((ht_table t)[i := ch])"
    using t ch by (auto simp: ht_inv_def intro: table_ok_update)
  moreover have "sum_list (map length ((ht_table t)[i := ch])) + d = cap + d"
    using sum_length_update [OF i(2) len] t cap by (simp add: ht_inv_def)
  ultimately show "inv (t\<lparr>ht_table := (ht_table t)[i := ch], ht_capacity := cap\<rparr>)"
    using t by (simp add: ht_inv_def)
  let ?j = "get_place (ht_length t) (ht_hash bytes k)"
  have "eq key k \<Longrightarrow> ?j = i" by (simp add: i_def eq_hash)
  then show "val (t\<lparr>ht_table := (ht_table t)[i := ch], ht_capacity := cap\<rparr>) k
      = (if eq key k then x else val t k)"
    using i val [of k] by (auto simp: ht_val_def nth_list_update)
qed

text \<open>Expansion: the same buckets in twice as many chains.\<close>

lemma table_buckets:
  assumes "table_ok eq bytes len tb"
  shows "sorted_wrt (\<lambda>b b'. \<not> eq (bk_key b) (bk_key b')) (concat tb)"
    and "b \<in> set (concat tb) \<Longrightarrow> bk_hash b = ht_hash bytes (bk_key b)"
proof -
  show "b \<in> set (concat tb) \<Longrightarrow> bk_hash b = ht_hash bytes (bk_key b)"
    using assms by (auto simp: table_ok_def chain_ok_def in_set_conv_nth [of _ tb])
  have "sorted_wrt (\<lambda>b b'. \<not> eq (bk_key b) (bk_key b')) (concat (drop i tb))" if "i \<le> length tb" for i
    using that
  proof (induction i rule: inc_induct)
    case (step i)
    have ok: "chain_ok eq bytes len i (tb ! i)" using assms step(2) by (simp add: table_ok_def)
    have "\<not> eq (bk_key b) (bk_key b')" if b: "b \<in> set (tb ! i)" and b': "b' \<in> set (concat (drop (Suc i) tb))" for b b'
    proof
      assume e: "eq (bk_key b) (bk_key b')"
      from b' obtain m where "m < length tb - Suc i" "b' \<in> set (drop (Suc i) tb ! m)"
        by (auto simp: set_conv_nth [of "drop (Suc i) tb"])
      then obtain j where j: "i < j" "j < length tb" "b' \<in> set (tb ! j)"
        by (intro that [of "Suc i + m"]) auto
      then have "chain_ok eq bytes len j (tb ! j)" using assms by (simp add: table_ok_def)
      then show False
        using ok b j eq_hash [OF e] unfolding chain_ok_def by (metis less_irrefl)
    qed
    then show ?case
      using step ok by (simp add: Cons_nth_drop_Suc [symmetric] sorted_wrt_append chain_ok_def)
  qed simp
  from this [of 0] show "sorted_wrt (\<lambda>b b'. \<not> eq (bk_key b) (bk_key b')) (concat tb)" by simp
qed

lemma chain_val_unique:
  assumes "sorted_wrt (\<lambda>b b'. \<not> eq (bk_key b) (bk_key b')) bs"
  shows "chain_val eq k bs = Some v \<longleftrightarrow> (\<exists>b\<in>set bs. eq (bk_key b) k \<and> bk_val b = v)"
  using assms
proof (induction bs)
  case (Cons b bs)
  have "eq (bk_key b) k \<Longrightarrow> b' \<in> set bs \<Longrightarrow> \<not> eq (bk_key b') k" for b'
    using Cons.prems eq_sym eq_trans by (metis sorted_wrt.simps(2))
  with Cons show ?case by auto
qed simp

lemma val_concat:
  assumes "inv t"
  shows "val t k = chain_val eq k (concat (ht_table t))"
proof -
  let ?i = "get_place (ht_length t) (ht_hash bytes k)"
  have tb: "table_ok eq bytes (ht_length t) (ht_table t)" using assms by (simp add: ht_inv_def)
  have "chain_val eq k (ht_table t ! ?i) = Some v \<longleftrightarrow> chain_val eq k (concat (ht_table t)) = Some v" for v
  proof -
    have i: "?i < length (ht_table t)" by (rule inv_chain(2) [OF assms])
    have "sorted_wrt (\<lambda>b b'. \<not> eq (bk_key b) (bk_key b')) (ht_table t ! ?i)"
      using inv_chain(3) [OF assms] by (simp add: chain_ok_def)
    moreover have "b \<in> set (ht_table t ! ?i)" if b: "b \<in> set (concat (ht_table t))" and e: "eq (bk_key b) k" for b
    proof -
      obtain j where j: "j < length (ht_table t)" "b \<in> set (ht_table t ! j)"
        using b by (auto simp: in_set_conv_nth [of _ "ht_table t"])
      then have "chain_ok eq bytes (ht_length t) j (ht_table t ! j)"
        using tb by (simp add: table_ok_def)
      then have "j = ?i" using j(2) eq_hash [OF e] by (auto simp: chain_ok_def)
      with j show ?thesis by simp
    qed
    ultimately show ?thesis
      using i by (auto simp: chain_val_unique table_buckets(1) [OF tb] intro: nth_mem)
  qed
  then show ?thesis unfolding ht_val_def by (rule option_eqI)
qed

lemma expand_ok:
  assumes "inv t" and "ht_length t < 2 ^ 31"
  shows "\<exists>t'. expand_map t = Inr t' \<and> inv t' \<and> val t' = val t \<and> ht_capacity t' = ht_capacity t"
proof -
  let ?n = "2 * ht_length t" and ?bs = "concat (ht_table t)"
  obtain k where k: "ht_length t = 2 ^ k" "4 \<le> k" "k \<le> 31"
    using assms(1) by (auto simp: ht_inv_def len_ok_def)
  have "k < 31" using assms(2) k(1) power_less_imp_less_exp [of "2 :: nat" k 31] by simp
  then have n: "?n = 2 ^ Suc k" "Suc k \<le> 31" "len_ok ?n"
    using k by (auto simp: len_ok_def intro: exI [of _ "Suc k"])
  have tb: "table_ok eq bytes (ht_length t) (ht_table t)" using assms(1) by (simp add: ht_inv_def)
  let ?tb = "map (\<lambda>p. rev (filter (\<lambda>b. get_place ?n (bk_hash b) = p) ?bs)) [0..<?n]"
  let ?t = "t\<lparr>ht_table := ?tb, ht_length := ?n\<rparr>"
  have "map (\<lambda>p. rev (filter (\<lambda>b. get_place ?n (bk_hash b) = p) ?bs) @ replicate ?n [] ! p) [0..<?n] = ?tb"
    by simp
  then have "expand_map t = Inr ?t"
    using tb by (simp add: expand_map_def Let_def move_chains_places [OF n(1,2)] table_ok_def)
  moreover have "table_ok eq bytes ?n ?tb"
    unfolding table_ok_def
  proof (intro conjI allI impI)
    fix i assume i: "i < ?n"
    let ?fs = "filter (\<lambda>b. get_place ?n (bk_hash b) = i) ?bs"
    have "sorted_wrt (\<lambda>b b'. \<not> eq (bk_key b) (bk_key b')) ?fs"
      by (rule sorted_wrt_filter) (rule table_buckets(1) [OF tb])
    then have "sorted_wrt (\<lambda>b b'. \<not> eq (bk_key b') (bk_key b)) ?fs"
      by (rule sorted_wrt_mono_rel [rotated]) (use eq_sym in blast)
    then have s: "sorted_wrt (\<lambda>b b'. \<not> eq (bk_key b) (bk_key b')) (rev ?fs)"
      by (simp only: sorted_wrt_rev)
    have h: "bk_hash b = ht_hash bytes (bk_key b)" "get_place ?n (bk_hash b) = i"
      if "b \<in> set (rev ?fs)" for b
      using that table_buckets(2) [OF tb, of b] by (simp_all del: set_concat)
    have "?tb ! i = rev ?fs" using i by simp
    then show "chain_ok eq bytes ?n i (?tb ! i)"
      by (simp only: chain_ok_def) (intro conjI ballI s h)
  qed simp
  moreover have "(\<Sum>p\<leftarrow>[0..<?n]. length (filter (\<lambda>b. get_place ?n (bk_hash b) = p) ?bs)) = length ?bs"
    by (rule sum_filter_places) (rule get_place_less [OF n(3)])
  ultimately have "inv ?t"
    using assms(1) n(3) by (simp add: ht_inv_def length_concat comp_def)
  moreover have "val ?t k = val t k" for k
  proof -
    have "set (concat ?tb) = set ?bs"
      using get_place_less [OF n(3)] by auto
    then have "chain_val eq k (concat ?tb) = Some v \<longleftrightarrow> chain_val eq k ?bs = Some v" for v
      by (simp only: chain_val_unique [OF table_buckets(1) [OF \<open>table_ok eq bytes ?n ?tb\<close>]]
          chain_val_unique [OF table_buckets(1) [OF tb]])
    then have "chain_val eq k (concat ?tb) = chain_val eq k ?bs" by (rule option_eqI)
    moreover have "ht_table ?t = ?tb" by simp
    ultimately show ?thesis
      by (simp only: val_concat [OF \<open>inv ?t\<close>] val_concat [OF assms(1)])
  qed
  ultimately show ?thesis using \<open>expand_map t = Inr ?t\<close> by (auto intro!: exI [of _ ?t])
qed

text \<open>The operations on a well-formed table.\<close>

lemma new_ok: "inv ht_new \<and> val ht_new k = None \<and> ht_capacity ht_new = 0"
proof -
  have l: "len_ok 16" unfolding len_ok_def by (rule exI [of _ 4]) simp
  then have "get_place 16 (ht_hash bytes k) < 16" by (rule get_place_less)
  then show ?thesis
    using l by (simp add: ht_inv_def ht_new_def table_ok_def chain_ok_def ht_val_def sum_list_replicate)
qed

lemma add_no_expand:
  assumes t: "inv t"
  shows "\<exists>t'. (let hash = ht_hash bytes key; index = get_place (ht_length t) hash in
       rbind (ht_chain (ht_table t) index) (\<lambda>ch.
         let found = list_ex (bk_match eq hash key) ch;
             ch = map (\<lambda>b. if bk_match eq hash key b then b\<lparr>bk_val := v\<rparr> else b) ch in
         if \<not> found then
           Inr (t\<lparr>ht_table := (ht_table t)[index := \<lparr>bk_hash = hash, bk_key = key, bk_val = v\<rparr> # ch],
                  ht_capacity := ht_capacity t + 1\<rparr>, found)
         else Inr (t\<lparr>ht_table := (ht_table t)[index := ch]\<rparr>, found)))
     = Inr (t', val t key \<noteq> None) \<and> inv t' \<and>
     (\<forall>k. val t' k = (if eq key k then Some v else val t k)) \<and>
     ht_capacity t' = ht_capacity t + (if val t key = None then 1 else 0)"
proof -
  let ?h = "ht_hash bytes key"
  let ?i = "get_place (ht_length t) ?h"
  let ?ch = "ht_table t ! ?i"
  let ?m = "map (\<lambda>b. if bk_match eq ?h key b then b\<lparr>bk_val := v\<rparr> else b) ?ch"
  note ch = inv_chain [OF t, of key]
  have ex: "list_ex (bk_match eq ?h key) ?ch \<longleftrightarrow> val t key \<noteq> None"
    using chain_match [OF ch(3)] by (auto simp: ht_val_def chain_val_None list_ex_iff)
  note same = chain_val_eq [of key _ ?ch]
  have ok: "chain_ok eq bytes (ht_length t) ?i ?m"
    using ch(3) by (subst chain_ok_keys [of _ ?ch]) (auto simp: comp_def)
  show ?thesis
  proof (cases "val t key = None")
    case True
    let ?n = "\<lparr>bk_hash = ?h, bk_key = key, bk_val = v\<rparr>"
    have no: "\<not> eq key (bk_key b)" if "b \<in> set ?ch" for b
      using True that eq_sym by (auto simp: ht_val_def chain_val_None)
    have "\<forall>b\<in>set ?m. \<not> eq key (bk_key b)" using no by auto
    then have "chain_ok eq bytes (ht_length t) ?i (?n # ?m)"
      using ok by (simp add: chain_ok_Cons)
    moreover have "chain_val eq k (?n # ?m) = (if eq key k then Some v else chain_val eq k ?ch)" for k
      using chain_val_map [OF ch(3)] by simp
    ultimately have "inv (t\<lparr>ht_table := (ht_table t)[?i := ?n # ?m], ht_capacity := ht_capacity t + 1\<rparr>) \<and>
       val (t\<lparr>ht_table := (ht_table t)[?i := ?n # ?m], ht_capacity := ht_capacity t + 1\<rparr>) k
         = (if eq key k then Some v else val t k)" for k
      by (intro update_chain [OF t, where d = 0 and d' = 1]) auto
    then show ?thesis using True ch(1) ex by (auto simp: Let_def)
  next
    case False
    then obtain w where w: "chain_val eq key ?ch = Some w" by (auto simp: ht_val_def)
    have "chain_val eq k ?m = (if eq key k then Some v else chain_val eq k ?ch)" for k
      using chain_val_map [OF ch(3)] same [of k] w by auto
    then have "inv (t\<lparr>ht_table := (ht_table t)[?i := ?m], ht_capacity := ht_capacity t\<rparr>) \<and>
       val (t\<lparr>ht_table := (ht_table t)[?i := ?m], ht_capacity := ht_capacity t\<rparr>) k
         = (if eq key k then Some v else val t k)" for k
      by (intro update_chain [OF t, where d = 0 and d' = 0] ok) auto
    then show ?thesis using False ch(1) ex by (auto simp: Let_def)
  qed
qed

lemma add_ok:
  assumes t: "inv t" and "ht_capacity t < 2 ^ 29"
  shows "\<exists>t'. ht_add eq bytes t key v = Inr (t', val t key \<noteq> None) \<and> inv t' \<and>
     (\<forall>k. val t' k = (if eq key k then Some v else val t k)) \<and>
     ht_capacity t' = ht_capacity t + (if val t key = None then 1 else 0)"
proof -
  obtain t1 where t1: "(if ht_loaded t then expand_map t else Inr t) = Inr t1"
    "inv t1" "val t1 = val t" "ht_capacity t1 = ht_capacity t"
  proof (cases "ht_loaded t")
    case True
    then have "ht_length t < 2 ^ 31"
      using assms by (intro ht_loaded_room) (auto simp: ht_inv_def)
    with True expand_ok [OF t] that show ?thesis by auto
  qed (use t that in auto)
  show ?thesis
    using add_no_expand [OF t1(2), of key v] unfolding ht_add_def t1(1) rbind_simps t1(3,4) .
qed

lemma replace_ok:
  assumes t: "inv t"
  shows "\<exists>t'. ht_replace eq bytes t key v = Inr (t', val t key \<noteq> None) \<and> inv t' \<and>
     (\<forall>k. val t' k = (if eq key k then map_option (\<lambda>_. v) (val t k) else val t k)) \<and>
     ht_capacity t' = ht_capacity t"
proof -
  let ?h = "ht_hash bytes key"
  let ?i = "get_place (ht_length t) ?h"
  let ?ch = "ht_table t ! ?i"
  let ?m = "set_first (bk_match eq ?h key) (\<lambda>b. b\<lparr>bk_val := v\<rparr>) ?ch"
  note ch = inv_chain [OF t, of key]
  have find: "map_option bk_val (find (bk_match eq ?h key) ?ch) = val t key"
    using find_chain [OF ch(3)] by (simp add: ht_val_def)
  show ?thesis
  proof (cases "val t key")
    case None
    have "val t k = None" if "eq key k" for k
      using None that eq_hash [OF that] eq_sym eq_trans
      unfolding ht_val_def chain_val_None by metis
    with None find ch(1) t show ?thesis
      by (auto simp: ht_replace_def get_bucket_def Let_def)
  next
    case (Some w)
    with find obtain b where b: "find (bk_match eq ?h key) ?ch = Some b" by auto
    have same: "chain_val eq k ?ch = Some w" if "eq key k" for k
      using Some by (simp add: ht_val_def chain_val_eq [OF that])
    have vk: "val t k = Some w" if "eq key k" for k
      using same [OF that] eq_hash [OF that] by (simp add: ht_val_def)
    have "chain_ok eq bytes (ht_length t) ?i ?m"
      using ch(3) by (subst chain_ok_keys [of _ ?ch]) (simp_all add: set_first_keys)
    moreover have "length ?m = length ?ch" by (metis length_map set_first_keys(1))
    moreover have "chain_val eq k ?m = (if eq key k then Some v else chain_val eq k ?ch)" for k
      using chain_val_set_first [OF ch(3)] same [of k] by auto
    ultimately have "inv (t\<lparr>ht_table := (ht_table t)[?i := ?m], ht_capacity := ht_capacity t\<rparr>) \<and>
       val (t\<lparr>ht_table := (ht_table t)[?i := ?m], ht_capacity := ht_capacity t\<rparr>) k
         = (if eq key k then Some v else val t k)" for k
      by (intro update_chain [OF t, where d = 0 and d' = 0]) auto
    then show ?thesis
      using Some b ch(1) vk by (auto simp: ht_replace_def get_bucket_def Let_def)
  qed
qed

lemma steal_bucket_ok:
  assumes t: "inv t"
  shows "\<exists>t' r. steal_bucket eq t (ht_hash bytes key) key = Inr (t', r) \<and>
     map_option bk_val r = val t key \<and>
     (let t' = t'\<lparr>ht_capacity := ht_capacity t' - (if r = None then 0 else 1)\<rparr> in
      inv t' \<and> (\<forall>k. val t' k = (if eq key k then None else val t k)) \<and>
      ht_capacity t' + (if r = None then 0 else 1) = ht_capacity t)"
proof -
  let ?h = "ht_hash bytes key"
  let ?i = "get_place (ht_length t) ?h"
  let ?ch = "ht_table t ! ?i"
  note ch = inv_chain [OF t, of key]
  obtain ch' r where st: "steal_from eq ?h key ?ch = (ch', r)" by fastforce
  let ?d = "if r = None then 0 else 1 :: nat"
  have len: "length ch' + ?d = length ?ch + 0" using steal_from_length [OF st] by simp
  have "length ?ch \<le> sum_list (map length (ht_table t))"
    using ch(2) by (simp add: member_le_sum_list)
  then have cap: "ht_capacity t - ?d + ?d = ht_capacity t"
    using len t by (auto simp: ht_inv_def)
  let ?t = "t\<lparr>ht_table := (ht_table t)[?i := ch'], ht_capacity := ht_capacity t - ?d\<rparr>"
  have "inv ?t \<and> val ?t k = (if eq key k then None else val t k)" for k
    using steal_from_ok [OF st ch(3)] steal_chain(2) [OF ch(3) st] len cap
    by (intro update_chain [OF t, where d = ?d and d' = 0]) simp_all
  moreover have "map_option bk_val r = val t key"
    using steal_chain(1) [OF ch(3) st] by (simp add: ht_val_def)
  ultimately show ?thesis
    using ch(1) st cap by (simp add: steal_bucket_def Let_def)
qed

lemma steal_ok:
  assumes t: "inv t"
  shows "\<exists>t'. ht_steal eq bytes t key = Inr (t', val t key) \<and> inv t' \<and>
     (\<forall>k. val t' k = (if eq key k then None else val t k)) \<and>
     ht_capacity t' + (if val t key = None then 0 else 1) = ht_capacity t"
proof -
  obtain t' r where t': "steal_bucket eq t (ht_hash bytes key) key = Inr (t', r)"
    "map_option bk_val r = val t key"
    "let t' = t'\<lparr>ht_capacity := ht_capacity t' - (if r = None then 0 else 1)\<rparr> in
      inv t' \<and> (\<forall>k. val t' k = (if eq key k then None else val t k)) \<and>
      ht_capacity t' + (if r = None then 0 else 1) = ht_capacity t"
    using steal_bucket_ok [OF t, of key] by blast
  show ?thesis
    using t' t'(2) [symmetric] by (cases r) (simp_all add: ht_steal_def Let_def)
qed

lemma remove_ok:
  assumes t: "inv t"
  shows "\<exists>t'. ht_remove eq bytes t key = Inr (t', val t key \<noteq> None) \<and> inv t' \<and>
     (\<forall>k. val t' k = (if eq key k then None else val t k)) \<and>
     ht_capacity t' + (if val t key = None then 0 else 1) = ht_capacity t"
proof -
  obtain t' r where t': "steal_bucket eq t (ht_hash bytes key) key = Inr (t', r)"
    "map_option bk_val r = val t key"
    "let t' = t'\<lparr>ht_capacity := ht_capacity t' - (if r = None then 0 else 1)\<rparr> in
      inv t' \<and> (\<forall>k. val t' k = (if eq key k then None else val t k)) \<and>
      ht_capacity t' + (if r = None then 0 else 1) = ht_capacity t"
    using steal_bucket_ok [OF t, of key] by blast
  show ?thesis
    using t' t'(2) [symmetric] by (cases r) (simp_all add: ht_remove_def Let_def)
qed

end

section \<open>Hardware addresses as keys\<close>

interpretation hw_key: hash_key hw_eq hw_data
  by unfold_locales (simp_all add: hw_eq_iff)

text \<open>The calls of a client, what they return, and what a finite map would return.\<close>

datatype 'v hcall =
    HGet hw_address
  | HContains hw_address
  | HAdd hw_address 'v
  | HReplace hw_address 'v
  | HRemove hw_address
  | HSteal hw_address
  | HSize

datatype 'v hret = RFound bool | RVal "'v option" | RSize nat

abbreviation ret_of :: "('a \<Rightarrow> 'b) \<Rightarrow> ('t \<times> 'a) result \<Rightarrow> ('t \<times> 'b) result" where
  "ret_of f r \<equiv> rbind r (\<lambda>(t, x). Inr (t, f x))"

fun ht_call :: "(hw_address, 'v) ht \<Rightarrow> 'v hcall \<Rightarrow> ((hw_address, 'v) ht \<times> 'v hret) result" where
  "ht_call t (HGet k) = rbind (ht_get hw_eq hw_data t k) (\<lambda>v. Inr (t, RVal v))"
| "ht_call t (HContains k) = rbind (ht_contains hw_eq hw_data t k) (\<lambda>b. Inr (t, RFound b))"
| "ht_call t (HAdd k v) = ret_of RFound (ht_add hw_eq hw_data t k v)"
| "ht_call t (HReplace k v) = ret_of RFound (ht_replace hw_eq hw_data t k v)"
| "ht_call t (HRemove k) = ret_of RFound (ht_remove hw_eq hw_data t k)"
| "ht_call t (HSteal k) = ret_of RVal (ht_steal hw_eq hw_data t k)"
| "ht_call t HSize = Inr (t, RSize (ht_capacity t))"

fun ht_calls :: "(hw_address, 'v) ht \<Rightarrow> 'v hcall list \<Rightarrow>
    ((hw_address, 'v) ht \<times> 'v hret list) result" where
  "ht_calls t [] = Inr (t, [])"
| "ht_calls t (c # cs) = rbind (ht_call t c) (\<lambda>(t, r). ret_of (\<lambda>rs. r # rs) (ht_calls t cs))"

fun map_call :: "(hw_address \<rightharpoonup> 'v) \<Rightarrow> 'v hcall \<Rightarrow> (hw_address \<rightharpoonup> 'v) \<times> 'v hret" where
  "map_call m (HGet k) = (m, RVal (m k))"
| "map_call m (HContains k) = (m, RFound (k \<in> dom m))"
| "map_call m (HAdd k v) = (m(k \<mapsto> v), RFound (k \<in> dom m))"
| "map_call m (HReplace k v) = (if k \<in> dom m then m(k \<mapsto> v) else m, RFound (k \<in> dom m))"
| "map_call m (HRemove k) = (m(k := None), RFound (k \<in> dom m))"
| "map_call m (HSteal k) = (m(k := None), RVal (m k))"
| "map_call m HSize = (m, RSize (card (dom m)))"

fun map_calls :: "(hw_address \<rightharpoonup> 'v) \<Rightarrow> 'v hcall list \<Rightarrow> 'v hret list" where
  "map_calls m [] = []"
| "map_calls m (c # cs) = (let (m, r) = map_call m c in r # map_calls m cs)"

definition ht_models :: "(hw_address, 'v) ht \<Rightarrow> (hw_address \<rightharpoonup> 'v) \<Rightarrow> bool" where
  "ht_models t m \<longleftrightarrow> ht_inv hw_eq hw_data t \<and> ht_val hw_eq hw_data t = m \<and> finite (dom m) \<and>
     ht_capacity t = card (dom m)"

lemma card_dom_upd:
  "finite (dom m) \<Longrightarrow> card (dom (m(k \<mapsto> v))) = card (dom m) + (if m k = None then 1 else 0)"
  by (simp add: card_insert_if domIff)

lemma card_dom_del:
  assumes "finite (dom m)"
  shows "card (dom (m(k := None))) + (if m k = None then 0 else 1) = card (dom m)"
proof (cases "k \<in> dom m")
  case True
  then have "m k \<noteq> None" by (simp add: domIff)
  then show ?thesis using card_Suc_Diff1 [OF assms True] by simp
next
  case False
  then show ?thesis by (simp add: domIff)
qed

lemma ht_call_models:
  assumes "ht_models t m" and "card (dom m) < 2 ^ 29"
  shows "\<exists>t'. ht_call t c = Inr (t', snd (map_call m c)) \<and> ht_models t' (fst (map_call m c))"
proof -
  have inv: "ht_inv hw_eq hw_data t" and val: "ht_val hw_eq hw_data t = m"
    and fin: "finite (dom m)" and cap: "ht_capacity t = card (dom m)"
    using assms(1) by (simp_all add: ht_models_def)
  show ?thesis
  proof (cases c)
    case (HGet k)
    then show ?thesis using hw_key.get_ok [OF inv] assms(1) by (simp add: val)
  next
    case (HContains k)
    then show ?thesis using hw_key.contains_ok [OF inv] assms(1) by (simp add: val domIff)
  next
    case (HAdd k v)
    from hw_key.add_ok [OF inv, of k v] obtain t' where t':
      "ht_add hw_eq hw_data t k v = Inr (t', m k \<noteq> None)" "ht_inv hw_eq hw_data t'"
      "\<And>k'. ht_val hw_eq hw_data t' k' = (if k = k' then Some v else m k')"
      "ht_capacity t' = card (dom m) + (if m k = None then 1 else 0)"
      using assms(2) by (auto simp: val cap hw_eq_iff)
    moreover have "ht_val hw_eq hw_data t' = m(k \<mapsto> v)" using t'(3) by (auto simp: fun_eq_iff)
    ultimately show ?thesis
      using HAdd fin card_dom_upd [OF fin, of k v] by (simp add: ht_models_def domIff)
  next
    case (HReplace k v)
    from hw_key.replace_ok [OF inv, of k v] obtain t' where t':
      "ht_replace hw_eq hw_data t k v = Inr (t', m k \<noteq> None)" "ht_inv hw_eq hw_data t'"
      "\<And>k'. ht_val hw_eq hw_data t' k' = (if k = k' then map_option (\<lambda>_. v) (m k') else m k')"
      "ht_capacity t' = card (dom m)"
      by (auto simp: val cap hw_eq_iff)
    moreover have "ht_val hw_eq hw_data t' = (if k \<in> dom m then m(k \<mapsto> v) else m)"
      using t'(3) by (auto simp: fun_eq_iff domIff)
    moreover have "k \<in> dom m \<Longrightarrow> insert k (dom m) = dom m" by blast
    ultimately show ?thesis
      using HReplace fin by (auto simp: ht_models_def domIff)
  next
    case (HRemove k)
    from hw_key.remove_ok [OF inv, of k] obtain t' where t':
      "ht_remove hw_eq hw_data t k = Inr (t', m k \<noteq> None)" "ht_inv hw_eq hw_data t'"
      "\<And>k'. ht_val hw_eq hw_data t' k' = (if k = k' then None else m k')"
      "ht_capacity t' + (if m k = None then 0 else 1) = card (dom m)"
      by (auto simp: val cap hw_eq_iff)
    moreover have "ht_val hw_eq hw_data t' = m(k := None)" using t'(3) by (auto simp: fun_eq_iff)
    moreover have "ht_capacity t' = card (dom (m(k := None)))"
      using t'(4) card_dom_del [OF fin, of k] by linarith
    ultimately show ?thesis
      using HRemove fin by (simp add: ht_models_def domIff)
  next
    case (HSteal k)
    from hw_key.steal_ok [OF inv, of k] obtain t' where t':
      "ht_steal hw_eq hw_data t k = Inr (t', m k)" "ht_inv hw_eq hw_data t'"
      "\<And>k'. ht_val hw_eq hw_data t' k' = (if k = k' then None else m k')"
      "ht_capacity t' + (if m k = None then 0 else 1) = card (dom m)"
      by (auto simp: val cap hw_eq_iff)
    moreover have "ht_val hw_eq hw_data t' = m(k := None)" using t'(3) by (auto simp: fun_eq_iff)
    moreover have "ht_capacity t' = card (dom (m(k := None)))"
      using t'(4) card_dom_del [OF fin, of k] by linarith
    ultimately show ?thesis
      using HSteal fin by (simp add: ht_models_def domIff)
  next
    case HSize
    then show ?thesis using assms(1) by (simp add: cap)
  qed
qed

lemma map_call_size: "finite (dom m) \<Longrightarrow> card (dom (fst (map_call m c))) \<le> Suc (card (dom m))"
  by (cases c) (auto simp: card_insert_if card_Diff_singleton_if insert_absorb domIff)

lemma ht_calls_models:
  assumes "ht_models t m" and "card (dom m) + length cs \<le> 2 ^ 29"
  shows "\<exists>t'. ht_calls t cs = Inr (t', map_calls m cs)"
  using assms
proof (induction cs arbitrary: t m)
  case (Cons c cs)
  obtain t1 where t1: "ht_call t c = Inr (t1, snd (map_call m c))" "ht_models t1 (fst (map_call m c))"
    using ht_call_models [OF Cons.prems(1)] Cons.prems(2) by fastforce
  have "card (dom (fst (map_call m c))) \<le> Suc (card (dom m))"
    using map_call_size [of m c] Cons.prems(1) by (simp add: ht_models_def)
  then have "card (dom (fst (map_call m c))) + length cs \<le> 2 ^ 29" using Cons.prems(2) by simp
  with Cons.IH [OF t1(2)] t1(1) show ?case by (auto simp: case_prod_beta Let_def)
qed simp

lemma ht_models_new: "ht_models ht_new Map.empty"
  using hw_key.new_ok by (auto simp: ht_models_def fun_eq_iff)

text \<open>C12. Keyed by hardware addresses, the hash table behaves as a finite map: any sequence of
  up to \<open>2 ^ 29\<close> calls on a new table, through every expansion, touches no memory outside
  the table and returns what the map returns, sizes included.\<close>

theorem hash_table_refines_map:
  assumes "length cs \<le> 2 ^ 29"
  shows "\<exists>t. ht_calls ht_new cs = Inr (t, map_calls Map.empty cs)"
  using ht_calls_models [OF ht_models_new] assms by simp

theorem hash_table_refines_map_witness:
  "\<exists>t. ht_calls ht_new [HAdd hw_zero 1, HAdd hw_zero (2 :: nat), HSteal hw_zero, HSize]
     = Inr (t, [RFound False, RFound True, RVal (Some 2), RSize 0])"
  using hash_table_refines_map [of "[HAdd hw_zero 1, HAdd hw_zero (2 :: nat), HSteal hw_zero, HSize]"]
  by simp

lemma ht_delete_all: "sum_list (map length chs) \<le> cap \<Longrightarrow> ht_delete cap chs = concat chs"
  by (induction cap chs rule: ht_delete.induct) (auto simp: concat_eq_Nil_conv)

text \<open>The destructor deletes every bucket of a well-formed table: counting down from
  \<open>capacity\<close> never stops it early.\<close>

theorem hash_table_destroy:
  assumes "ht_inv eq bytes t"
  shows "ht_destroy t = concat (ht_table t) \<and> length (ht_destroy t) = ht_capacity t"
  using assms ht_delete_all [of "ht_table t" "ht_capacity t"]
  by (simp add: ht_destroy_def ht_inv_def table_ok_def length_concat)

theorem hash_table_destroy_witness:
  "ht_destroy (ht_new :: (hw_address, nat) ht) = [] \<and> ht_capacity (ht_new :: (hw_address, nat) ht) = 0"
proof -
  have "ht_inv hw_eq hw_data (ht_new :: (hw_address, nat) ht)" using hw_key.new_ok by blast
  from hash_table_destroy [OF this] show ?thesis by (simp add: ht_new_def)
qed

end
