(* ===== verification/Arp.thy ===== *)
theory Arp
  imports Address
begin

text \<open>
  \<open>net/arputil.c\<close>: building and recognising ARP frames of 42 bytes (Ethernet header of 14,
  ARP header of 8, addresses of 20), and \<open>TrafficCapture::handlePacket\<close>, which looks for
  replies among captured packets. IP addresses are \<open>uint32_t\<close> in network order, as the code
  passes them around.
\<close>

section \<open>Frames\<close>

abbreviation ARP_IP4_SIZE :: nat where "ARP_IP4_SIZE \<equiv> 42"

definition ETH_P_ARP :: u16 where "ETH_P_ARP = 0x0806"
definition ETH_P_IP :: u16 where "ETH_P_IP = 0x0800"
definition ARPHRD_ETHER :: u16 where "ARPHRD_ETHER = 1"
definition ARPOP_REQUEST :: u16 where "ARPOP_REQUEST = 1"
definition ARPOP_REPLY :: u16 where "ARPOP_REPLY = 2"

lemmas arp_consts = ETH_P_ARP_def ETH_P_IP_def ARPHRD_ETHER_def ARPOP_REQUEST_def ARPOP_REPLY_def

definition EtherBroadcast :: hw_address where
  "EtherBroadcast = HwAddress 0xFF 0xFF 0xFF 0xFF 0xFF 0xFF"

text \<open>Stores at offsets of the buffer, in order.\<close>

fun mem_writes :: "byte list \<Rightarrow> (nat \<times> byte list) list \<Rightarrow> byte list result" where
  "mem_writes m [] = Inr m"
| "mem_writes m ((off, bs) # ws) = rbind (mem_write m off bs) (\<lambda>m. mem_writes m ws)"

definition arp_reply_create ::
  "byte list \<Rightarrow> u32 \<Rightarrow> hw_address \<Rightarrow> u32 \<Rightarrow> hw_address \<Rightarrow> byte list result" where
  "arp_reply_create buffer my_ip4 my_hw to_ip4 to_hw =
     rbind (rassert (my_ip4 \<noteq> to_ip4)) (\<lambda>_.
       mem_writes buffer
         [(0, hw_data to_hw),
          (6, hw_data my_hw),
          (12, le_bytes16 (htons ETH_P_ARP)),
          (14, le_bytes16 (htons ARPHRD_ETHER)),
          (16, le_bytes16 (htons ETH_P_IP)),
          (18, [6]),
          (19, [4]),
          (20, le_bytes16 (htons ARPOP_REPLY)),
          (22, hw_data my_hw),
          (28, le_bytes32 my_ip4),
          (32, hw_data to_hw),
          (38, le_bytes32 to_ip4)])"

definition arp_request_create ::
  "byte list \<Rightarrow> u32 \<Rightarrow> hw_address \<Rightarrow> u32 \<Rightarrow> byte list result" where
  "arp_request_create buffer my_ip4 my_hw to_ip4 =
     mem_writes buffer
       [(0, hw_data EtherBroadcast),
        (6, hw_data my_hw),
        (12, le_bytes16 (htons ETH_P_ARP)),
        (14, le_bytes16 (htons ARPHRD_ETHER)),
        (16, le_bytes16 (htons ETH_P_IP)),
        (18, [6]),
        (19, [4]),
        (20, le_bytes16 (htons ARPOP_REQUEST)),
        (22, hw_data my_hw),
        (28, le_bytes32 my_ip4),
        (32, replicate 6 0),
        (38, le_bytes32 to_ip4)]"

definition arp_request_set_to_ip :: "byte list \<Rightarrow> u32 \<Rightarrow> byte list result" where
  "arp_request_set_to_ip buffer to_ip4 = mem_write buffer 38 (le_bytes32 to_ip4)"

text \<open>
  \<open>arp_is_reply\<close> runs its tests from the left and stops at the first that holds. \<open>length\<close>
  is what the caller says; the buffer may be shorter. The result is what it stores through
  its two outputs.
\<close>

fun first_test :: "bool result list \<Rightarrow> bool result" where
  "first_test [] = Inr False"
| "first_test (t # ts) = rbind t (\<lambda>b. if b then Inr True else first_test ts)"

definition field_differs :: "byte list \<Rightarrow> nat \<Rightarrow> byte list \<Rightarrow> bool result" where
  "field_differs m off bs = rbind (mem_read m off (length bs)) (\<lambda>x. Inr (memcmp x bs \<noteq> 0))"

definition arp_is_reply ::
  "byte list \<Rightarrow> nat \<Rightarrow> hw_address \<Rightarrow> (u32 \<times> byte list) option result" where
  "arp_is_reply buffer len current_hw =
     (if len < ARP_IP4_SIZE then Inr None
      else
        let hw = hw_data current_hw; neg = (\<lambda>t. rbind t (\<lambda>b. Inr (\<not> b))) in
        rbind (first_test
          [neg (field_differs buffer 6 hw),
           field_differs buffer 0 hw,
           rbind (mem_read buffer 12 2) (\<lambda>t. Inr (le_word16 t \<noteq> ntohs ETH_P_ARP)),
           rbind (mem_read buffer 20 2) (\<lambda>t. Inr (le_word16 t \<noteq> ntohs ARPOP_REPLY)),
           neg (field_differs buffer 22 hw),
           field_differs buffer 32 hw]) (\<lambda>no.
        if no then Inr None
        else
          rbind (mem_read buffer 28 4) (\<lambda>ip.
          rbind (mem_read buffer 22 6) (\<lambda>sha. Inr (Some (le_word32 ip, sha))))))"

text \<open>
  \<open>handlePacket\<close>: \<open>data\<close> holds the \<open>caplen\<close> bytes that were captured, \<open>len\<close> is the length
  the packet had on the wire. The reply found is only logged.
\<close>

definition handlePacket ::
  "hw_address \<Rightarrow> nat \<Rightarrow> byte list \<Rightarrow> (u32 \<times> byte list) option result" where
  "handlePacket hw len data = arp_is_reply data len hw"

section \<open>What the frames contain\<close>

definition arp_frame ::
  "hw_address \<Rightarrow> hw_address \<Rightarrow> u16 \<Rightarrow> u32 \<Rightarrow> byte list \<Rightarrow> u32 \<Rightarrow> byte list" where
  "arp_frame dhost my_hw oper sip tha tip =
     hw_data dhost @ hw_data my_hw @ rev (le_bytes16 ETH_P_ARP) @ rev (le_bytes16 ARPHRD_ETHER)
     @ rev (le_bytes16 ETH_P_IP) @ [6, 4] @ rev (le_bytes16 oper) @ hw_data my_hw
     @ le_bytes32 sip @ tha @ le_bytes32 tip"

lemma length_arp_frame [simp]: "length tha = 6 \<Longrightarrow> length (arp_frame d m p s tha t) = 42"
  by (simp add: arp_frame_def)

text \<open>Stores that follow one another to the end of the buffer.\<close>

fun packed :: "nat \<Rightarrow> (nat \<times> byte list) list \<Rightarrow> bool" where
  "packed off [] = True"
| "packed off ((p, bs) # ws) = (p = off \<and> packed (off + length bs) ws)"

lemma mem_writes_packed:
  "packed off ws \<Longrightarrow> off + length (concat (map snd ws)) = length m \<Longrightarrow>
   mem_writes m ws = Inr (take off m @ concat (map snd ws))"
proof (induction ws arbitrary: off m)
  case (Cons w ws)
  obtain bs where w: "w = (off, bs)" using Cons.prems(1) by (cases w) simp
  let ?m = "splice m off bs"
  have "take (off + length bs) ?m = take off m @ bs"
    using Cons.prems(2) w by (simp add: splice_def)
  moreover have "mem_writes ?m ws = Inr (take (off + length bs) ?m @ concat (map snd ws))"
    using Cons.prems w by (intro Cons.IH) simp_all
  ultimately show ?case using Cons.prems(2) w by (simp add: mem_write_def)
qed simp

lemma arp_request_frame:
  assumes "length buffer = ARP_IP4_SIZE"
  shows "arp_request_create buffer my_ip4 my_hw to_ip4
    = Inr (arp_frame EtherBroadcast my_hw ARPOP_REQUEST my_ip4 (replicate 6 0) to_ip4)"
  unfolding arp_request_create_def
  by (subst mem_writes_packed [where off = 0]) (simp_all add: assms arp_frame_def)

lemma arp_reply_frame:
  assumes "length buffer = ARP_IP4_SIZE" and "my_ip4 \<noteq> to_ip4"
  shows "arp_reply_create buffer my_ip4 my_hw to_ip4 to_hw
    = Inr (arp_frame to_hw my_hw ARPOP_REPLY my_ip4 (hw_data to_hw) to_ip4)"
  unfolding arp_reply_create_def
  by (subst mem_writes_packed [where off = 0]) (simp_all add: assms arp_frame_def)

lemma arp_set_to_ip_frame:
  assumes "length tha = 6"
  shows "arp_request_set_to_ip (arp_frame d m p s tha t) t' = Inr (arp_frame d m p s tha t')"
  using assms by (simp add: arp_request_set_to_ip_def mem_write_def splice_def arp_frame_def)

text \<open>What \<open>arp_is_reply\<close> reads from such a frame.\<close>

lemma arp_frame_fields:
  assumes "length tha = 6"
  shows "mem_read (arp_frame d m p s tha t) 0 6 = Inr (hw_data d)" "mem_read (arp_frame d m p s tha t) 6 6 = Inr (hw_data m)"
    "mem_read (arp_frame d m p s tha t) 12 2 = Inr (le_bytes16 (htons ETH_P_ARP))"
    "mem_read (arp_frame d m p s tha t) 20 2 = Inr (le_bytes16 (htons p))" "mem_read (arp_frame d m p s tha t) 22 6 = Inr (hw_data m)"
    "mem_read (arp_frame d m p s tha t) 28 4 = Inr (le_bytes32 s)" "mem_read (arp_frame d m p s tha t) 32 6 = Inr tha"
  using assms by (simp_all add: mem_read_def arp_frame_def)

lemma arp_is_reply_frame:
  assumes "length tha = 6"
  shows "arp_is_reply (arp_frame d m p s tha t) ARP_IP4_SIZE hw =
    Inr (if d = hw \<and> m \<noteq> hw \<and> p = ARPOP_REPLY \<and> tha = hw_data hw then Some (s, hw_data m) else None)"
  using assms
  by (auto simp: arp_is_reply_def arp_frame_fields field_differs_def memcmp_eq_0 hw_data_inj Let_def)

text \<open>What it reads of any frame that holds all of its fields, and what it makes of them.\<close>

lemma ether_types: "rev (le_bytes16 ETH_P_ARP) = [8, 6]" "rev (le_bytes16 ARPOP_REPLY) = [0, 2]"
  by (simp_all add: arp_consts le_bytes16_def drop_bit_eq_div)

lemma le_word16_eq: "length bs = 2 \<Longrightarrow> le_word16 bs = w \<longleftrightarrow> bs = le_bytes16 w"
  using le_bytes16_word le_word16_bytes by metis

lemma arp_is_reply_parts:
  assumes "length d = 6" "length src = 6" "length ty = 2" "length x = 6" "length op = 2" "length sha = 6" "length ip = 4"
    "length tha = 6" and "ARP_IP4_SIZE \<le> len"
  shows "arp_is_reply (d @ src @ ty @ x @ op @ sha @ ip @ tha @ rest) len hw =
    Inr (if src \<noteq> hw_data hw \<and> d = hw_data hw \<and> ty = [8, 6] \<and> op = [0, 2] \<and> sha \<noteq> hw_data hw \<and> tha = hw_data hw
         then Some (le_word32 ip, sha) else None)"
proof -
  let ?f = "d @ src @ ty @ x @ op @ sha @ ip @ tha @ rest"
  have "mem_read ?f 0 6 = Inr d" "mem_read ?f 6 6 = Inr src" "mem_read ?f 12 2 = Inr ty" "mem_read ?f 20 2 = Inr op"
    "mem_read ?f 22 6 = Inr sha" "mem_read ?f 28 4 = Inr ip" "mem_read ?f 32 6 = Inr tha"
    using assms by (simp_all add: mem_read_def)
  then show ?thesis
    using assms(9) by (auto simp: arp_is_reply_def field_differs_def memcmp_eq_0 assms(1-8) le_word16_eq ether_types Let_def)
qed

lemma frame_parts:
  assumes "38 \<le> length f"
  obtains d src ty x op sha ip tha rest where "f = d @ src @ ty @ x @ op @ sha @ ip @ tha @ rest"
    "length d = 6" "length src = 6" "length ty = 2" "length x = 6" "length op = 2" "length sha = 6" "length ip = 4"
    "length tha = 6"
proof (rule that)
  show "f = take 6 f @ take 6 (drop 6 f) @ take 2 (drop 12 f) @ take 6 (drop 14 f) @ take 2 (drop 20 f) @
      take 6 (drop 22 f) @ take 4 (drop 28 f) @ take 6 (drop 32 f) @ drop 38 f"
    using append_take_drop_id [of 6 f] append_take_drop_id [of 6 "drop 6 f"] append_take_drop_id [of 2 "drop 12 f"]
      append_take_drop_id [of 6 "drop 14 f"] append_take_drop_id [of 2 "drop 20 f"] append_take_drop_id [of 6 "drop 22 f"]
      append_take_drop_id [of 4 "drop 28 f"] append_take_drop_id [of 6 "drop 32 f"]
    by simp
qed (use assms in simp_all)

text \<open>The replies it accepts, to the byte.\<close>

lemma arp_reply_format:
  assumes "ARP_IP4_SIZE \<le> len" "38 \<le> length f"
  shows "arp_is_reply f len hw = Inr (Some (ip, sha)) \<longleftrightarrow>
    (\<exists>src x rest. f = hw_data hw @ src @ [8, 6] @ x @ [0, 2] @ sha @ le_bytes32 ip @ hw_data hw @ rest \<and>
       length src = 6 \<and> length x = 6 \<and> length sha = 6 \<and> src \<noteq> hw_data hw \<and> sha \<noteq> hw_data hw)"
    (is "?l = ?r")
proof
  assume l: ?l
  obtain d src ty x op s i tha rest where f: "f = d @ src @ ty @ x @ op @ s @ i @ tha @ rest"
    "length d = 6" "length src = 6" "length ty = 2" "length x = 6" "length op = 2" "length s = 6" "length i = 4" "length tha = 6"
    using frame_parts [OF assms(2)] .
  then have "src \<noteq> hw_data hw" "d = hw_data hw" "ty = [8, 6]" "op = [0, 2]" "s \<noteq> hw_data hw" "tha = hw_data hw"
    "ip = le_word32 i" "sha = s"
    using l arp_is_reply_parts [OF f(2-9) assms(1), of rest hw] by (auto split: if_splits)
  then show ?r using f le_bytes32_word [of i] by auto
next
  assume ?r
  then obtain src x rest where f: "f = hw_data hw @ src @ [8, 6] @ x @ [0, 2] @ sha @ le_bytes32 ip @ hw_data hw @ rest"
    "length src = 6" "length x = 6" "length sha = 6" "src \<noteq> hw_data hw" "sha \<noteq> hw_data hw" by blast
  then show ?l
    using arp_is_reply_parts [of "hw_data hw" src "[8, 6]" x "[0, 2]" sha "le_bytes32 ip" "hw_data hw" len rest hw] assms(1)
    by simp
qed

text \<open>No byte behind the last field it reads is needed, and a shorter length is not looked into.\<close>

lemma arp_is_reply_safe:
  assumes "len < ARP_IP4_SIZE \<or> 38 \<le> length buffer"
  shows "\<exists>r. arp_is_reply buffer len hw = Inr r"
proof (cases "len < ARP_IP4_SIZE")
  case True
  then show ?thesis by (simp add: arp_is_reply_def)
next
  case False
  then have "38 \<le> length buffer" using assms by simp
  from frame_parts [OF this] show ?thesis
    using arp_is_reply_parts [of _ _ _ _ _ _ _ _ len _ hw] False by (metis linorder_not_less)
qed

lemma mem_read_take: "n \<le> length m \<Longrightarrow> mem_read (take n m) off k = (if off + k \<le> n then mem_read m off k else Inl OutOfBounds)"
  by (simp add: mem_read_def take_drop)

section \<open>Properties\<close>

text \<open>C24. \<open>arp_is_reply\<close> takes for a reply to \<open>hw\<close> exactly the frames that are addressed to \<open>hw\<close> and not from it, carry ARP
  and the operation reply, and name \<open>hw\<close> as target and another host as sender, and reports that sender and its IP
  address. The frame one host builds as a reply is one of them for the host it is addressed to and for nobody else; a request
  is one for nobody.\<close>

theorem arp_roundtrip:
  assumes "length buffer = ARP_IP4_SIZE" and "my_ip4 \<noteq> to_ip4" and "my_hw \<noteq> to_hw"
  shows "(\<exists>f. arp_reply_create buffer my_ip4 my_hw to_ip4 to_hw = Inr f \<and>
      arp_is_reply f ARP_IP4_SIZE to_hw = Inr (Some (my_ip4, hw_data my_hw)) \<and>
      (\<forall>hw. hw \<noteq> to_hw \<longrightarrow> arp_is_reply f ARP_IP4_SIZE hw = Inr None)) \<and>
    (\<exists>g. arp_request_create buffer my_ip4 my_hw to_ip4 = Inr g \<and>
      (\<forall>hw. arp_is_reply g ARP_IP4_SIZE hw = Inr None)) \<and>
    (\<forall>f len hw ip sha. ARP_IP4_SIZE \<le> len \<and> len \<le> length f \<longrightarrow>
      (arp_is_reply f len hw = Inr (Some (ip, sha)) \<longleftrightarrow>
        (\<exists>src x rest. f = hw_data hw @ src @ [8, 6] @ x @ [0, 2] @ sha @ le_bytes32 ip @ hw_data hw @ rest \<and>
           length src = 6 \<and> length x = 6 \<and> length sha = 6 \<and> src \<noteq> hw_data hw \<and> sha \<noteq> hw_data hw)))"
proof (intro conjI allI impI)
  fix f :: "byte list" and len hw ip sha
  assume "ARP_IP4_SIZE \<le> len \<and> len \<le> length f"
  then show "arp_is_reply f len hw = Inr (Some (ip, sha)) \<longleftrightarrow>
        (\<exists>src x rest. f = hw_data hw @ src @ [8, 6] @ x @ [0, 2] @ sha @ le_bytes32 ip @ hw_data hw @ rest \<and>
           length src = 6 \<and> length x = 6 \<and> length sha = 6 \<and> src \<noteq> hw_data hw \<and> sha \<noteq> hw_data hw)"
    by (intro arp_reply_format) auto
qed (use assms in \<open>simp_all add: arp_reply_frame arp_request_frame arp_is_reply_frame arp_consts\<close>)

theorem arp_roundtrip_witness:
  "\<exists>f. arp_reply_create (replicate 42 0) 1 hw_zero 2 EtherBroadcast = Inr f \<and>
    arp_is_reply f ARP_IP4_SIZE EtherBroadcast = Inr (Some (1, hw_data hw_zero))"
  using arp_roundtrip [of "replicate 42 0" 1 2 hw_zero EtherBroadcast]
  by (auto simp: hw_zero_def EtherBroadcast_def)

text \<open>C35. \<open>handlePacket\<close> trusts the length on the wire. A packet that is too short for ARP on the wire, or of
  which the 38 bytes up to the target's IP address were captured, is never read outside its bytes. A reply addressed to
  this host of which fewer were captured is, wherever it was cut off.\<close>

theorem handlePacket_bounds:
  "(len < ARP_IP4_SIZE \<or> 38 \<le> length data \<longrightarrow> (\<exists>r. handlePacket hw len data = Inr r)) \<and>
   (m \<noteq> hw \<and> n < 38 \<and> ARP_IP4_SIZE \<le> len \<longrightarrow>
      handlePacket hw len (take n (arp_frame hw m ARPOP_REPLY s (hw_data hw) t)) = Inl OutOfBounds)"
proof (intro conjI impI)
  assume "m \<noteq> hw \<and> n < 38 \<and> ARP_IP4_SIZE \<le> len"
  then show "handlePacket hw len (take n (arp_frame hw m ARPOP_REPLY s (hw_data hw) t)) = Inl OutOfBounds"
    by (simp add: handlePacket_def arp_is_reply_def field_differs_def mem_read_take arp_frame_fields memcmp_eq_0
        hw_data_inj Let_def)
qed (use arp_is_reply_safe in \<open>simp add: handlePacket_def\<close>)

theorem handlePacket_bounds_witness:
  "handlePacket hw_zero 60 (take 37 (arp_frame hw_zero EtherBroadcast ARPOP_REPLY 1 (hw_data hw_zero) 2)) = Inl OutOfBounds \<and>
   (\<exists>r. handlePacket hw_zero 60 (replicate 38 0) = Inr r)"
  using handlePacket_bounds [of 60 "replicate 38 0" hw_zero EtherBroadcast 37 1 2]
  by (simp add: hw_zero_def EtherBroadcast_def)

end
