(* ===== verification/Poluter.thy ===== *)
theory Poluter
  imports Arp BitCount
begin

text \<open>
  \<open>poluter.cpp\<close>: the survey of the local network by ARP requests, and the spoofing loop.
  Frames handed to \<open>RawPacketHandler::inject\<close> are collected in order; what libpcap answers to a frame
  is a parameter of the survey.
\<close>

section \<open>The survey\<close>

text \<open>
  \<open>(1 << (32 - bitcount(netmask))) - 2\<close> in \<open>int\<close>, converted to \<open>size_t\<close>. A shift by 32 has no
  defined result, and a shift by 31 leaves at most the least \<open>int\<close>, from which 2 cannot be taken.
\<close>

definition survey_count :: "u32 \<Rightarrow> u64 result" where
  "survey_count netmask =
     (let sh = 32 - unat (bitcount netmask) in
      if 32 \<le> sh then Inl BadShift
      else if sh = 31 then Inl SignedOverflow
      else Inr (scast (push_bit sh (1 :: u32) - 2)))"

text \<open>
  Addresses are \<open>uint32_t\<close> in network order, \<open>network\<close> in host order; \<open>network + i + 1\<close> is a
  \<open>size_t\<close> that \<open>htonl\<close> takes back to 32 bits.
\<close>

definition survey_ip :: "u32 \<Rightarrow> u64 \<Rightarrow> u32" where
  "survey_ip network i = htonl (ucast (ucast network + i + 1 :: u64))"

text \<open>The loop from \<open>i\<close> with \<open>n\<close> rounds to go. When \<open>inject\<close> answers \<open>-1\<close>, a message is printed whose format asks
  for two strings and that is given one.\<close>

fun survey_loop :: "(byte list \<Rightarrow> int) \<Rightarrow> u32 \<Rightarrow> u32 \<Rightarrow> nat \<Rightarrow> u64 \<Rightarrow> byte list \<Rightarrow> byte list list result" where
  "survey_loop inject ip4 network 0 i buffer = Inr []"
| "survey_loop inject ip4 network (Suc n) i buffer =
     (let ip4addr = survey_ip network i in
      if ip4addr \<noteq> ip4 then
        rbind (arp_request_set_to_ip buffer ip4addr) (\<lambda>buffer.
        rbind (if inject buffer = - 1 then Inl BadFormat else Inr ()) (\<lambda>_.
        rbind (survey_loop inject ip4 network n (i + 1) buffer) (\<lambda>sent. Inr (buffer # sent))))
      else survey_loop inject ip4 network n (i + 1) buffer)"

definition perform_survey ::
  "(byte list \<Rightarrow> int) \<Rightarrow> u32 \<Rightarrow> u32 \<Rightarrow> hw_address \<Rightarrow> byte list \<Rightarrow> byte list list result" where
  "perform_survey inject ip4 netmask hw junk =
     rbind (arp_request_create junk ip4 hw 0) (\<lambda>buffer.
     rbind (survey_count netmask) (\<lambda>nodeCount.
       let network = ntohl (ip4 AND netmask) in
       survey_loop inject ip4 network (unat nodeCount) 0 buffer))"

section \<open>Spoofing\<close>

text \<open>
  A node is an IP and a hardware address. \<open>gateway\<close> is there only where \<open>hasGW\<close> is set, and
  nothing in \<open>spoof_nodes\<close> sets it, nor does anything fill \<open>nodes\<close>.
\<close>

type_synonym node_address = "u32 \<times> hw_address"

text \<open>A message is a count and a pointer, null in a message just made; copying it copies both.\<close>

record msg_spoof =
  target_count :: nat
  targets :: "node_address list option"

definition msg_spoof_new :: msg_spoof where
  "msg_spoof_new = \<lparr>target_count = 0, targets = None\<rparr>"

text \<open>Making, copying, moving and assigning a message print a line; a move leaves its source as it is. The
  result has what was printed.\<close>

datatype msg_print = CONSTR | COPY | MOVE

definition msg_default :: "msg_spoof \<times> msg_print" where
  "msg_default = (msg_spoof_new, CONSTR)"

definition msg_copy :: "msg_spoof \<Rightarrow> msg_spoof \<times> msg_print" where
  "msg_copy msg = (\<lparr>target_count = target_count msg, targets = targets msg\<rparr>, COPY)"

definition msg_move :: "msg_spoof \<Rightarrow> msg_spoof \<times> msg_print" where
  "msg_move msg = (\<lparr>target_count = target_count msg, targets = targets msg\<rparr>, MOVE)"

definition msg_assign :: "msg_spoof \<Rightarrow> msg_spoof \<Rightarrow> msg_spoof \<times> msg_print" where
  "msg_assign this msg = (this\<lparr>target_count := target_count msg, targets := targets msg\<rparr>, COPY)"

definition msg_move_assign :: "msg_spoof \<Rightarrow> msg_spoof \<Rightarrow> msg_spoof \<times> msg_print" where
  "msg_move_assign this msg = (this\<lparr>target_count := target_count msg, targets := targets msg\<rparr>, MOVE)"

lemma msg_same:
  "fst (msg_copy msg) = msg" "fst (msg_move msg) = msg" "fst (msg_assign this msg) = msg"
  "fst (msg_move_assign this msg) = msg"
  by (simp_all add: msg_copy_def msg_move_def msg_assign_def msg_move_assign_def)

text \<open>The elements that the loop reads.\<close>

definition read_targets :: "msg_spoof \<Rightarrow> node_address list result" where
  "read_targets msg =
     (if target_count msg = 0 then Inr []
      else
        (case targets msg of
           None \<Rightarrow> Inl NullDeref
         | Some ts \<Rightarrow> if target_count msg \<le> length ts then Inr (take (target_count msg) ts) else Inl OutOfBounds))"

definition spoof_victim :: "hw_address \<Rightarrow> node_address option \<Rightarrow> node_address list \<Rightarrow>
    byte list \<times> byte list list \<Rightarrow> node_address \<Rightarrow> (byte list \<times> byte list list) result" where
  "spoof_victim current gw nodes st victim =
     rbind (case gw of
         None \<Rightarrow> Inr st
       | Some (gip, ghw) \<Rightarrow>
           rbind (arp_reply_create (fst st) (fst victim) current gip ghw) (\<lambda>b. Inr (b, snd st @ [b])))
       (\<lambda>st. foldl (\<lambda>r (nip, _). rbind r (\<lambda>(b, sent).
          if nip \<noteq> fst victim then
            rbind (arp_reply_create b nip current (fst victim) (snd victim)) (\<lambda>b. Inr (b, sent @ [b]))
          else Inr (b, sent))) (Inr st) nodes)"

definition spoof_nodes :: "hw_address \<Rightarrow> msg_spoof \<Rightarrow> (int \<times> byte list list) result" where
  "spoof_nodes current msg =
     (let hasGW = False; gateway = (0, hw_zero); nodes = []; buffer = replicate ARP_IP4_SIZE 0 in
      rbind (read_targets msg) (\<lambda>targets.
      rbind (foldl (\<lambda>r victim. rbind r (\<lambda>st.
               spoof_victim current (if hasGW then Some gateway else None) nodes st victim))
             (Inr (buffer, [])) targets) (\<lambda>(_, sent). Inr (42, sent))))"

section \<open>Which hosts a survey asks\<close>

text \<open>The host addresses of a network with \<open>h\<close> host bits, in host order.\<close>

definition survey_hosts :: "u32 \<Rightarrow> nat \<Rightarrow> u32 list" where
  "survey_hosts network h = map (\<lambda>k. network + word_of_nat k) [1..<2 ^ h - 1]"

lemma survey_ip_eq: "survey_ip network (word_of_nat k) = htonl (network + word_of_nat (Suc k))"
proof -
  have "ucast (ucast network + word_of_nat k + 1 :: u64) = (network + word_of_nat (Suc k) :: u32)"
  proof (rule word_unat_eq_iff [THEN iffD2])
    have a: "unat (ucast network + word_of_nat k + 1 :: u64) = (unat network + k + 1) mod 2 ^ 64"
      using unsigned_less [of network]
      by (simp add: unat_word_ariths unat_of_nat unsigned_ucast_eq take_bit_nat_eq_self
          take_bit_eq_mod mod_simps)
    have "unat (ucast (ucast network + word_of_nat k + 1 :: u64) :: u32)
        = (unat network + k + 1) mod 2 ^ 64 mod 2 ^ 32"
      by (simp only: unsigned_ucast_eq a take_bit_eq_mod) simp
    also have "\<dots> = (unat network + k + 1) mod 2 ^ 32"
      by (rule mod_mod_cancel) (rule le_imp_power_dvd, simp)
    also have "\<dots> = unat (network + word_of_nat (Suc k))"
      by (simp add: unat_word_ariths unat_of_nat take_bit_eq_mod mod_simps)
    finally show "unat (ucast (ucast network + word_of_nat k + 1 :: u64) :: u32)
        = unat (network + word_of_nat (Suc k))" .
  qed
  then show ?thesis by (simp only: survey_ip_def)
qed

definition survey_frame :: "u32 \<Rightarrow> hw_address \<Rightarrow> u32 \<Rightarrow> byte list" where
  "survey_frame ip4 hw to_ip4 = arp_frame EtherBroadcast hw ARPOP_REQUEST ip4 (replicate 6 0) to_ip4"

definition injected :: "(byte list \<Rightarrow> int) \<Rightarrow> byte list list \<Rightarrow> byte list list result" where
  "injected inject frames = (if \<forall>f\<in>set frames. inject f \<noteq> - 1 then Inr frames else Inl BadFormat)"

lemma injected_simps [simp]:
  "injected inject [] = Inr []"
  "injected inject (f # fs) =
     rbind (if inject f = - 1 then Inl BadFormat else Inr ()) (\<lambda>_. rbind (injected inject fs) (\<lambda>sent. Inr (f # sent)))"
  by (auto simp: injected_def)

lemma survey_loop_frames:
  "survey_loop inject ip4 network n (word_of_nat k) (survey_frame ip4 hw t) =
   injected inject (map (survey_frame ip4 hw) (filter (\<lambda>a. a \<noteq> ip4)
     (map (\<lambda>k. htonl (network + word_of_nat k)) [Suc k..<Suc k + n])))"
proof (induction n arbitrary: k t)
  case (Suc n)
  have "word_of_nat k + 1 = (word_of_nat (Suc k) :: u64)" by simp
  moreover have "[Suc k..<Suc k + Suc n] = Suc k # [Suc (Suc k)..<Suc (Suc k) + n]"
    by (simp add: upt_rec)
  moreover have "arp_request_set_to_ip (survey_frame ip4 hw t) a = Inr (survey_frame ip4 hw a)" for a
    by (simp add: survey_frame_def arp_set_to_ip_frame)
  ultimately show ?case
    using Suc.IH [of "Suc k"] by (simp add: survey_ip_eq Let_def del: of_nat_Suc upt_Suc)
qed simp

lemma survey_count_hosts:
  assumes "1 \<le> h" "h \<le> 30" "unat (bitcount netmask) = 32 - h"
  shows "survey_count netmask = Inr (word_of_nat (2 ^ h - 2))"
proof -
  have lt: "(2 :: nat) ^ h \<le> 2 ^ 31" and ge: "(2 :: nat) \<le> 2 ^ h"
    using assms(1,2) power_increasing [of h 31 "2 :: nat"] power_increasing [of 1 h "2 :: nat"] by simp_all
  have "push_bit h (1 :: u32) = word_of_nat (2 ^ h)" by (simp add: push_bit_eq_mult)
  then have "push_bit h (1 :: u32) - 2 = word_of_nat (2 ^ h - 2)" using ge by (simp add: of_nat_diff)
  moreover have "scast (word_of_nat (2 ^ h - 2) :: u32) = (word_of_nat (2 ^ h - 2) :: u64)"
  proof -
    have "uint (word_of_nat (2 ^ h - 2) :: u32) = int (2 ^ h - 2)"
      using lt by (simp add: uint_nat unat_of_nat take_bit_nat_eq_self)
    moreover have "signed_take_bit 31 (int (2 ^ h - 2)) = int (2 ^ h - 2)"
      using lt by (intro signed_take_bit_int_eq_self) simp_all
    ultimately have "sint (word_of_nat (2 ^ h - 2) :: u32) = int (2 ^ h - 2)"
      by (simp add: sint_uint)
    then show ?thesis by (metis of_int_of_nat_eq of_int_sint)
  qed
  ultimately show ?thesis using assms by (simp add: survey_count_def)
qed

lemma unat_survey_count: "h \<le> 31 \<Longrightarrow> unat (word_of_nat (2 ^ h - 2) :: u64) = 2 ^ h - 2"
proof -
  assume "h \<le> 31"
  then have "(2 :: nat) ^ h \<le> 2 ^ 31" by (intro power_increasing) simp_all
  then show ?thesis by (simp add: unat_of_nat take_bit_nat_eq_self)
qed

section \<open>Properties\<close>

text \<open>C25. For a netmask with 1 to 30 zero bits the survey hands libpcap one broadcast ARP request for
  each host address of the network from the lowest up, network and broadcast address and the
  own address left out, each with the own addresses as its source; and it ends well unless one of them cannot be
  sent, whose message is printed with a string too few.\<close>

theorem survey_asks_every_host:
  assumes "1 \<le> h" and "h \<le> 30" and "card {i. bit netmask i} = 32 - h"
    and "length junk = ARP_IP4_SIZE"
    and "frames = map (survey_frame ip4 hw)
      (filter (\<lambda>a. a \<noteq> ip4) (map htonl (survey_hosts (ntohl (ip4 AND netmask)) h)))"
  shows "perform_survey inject ip4 netmask hw junk =
    (if \<forall>f\<in>set frames. inject f \<noteq> - 1 then Inr frames else Inl BadFormat)"
proof -
  have "unat (bitcount netmask) = 32 - h" using assms(3) by (simp add: bitcount_card)
  then have n: "survey_count netmask = Inr (word_of_nat (2 ^ h - 2))"
    by (rule survey_count_hosts [OF assms(1,2)])
  have req: "arp_request_create junk ip4 hw 0 = Inr (survey_frame ip4 hw 0)"
    using arp_request_frame [OF assms(4)] by (simp add: survey_frame_def)
  let ?net = "ntohl (ip4 AND netmask)"
  have "unat (word_of_nat (2 ^ h - 2) :: u64) = 2 ^ h - 2" using assms(2) by (intro unat_survey_count) simp
  then have "perform_survey inject ip4 netmask hw junk
      = survey_loop inject ip4 ?net (2 ^ h - 2) (word_of_nat 0) (survey_frame ip4 hw 0)"
    by (simp only: perform_survey_def req n rbind_simps Let_def) simp
  moreover have "Suc 0 + (2 ^ h - 2) = 2 ^ h - (1 :: nat)"
    using assms(1) power_increasing [of 1 h "2 :: nat"] by simp
  ultimately have "perform_survey inject ip4 netmask hw junk = injected inject frames"
    by (simp only: survey_loop_frames survey_hosts_def map_map comp_def One_nat_def assms(5))
  then show ?thesis by (simp only: injected_def)
qed

theorem survey_asks_every_host_witness:
  "perform_survey (\<lambda>_. 42) 0x0100000A 0xFCFFFFFF hw_zero (replicate 42 0)
     = Inr [survey_frame 0x0100000A hw_zero 0x0200000A] \<and>
   perform_survey (\<lambda>_. - 1) 0x0100000A 0xFCFFFFFF hw_zero (replicate 42 0) = Inl BadFormat"
proof -
  have "card {i. bit (0xFCFFFFFF :: u32) i} = unat (bitcount 0xFCFFFFFF)" by (simp add: bitcount_card)
  also have "\<dots> = 30" by (simp add: bitcount_def)
  finally have c: "card {i. bit (0xFCFFFFFF :: u32) i} = 32 - 2" by simp
  have "htonl 0x0100000A = 0x0A000001" "htonl 0x0A000001 = 0x0100000A" "htonl 0x0A000002 = 0x0200000A"
    "ntohl (0x0100000A AND 0xFCFFFFFF) = 0x0A000000"
    by (simp_all add: htonl_def le_bytes32_def le_word32_def)
  then have "[survey_frame 0x0100000A hw_zero 0x0200000A] = map (survey_frame 0x0100000A hw_zero)
      (filter (\<lambda>a. a \<noteq> 0x0100000A) (map htonl (survey_hosts (ntohl (0x0100000A AND 0xFCFFFFFF)) 2)))"
    by (simp add: survey_hosts_def upt_rec)
  from survey_asks_every_host [OF _ _ c _ this, of "replicate 42 0"] show ?thesis by simp
qed

text \<open>The masks left out: with a netmask of 32 ones, \<open>1 - 2\<close> becomes a count of \<open>2 ^ 64 - 1\<close> rounds; with one of zero
  the shift is by 32, and with a single one the difference does not fit an \<open>int\<close>: neither has a defined result.\<close>

theorem survey_count_extremes:
  "survey_count (- 1) = Inr (- 1) \<and> survey_count 0 = Inl BadShift \<and> survey_count 0x80 = Inl SignedOverflow"
proof -
  have "{i. bit (- 1 :: u32) i} = {..<32}" by (auto simp: bit_simps)
  then have "unat (bitcount (- 1)) = 32" by (simp add: bitcount_card)
  moreover have "unat (bitcount 0) = 0" "unat (bitcount 0x80) = 1" by (simp_all add: bitcount_def)
  ultimately show ?thesis by (simp add: survey_count_def)
qed

text \<open>\<open>spoof_nodes\<close> sends nothing, whatever its targets: neither a gateway nor nodes are ever
  set. It returns 42 if there are as many targets as the message says, and otherwise reads behind them.\<close>

theorem spoof_sends_nothing: "spoof_nodes current msg = rbind (read_targets msg) (\<lambda>_. Inr (42, []))"
proof -
  have "foldl (\<lambda>r victim. rbind r (\<lambda>st. spoof_victim current None [] st victim)) (Inr st) ts = Inr st" for st ts
    by (induction ts) (simp_all add: spoof_victim_def)
  then show ?thesis by (simp add: spoof_nodes_def Let_def)
qed

end
