(* ===== verification/PacketExtract.thy ===== *)
theory PacketExtract
  imports Prelude
begin

text \<open>
  \<open>net/packet_extract.c\<close>: locating the headers of a captured frame. A pointer into the frame
  is its offset from the start (none for a null pointer); every field read through one is
  checked against the bytes that are there.
\<close>

definition next_header :: "nat option \<Rightarrow> nat \<Rightarrow> nat option" where
  "next_header header header_len =
     (case header of None \<Rightarrow> None | Some p \<Rightarrow> Some (p + header_len))"

text \<open>\<open>buffer_len - distance >= 0\<close> on \<open>size_t\<close>; \<open>header\<close> is an offset from \<open>buffer\<close>.\<close>

definition has_space :: "u64 \<Rightarrow> nat \<Rightarrow> nat \<Rightarrow> bool" where
  "has_space buffer_len header header_len =
     (let distance = word_of_nat (header + header_len) :: u64 in buffer_len - distance \<ge> 0)"

definition read_byte :: "byte list \<Rightarrow> nat \<Rightarrow> byte result" where
  "read_byte m p = rbind (mem_read m p 1) (\<lambda>bs. Inr (bs ! 0))"

text \<open>Bit fields: \<open>ihl\<close> is the low half of the first byte, \<open>doff\<close> the high half of byte 12.\<close>

definition ip_ihl :: "byte list \<Rightarrow> nat \<Rightarrow> nat result" where
  "ip_ihl m p = rbind (read_byte m p) (\<lambda>b. Inr (unat (b AND 0x0F)))"

definition ip_protocol :: "byte list \<Rightarrow> nat \<Rightarrow> byte result" where
  "ip_protocol m p = read_byte m (p + 9)"

definition tcp_doff :: "byte list \<Rightarrow> nat \<Rightarrow> nat result" where
  "tcp_doff m p = rbind (read_byte m (p + 12)) (\<lambda>b. Inr (unat (drop_bit 4 b)))"

definition packet_map_ether :: "byte list \<Rightarrow> u64 \<Rightarrow> nat option" where
  "packet_map_ether buffer len = (if len \<ge> 14 then Some 0 else None)"

definition packet_map_ip :: "byte list \<Rightarrow> u64 \<Rightarrow> nat option result" where
  "packet_map_ip buffer len =
     (case packet_map_ether buffer len of
        None \<Rightarrow> Inr None
      | Some ethernet \<Rightarrow>
          let ipheader = ethernet + 14 in
          rbind (ip_ihl buffer ipheader) (\<lambda>ihl.
            if has_space len ipheader (ihl * 4) then Inr (Some ipheader) else Inr None))"

definition packet_map_udp :: "byte list \<Rightarrow> u64 \<Rightarrow> nat option result" where
  "packet_map_udp buffer len =
     rbind (packet_map_ip buffer len) (\<lambda>ip.
       case ip of
         None \<Rightarrow> Inr None
       | Some p \<Rightarrow>
           rbind (ip_protocol buffer p) (\<lambda>proto.
             if proto \<noteq> 17 then Inr None
             else
               rbind (ip_ihl buffer p) (\<lambda>ihl.
                 let udpheader = p + ihl * 4 in
                 if has_space len udpheader 8 then Inr (Some udpheader) else Inr None)))"

definition packet_map_tcp :: "byte list \<Rightarrow> u64 \<Rightarrow> nat option result" where
  "packet_map_tcp buffer len =
     rbind (packet_map_ip buffer len) (\<lambda>ip.
       case ip of
         None \<Rightarrow> Inr None
       | Some p \<Rightarrow>
           rbind (ip_protocol buffer p) (\<lambda>proto.
             if proto \<noteq> 6 then Inr None
             else
               rbind (ip_ihl buffer p) (\<lambda>ihl.
                 let tcpheader = p + ihl * 4 in
                 rbind (tcp_doff buffer tcpheader) (\<lambda>doff.
                   if has_space len tcpheader (doff * 4) then Inr (Some tcpheader) else Inr None))))"

definition packet_map_payload :: "byte list \<Rightarrow> u64 \<Rightarrow> nat option result" where
  "packet_map_payload buffer len =
     rbind (packet_map_udp buffer len) (\<lambda>udpheader.
       let payload = next_header udpheader 8 in
       rbind (packet_map_tcp buffer len) (\<lambda>tcpheader.
         case tcpheader of
           None \<Rightarrow> Inr payload
         | Some p \<Rightarrow> rbind (tcp_doff buffer p) (\<lambda>doff. Inr (next_header tcpheader (doff * 4)))))"

section \<open>What they find\<close>

lemma has_space_True [simp]: "has_space len p n"
  by (simp add: has_space_def)

lemma read_byte_in: "p < length m \<Longrightarrow> read_byte m p = Inr (m ! p)"
  by (simp add: read_byte_def mem_read_def take_Suc_conv_app_nth hd_drop_conv_nth take_Suc
      drop_eq_Nil2)

lemma read_byte_out: "length m \<le> p \<Longrightarrow> read_byte m p = Inl OutOfBounds"
  by (simp add: read_byte_def mem_read_def)

text \<open>A frame of an Ethernet and an IPv4 header at least.\<close>

abbreviation ihl_of :: "byte list \<Rightarrow> nat" where
  "ihl_of m \<equiv> unat (m ! 14 AND 0x0F)"

lemma packet_map_ip_long:
  "15 \<le> length m \<Longrightarrow> length m < 2 ^ 64 \<Longrightarrow> packet_map_ip m (word_of_nat (length m)) = Inr (Some 14)"
  by (simp add: packet_map_ip_def packet_map_ether_def ip_ihl_def read_byte_in word_le_nat_alt
      unat_of_nat take_bit_nat_eq_self)

text \<open>The checks of the packet mapper on the frame's own bytes: below 14 bytes there is no
  IP header; at exactly 14 its first byte is read behind the frame; from 15 on the header is
  reported present, however little of it is there, because \<open>has_space\<close> compares an unsigned
  number with zero.\<close>

theorem packet_ip_unchecked:
  assumes "length m < 2 ^ 64"
  shows "packet_map_ip m (word_of_nat (length m)) =
    (if length m < 14 then Inr None else if length m = 14 then Inl OutOfBounds else Inr (Some 14))"
proof -
  have "length m < 14 \<or> length m = 14 \<or> 15 \<le> length m" by linarith
  then show ?thesis
    using packet_map_ip_long [OF _ assms] assms
    by (auto simp: packet_map_ip_def packet_map_ether_def ip_ihl_def read_byte_out word_le_nat_alt
        unat_of_nat take_bit_nat_eq_self)
qed

theorem packet_ip_unchecked_witness:
  "packet_map_ip (replicate 15 0) 15 = Inr (Some 14)"
  using packet_ip_unchecked [of "replicate 15 0"] by simp

text \<open>The payload of an IPv4 frame that holds its headers is found where the header lengths
  put it: behind \<open>ihl\<close> words and a UDP header of 8 bytes, or behind \<open>ihl\<close> and \<open>doff\<close> words
  for TCP, and there is none for other protocols. Nothing compares that place with the end
  of the frame.\<close>

theorem packet_payload_place:
  assumes "24 \<le> length m" and "length m < 2 ^ 64" and "14 + 4 * ihl_of m + 12 < length m"
  shows "packet_map_payload m (word_of_nat (length m)) = Inr
    (if m ! 23 = 17 then Some (14 + 4 * ihl_of m + 8)
     else if m ! 23 = 6
     then Some (14 + 4 * ihl_of m + 4 * unat (drop_bit 4 (m ! (14 + 4 * ihl_of m + 12))))
     else None)"
proof -
  have ip: "packet_map_ip m (word_of_nat (length m)) = Inr (Some 14)"
    by (rule packet_map_ip_long) (use assms in simp_all)
  have proto: "ip_protocol m 14 = Inr (m ! 23)" using assms(1) by (simp add: ip_protocol_def read_byte_in)
  have ihl: "ip_ihl m 14 = Inr (ihl_of m)" using assms(1) by (simp add: ip_ihl_def read_byte_in)
  have "tcp_doff m (14 + ihl_of m * 4) = Inr (unat (drop_bit 4 (m ! (14 + 4 * ihl_of m + 12))))"
    using assms(3) by (simp add: tcp_doff_def read_byte_in mult.commute add.commute)
  then show ?thesis
    by (simp add: packet_map_payload_def packet_map_udp_def packet_map_tcp_def ip proto ihl
        next_header_def Let_def mult.commute)
qed

theorem packet_payload_place_witness:
  "packet_map_payload (replicate 14 0 @ [0x45] @ replicate 8 0 @ [17] @ replicate 30 0) 54 = Inr (Some 42)"
  using packet_payload_place [of "replicate 14 0 @ [0x45] @ replicate 8 0 @ [17] @ replicate 30 0"]
  by (simp add: nth_append)

end
