(* ===== verification/Kvset.thy ===== *)
theory Kvset
  imports Prelude "HOL-Library.Sublist"
begin

text \<open>
  \<open>frontend/source/kvset.c\<close>: the reader of the configuration file. A C string is a list of
  characters without its terminator; the destination of a value is a name of type \<open>'p\<close> in a
  store. The file is what \<open>wordexp\<close> and \<open>fopen\<close> gave: its content, or nothing.
\<close>

section \<open>What it uses of the C library\<close>

abbreviation newline :: char where "newline \<equiv> CHR 0x0A"

definition isspace :: "char \<Rightarrow> bool" where
  "isspace c \<longleftrightarrow> c = CHR '' '' \<or> 9 \<le> (of_char c :: nat) \<and> (of_char c :: nat) \<le> 13"

definition isdigit :: "char \<Rightarrow> bool" where
  "isdigit c \<longleftrightarrow> 48 \<le> (of_char c :: nat) \<and> (of_char c :: nat) \<le> 57"

definition digits_val :: "string \<Rightarrow> int" where
  "digits_val s = foldl (\<lambda>v c. 10 * v + (of_char c - 48)) 0 s"

text \<open>\<open>strtol(s, 0, 10)\<close> saturates at the bounds of \<open>long\<close>.\<close>

definition strtol :: "string \<Rightarrow> int" where
  "strtol s =
     (let s = dropWhile isspace s;
          (neg, s) = (case s of c # r \<Rightarrow> if c = CHR ''-'' then (True, r)
                        else if c = CHR ''+'' then (False, r) else (False, s) | [] \<Rightarrow> (False, s));
          v = digits_val (takeWhile isdigit s);
          v = (if neg then - v else v)
      in max (- (2 ^ 63)) (min (2 ^ 63 - 1) v))"

text \<open>\<open>strncmp\<close> compares up to \<open>n\<close> characters and no further than a terminator.\<close>

fun strncmp_eq :: "string \<Rightarrow> string \<Rightarrow> nat \<Rightarrow> bool" where
  "strncmp_eq a b 0 = True"
| "strncmp_eq [] [] (Suc n) = True"
| "strncmp_eq (x # a) (y # b) (Suc n) = (x = y \<and> strncmp_eq a b n)"
| "strncmp_eq _ _ (Suc n) = False"

text \<open>\<open>strchr\<close> as the offset of the first occurrence.\<close>

fun strchr :: "string \<Rightarrow> char \<Rightarrow> nat option" where
  "strchr [] c = None"
| "strchr (x # s) c = (if x = c then Some 0 else map_option Suc (strchr s c))"

text \<open>\<open>fgets\<close> with room for \<open>n\<close> characters: to the end of the line or as far as they go.\<close>

fun fgets :: "nat \<Rightarrow> string \<Rightarrow> string \<times> string" where
  "fgets 0 s = ([], s)"
| "fgets n [] = ([], [])"
| "fgets (Suc n) (c # s) =
     (if c = newline then ([c], s) else let (l, r) = fgets n s in (c # l, r))"

section \<open>The set of keys\<close>

datatype kvs_type = KVS_STRING | KVS_HEX | KVS_UINT32 | KVS_UINT8 | KVS_INT32 | KVS_INT8 | KVS_BOOL

record 'p kv_entry =
  kv_type :: kvs_type
  kv_name :: string
  kv_content :: 'p

text \<open>
  The two arrays are absent where \<open>InitKVS\<close> leaves them unallocated or uninitialised. The
  linked lists of entries are lists, the newest entry first.
\<close>

record 'p kvset =
  kv_count :: nat
  kv_sections :: "string list option"
  kv_values :: "'p kv_entry list list option"

definition InitKVS :: "string list option \<Rightarrow> nat \<Rightarrow> 'p kvset" where
  "InitKVS sections count =
     (case sections of
        Some ss \<Rightarrow>
          if count \<noteq> 0 then
            \<lparr>kv_count = count, kv_sections = Some (take count ss), kv_values = Some (replicate count [])\<rparr>
          else \<lparr>kv_count = count, kv_sections = None, kv_values = None\<rparr>
      | None \<Rightarrow> \<lparr>kv_count = count, kv_sections = None, kv_values = None\<rparr>)"

definition AddKVS :: "'p kvset \<Rightarrow> nat \<Rightarrow> kvs_type \<Rightarrow> string \<Rightarrow> 'p \<Rightarrow> 'p kvset result" where
  "AddKVS self sec type name ptr =
     (case kv_values self of
        None \<Rightarrow> Inl Uninitialised
      | Some vs \<Rightarrow>
          if sec < length vs then
            Inr (self\<lparr>kv_values := Some (vs[sec :=
              \<lparr>kv_type = type, kv_name = name, kv_content = ptr\<rparr> # vs ! sec])\<rparr>)
          else Inl OutOfBounds)"

text \<open>
  \<open>get_cmp_section\<close>: the length of the name is \<open>strchr(...) - buf - 1\<close>, an \<open>int\<close>; without a
  closing bracket it is computed from a null pointer and so from the address of \<open>buf\<close>.
\<close>

definition section_len :: "u64 \<Rightarrow> string \<Rightarrow> int" where
  "section_len addr buf =
     (case strchr (tl buf) (CHR '']'') of
        Some k \<Rightarrow> int k
      | None \<Rightarrow> sint (ucast (0 - addr - 1) :: u32))"

fun match_section :: "string list \<Rightarrow> string \<Rightarrow> nat \<Rightarrow> nat \<Rightarrow> int" where
  "match_section [] name n i = - 1"
| "match_section (s # ss) name n i =
     (if strncmp_eq s name n then int i else match_section ss name n (Suc i))"

definition get_cmp_section :: "u64 \<Rightarrow> 'p kvset \<Rightarrow> string \<Rightarrow> int" where
  "get_cmp_section addr self buf =
     (if take 1 buf \<noteq> ''['' then - 1
      else
        let sec_len = section_len addr buf in
        if sec_len \<le> 1 then - 1
        else
          match_section (case kv_sections self of Some ss \<Rightarrow> ss | None \<Rightarrow> [])
            (tl buf) (nat sec_len) 0)"

text \<open>\<open>get_key_value\<close>: the rest of the buffer stands for the index \<open>i\<close>.\<close>

fun get_key :: "nat \<Rightarrow> string \<Rightarrow> string \<times> string" where
  "get_key 0 s = ([], s)"
| "get_key n [] = ([], [])"
| "get_key (Suc n) (c # s) =
     (if c = CHR '' '' then get_key (Suc n) s
      else if c = CHR ''='' then ([], c # s)
      else let (k, r) = get_key n s in (c # k, r))"

fun get_val :: "nat \<Rightarrow> string \<Rightarrow> string" where
  "get_val 0 s = []"
| "get_val n [] = []"
| "get_val (Suc n) (c # s) =
     (if c = CHR '' '' then get_val (Suc n) s
      else if c = newline then []
      else c # get_val n s)"

definition get_key_value :: "nat \<Rightarrow> nat \<Rightarrow> string \<Rightarrow> string \<times> string \<times> int" where
  "get_key_value keylen vallen buffer =
     (let (key, rest) = get_key keylen buffer in
      if rest = [] \<or> length key = keylen then (key, [], 1)
      else (key, get_val vallen (tl rest), 0))"

section \<open>Values\<close>

text \<open>What a destination holds: a null pointer, a string, a number of 32 or 8 bits, a flag.\<close>

datatype cval = CNull | CString string | CWord u32 | CByte byte | CBool bool

definition parseValue :: "kvs_type \<Rightarrow> string \<Rightarrow> cval option" where
  "parseValue type val =
     (case type of
        KVS_STRING \<Rightarrow> Some (CString (take (min 255 (length val)) val))
      | KVS_INT32 \<Rightarrow> Some (CWord (word_of_int (strtol val)))
      | KVS_INT8 \<Rightarrow> Some (CByte (word_of_int (strtol val)))
      | KVS_UINT32 \<Rightarrow> Some (CWord (word_of_int (strtol val)))
      | KVS_UINT8 \<Rightarrow> Some (CByte (word_of_int (strtol val)))
      | KVS_BOOL \<Rightarrow> Some (CBool (val = ''1'' \<or> val = ''true''))
      | KVS_HEX \<Rightarrow> None)"

section \<open>Loading\<close>

type_synonym 'p store = "'p \<Rightarrow> cval option"

text \<open>The inner loop over the entries of a section.\<close>

fun assign_entries :: "'p kv_entry list \<Rightarrow> string \<Rightarrow> 'p store \<Rightarrow> 'p store" where
  "assign_entries [] buf st = st"
| "assign_entries (e # es) buf st =
     (let (key, val, _) = get_key_value 128 512 buf in
      assign_entries es buf
        (if key \<noteq> [] \<and> val \<noteq> [] \<and> kv_name e = key then
           (case parseValue (kv_type e) val of None \<Rightarrow> st | Some v \<Rightarrow> st(kv_content e \<mapsto> v))
         else st))"

text \<open>One round of the outer loop, on the section and the store: \<open>fgets\<close> reads past a null character, \<open>strlen\<close> and
  all that follows does not.\<close>

definition c_str :: "string \<Rightarrow> string" where
  "c_str s = takeWhile (\<lambda>c. c \<noteq> CHR 0x00) s"

definition load_line :: "u64 \<Rightarrow> 'p kvset \<Rightarrow> string \<Rightarrow> nat \<times> 'p store \<Rightarrow> (nat \<times> 'p store) result" where
  "load_line addr self buf = (\<lambda>(sec, st).
     (let buf = c_str buf in
      if length buf \<le> 1 \<or> take 1 buf = ''#'' then Inr (sec, st)
      else
        let tmp = get_cmp_section addr self buf in
        if tmp \<ge> 0 then Inr (nat tmp, st)
        else if sec < kv_count self \<and> strchr buf (CHR ''='') \<noteq> None then
          (case kv_values self of
             None \<Rightarrow> Inl Uninitialised
           | Some vs \<Rightarrow> Inr (sec, assign_entries (vs ! sec) buf st))
        else Inr (sec, st)))"

lemma fgets_shorter: "s \<noteq> [] \<Longrightarrow> 0 < n \<Longrightarrow> length (snd (fgets n s)) < length s"
proof -
  have "length (snd (fgets n s)) \<le> length s" for n s
    by (induction n s rule: fgets.induct) (auto simp: le_SucI split: prod.splits)
  then show "s \<noteq> [] \<Longrightarrow> 0 < n \<Longrightarrow> ?thesis"
    by (cases n; cases s) (auto simp: le_imp_less_Suc case_prod_beta)
qed

function load_lines :: "u64 \<Rightarrow> 'p kvset \<Rightarrow> string \<Rightarrow> nat \<times> 'p store \<Rightarrow> (nat \<times> 'p store) result" where
  "load_lines addr self content s =
     (if content = [] then Inr s
      else
        let (buf, rest) = fgets 511 content in
        rbind (load_line addr self buf s) (\<lambda>s. load_lines addr self rest s))"
  by pat_completeness auto
termination
  by (relation "measure (\<lambda>(_, _, content, _). length content)")
    (auto dest!: arg_cong [of _ _ snd] simp: fgets_shorter)

declare load_lines.simps [simp del]

text \<open>\<open>LoadKVS\<close>: 1 where the file cannot be opened, else 0 and the store.\<close>

definition LoadKVS :: "u64 \<Rightarrow> 'p kvset \<Rightarrow> string \<Rightarrow> string option \<Rightarrow> 'p store \<Rightarrow> ('p store \<times> int) result" where
  "LoadKVS addr self filename opened st =
     rbind (rassert (filename \<noteq> [])) (\<lambda>_.
       case opened of
         None \<Rightarrow> Inr (st, 1)
       | Some s \<Rightarrow> rbind (load_lines addr self s (0, st)) (\<lambda>(_, st). Inr (st, 0)))"

section \<open>Reading what was printed\<close>

text \<open>A configuration file: sections with their keys and values.\<close>

type_synonym config = "(string \<times> (string \<times> string) list) list"

definition print_line :: "string \<times> string \<Rightarrow> string" where
  "print_line kv = fst kv @ '' = '' @ snd kv @ [newline]"

definition print_config :: "config \<Rightarrow> string" where
  "print_config cfg =
     concat (map (\<lambda>(s, kvs). ''['' @ s @ '']'' @ [newline] @ concat (map print_line kvs)) cfg)"

definition key_ok :: "string \<Rightarrow> bool" where
  "key_ok k \<longleftrightarrow> k \<noteq> [] \<and> length k < 128 \<and> hd k \<noteq> CHR ''['' \<and> hd k \<noteq> CHR ''#'' \<and>
     (\<forall>c\<in>set k. c \<noteq> CHR '' '' \<and> c \<noteq> CHR ''='' \<and> c \<noteq> newline \<and> c \<noteq> CHR 0x00)"

definition value_ok :: "string \<Rightarrow> bool" where
  "value_ok v \<longleftrightarrow> v \<noteq> [] \<and> length v \<le> 350 \<and> (\<forall>c\<in>set v. c \<noteq> CHR '' '' \<and> c \<noteq> newline \<and> c \<noteq> CHR 0x00)"

text \<open>A name that finds its own section: no other section's name begins with it.\<close>

definition section_ok :: "string list \<Rightarrow> string \<Rightarrow> bool" where
  "section_ok ss s \<longleftrightarrow> s \<in> set ss \<and> (\<forall>t\<in>set ss. prefix s t \<longrightarrow> t = s) \<and>
     2 \<le> length s \<and> length s \<le> 500 \<and> (\<forall>c\<in>set s. c \<noteq> CHR '']'' \<and> c \<noteq> newline \<and> c \<noteq> CHR 0x00)"

definition config_ok :: "string list \<Rightarrow> config \<Rightarrow> bool" where
  "config_ok ss cfg \<longleftrightarrow>
     (\<forall>(s, kvs)\<in>set cfg. section_ok ss s \<and> (\<forall>(k, v)\<in>set kvs. key_ok k \<and> value_ok v))"

text \<open>What it assigns: to every entry of the section with that name, oldest entry last.\<close>

definition assign_kv :: "'p kv_entry list \<Rightarrow> string \<times> string \<Rightarrow> 'p store \<Rightarrow> 'p store" where
  "assign_kv es kv = fold (\<lambda>e st.
     if kv_name e = fst kv then
       (case parseValue (kv_type e) (snd kv) of None \<Rightarrow> st | Some v \<Rightarrow> st(kv_content e \<mapsto> v))
     else st) es"

definition section_pos :: "string list \<Rightarrow> string \<Rightarrow> nat" where
  "section_pos ss s = length (takeWhile (\<lambda>t. t \<noteq> s) ss)"

definition config_store ::
  "string list \<Rightarrow> 'p kv_entry list list \<Rightarrow> config \<Rightarrow> 'p store \<Rightarrow> 'p store" where
  "config_store ss vs cfg =
     fold (\<lambda>(s, kvs). fold (assign_kv (vs ! section_pos ss s)) kvs) cfg"

lemma fgets_line:
  "newline \<notin> set l \<Longrightarrow> length l < n \<Longrightarrow> fgets n (l @ newline # r) = (l @ [newline], r)"
proof (induction l arbitrary: n)
  case Nil
  then show ?case by (cases n) auto
next
  case (Cons c l)
  then show ?case by (cases n) auto
qed

lemma get_key_stops:
  "\<forall>c\<in>set k. c \<noteq> CHR '' '' \<and> c \<noteq> CHR ''='' \<Longrightarrow> length k < n \<Longrightarrow>
   get_key n (k @ CHR '' '' # CHR ''='' # r) = (k, CHR ''='' # r)"
proof (induction k arbitrary: n)
  case Nil
  then show ?case by (cases n) auto
next
  case (Cons c k)
  then show ?case by (cases n) auto
qed

lemma get_val_line:
  "\<forall>c\<in>set v. c \<noteq> CHR '' '' \<and> c \<noteq> newline \<Longrightarrow> length v \<le> n \<Longrightarrow> get_val n (v @ [newline]) = v"
proof (induction v arbitrary: n)
  case Nil
  then show ?case by (cases n) auto
next
  case (Cons c v)
  then show ?case by (cases n) auto
qed

lemma get_key_value_line:
  assumes "key_ok k" "value_ok v"
  shows "get_key_value 128 512 (print_line (k, v)) = (k, v, 0)"
proof -
  have "get_key 128 (k @ CHR '' '' # CHR ''='' # CHR '' '' # v @ [newline])
      = (k, CHR ''='' # CHR '' '' # v @ [newline])"
    using assms(1) by (intro get_key_stops) (auto simp: key_ok_def)
  moreover have "get_val 512 (CHR '' '' # v @ [newline]) = get_val 512 (v @ [newline])"
    by (simp add: get_val.simps(3) [of 511, simplified])
  moreover have "get_val 512 (v @ [newline]) = v"
    using assms(2) by (intro get_val_line) (auto simp: value_ok_def)
  ultimately show ?thesis
    using assms(1) by (simp add: get_key_value_def print_line_def key_ok_def)
qed

lemma assign_entries_line:
  assumes "key_ok k" "value_ok v"
  shows "assign_entries es (print_line (k, v)) st = assign_kv es (k, v) st"
proof (induction es arbitrary: st)
  case (Cons e es)
  then show ?case
    using assms by (simp add: get_key_value_line assign_kv_def key_ok_def value_ok_def)
qed (simp add: assign_kv_def)

lemma strchr_in: "c \<in> set s \<Longrightarrow> strchr s c \<noteq> None"
  by (induction s) auto

lemma strchr_append: "c \<notin> set s \<Longrightarrow> strchr (s @ c # r) c = Some (length s)"
  by (induction s) auto

lemma strncmp_prefix: "strncmp_eq t (s @ r) (length s) \<longleftrightarrow> prefix s t"
proof (induction s arbitrary: t)
  case (Cons c s)
  then show ?case by (cases t) auto
qed simp

lemma match_section_prefix:
  "s \<in> set ss \<Longrightarrow> \<forall>t\<in>set ss. prefix s t \<longrightarrow> t = s \<Longrightarrow>
   match_section ss (s @ r) (length s) i = int (i + section_pos ss s)"
  by (induction ss arbitrary: i) (auto simp: strncmp_prefix section_pos_def)

lemma section_pos_less: "s \<in> set ss \<Longrightarrow> section_pos ss s < length ss"
  unfolding section_pos_def by (induction ss) auto

lemma get_cmp_section_line:
  assumes "kv_sections self = Some ss" "section_ok ss s"
  shows "get_cmp_section addr self (''['' @ s @ '']'' @ [newline]) = int (section_pos ss s)"
proof -
  have "match_section ss (s @ CHR '']'' # [newline]) (length s) 0 = int (0 + section_pos ss s)"
    using assms(2) unfolding section_ok_def by (intro match_section_prefix) blast+
  moreover have "strchr (s @ CHR '']'' # [newline]) (CHR '']'') = Some (length s)"
    using assms(2) unfolding section_ok_def by (intro strchr_append) blast
  moreover have "2 \<le> length s" using assms(2) by (simp add: section_ok_def)
  ultimately show ?thesis
    by (simp add: get_cmp_section_def section_len_def assms(1))
qed

lemma load_lines_line:
  "newline \<notin> set l \<Longrightarrow> length l < 511 \<Longrightarrow>
   load_lines addr self (l @ newline # r) st
     = rbind (load_line addr self (l @ [newline]) st) (\<lambda>st. load_lines addr self r st)"
  using fgets_line [of l 511 r] by (simp add: load_lines.simps [of addr self "l @ newline # r" st])

lemma c_str_id: "CHR 0x00 \<notin> set s \<Longrightarrow> c_str s = s"
  unfolding c_str_def by (subst takeWhile_eq_all_conv) auto

lemma load_line_section:
  assumes "kv_sections self = Some ss" "section_ok ss s"
  shows "load_line addr self (''['' @ s @ '']'' @ [newline]) (i, st) = Inr (section_pos ss s, st)"
proof -
  have "c_str (''['' @ s @ '']'' @ [newline]) = ''['' @ s @ '']'' @ [newline]"
    using assms(2) by (intro c_str_id) (auto simp: section_ok_def)
  then show ?thesis
    using get_cmp_section_line [OF assms, of addr] unfolding load_line_def by simp
qed

lemma load_line_key:
  assumes "kv_values self = Some vs" "i < kv_count self" "key_ok k" "value_ok v"
  shows "load_line addr self (print_line (k, v)) (i, st) = Inr (i, assign_kv (vs ! i) (k, v) st)"
proof -
  obtain c k' where k: "k = c # k'" "c \<noteq> CHR ''[''" "c \<noteq> CHR ''#''"
    using assms(3) by (cases k) (auto simp: key_ok_def)
  have "strchr (print_line (k, v)) (CHR ''='') \<noteq> None"
    by (rule strchr_in) (simp add: print_line_def)
  moreover have "get_cmp_section addr self (print_line (k, v)) = - 1"
    using k by (simp add: get_cmp_section_def print_line_def)
  moreover have "1 < length (print_line (k, v))" "take 1 (print_line (k, v)) \<noteq> ''#''"
    using k by (simp_all add: print_line_def)
  moreover have "c_str (print_line (k, v)) = print_line (k, v)"
    using assms(3,4) by (intro c_str_id) (auto simp: print_line_def key_ok_def value_ok_def)
  ultimately show ?thesis
    using assms assign_entries_line [OF assms(3,4)] unfolding load_line_def by simp
qed

lemma load_lines_keys:
  assumes "kv_values self = Some vs" "i < kv_count self" "\<forall>(k, v)\<in>set kvs. key_ok k \<and> value_ok v"
  shows "load_lines addr self (concat (map print_line kvs) @ r) (i, st)
    = load_lines addr self r (i, fold (assign_kv (vs ! i)) kvs st)"
  using assms(3)
proof (induction kvs arbitrary: st)
  case (Cons kv kvs)
  obtain k v where kv: "kv = (k, v)" "key_ok k" "value_ok v" using Cons.prems by (cases kv) auto
  let ?l = "k @ '' = '' @ v"
  have "newline \<notin> set ?l" "length ?l < 511" using kv by (auto simp: key_ok_def value_ok_def)
  then have "load_lines addr self (?l @ newline # concat (map print_line kvs) @ r) (i, st)
      = rbind (load_line addr self (?l @ [newline]) (i, st))
          (\<lambda>st. load_lines addr self (concat (map print_line kvs) @ r) st)"
    by (rule load_lines_line)
  moreover have "print_line kv = ?l @ [newline]" by (simp add: print_line_def kv(1))
  ultimately show ?case
    using Cons kv load_line_key [OF assms(1,2) kv(2,3)] by simp
qed simp

lemma load_lines_config:
  assumes "kv_sections self = Some ss" "kv_values self = Some vs" "kv_count self = length ss"
    "config_ok ss cfg"
  shows "\<exists>j. load_lines addr self (print_config cfg) (i, st) = Inr (j, config_store ss vs cfg st)"
  using assms(4)
proof (induction cfg arbitrary: i st)
  case Nil
  show ?case by (simp add: print_config_def config_store_def load_lines.simps)
next
  case (Cons c cfg)
  obtain s kvs where c: "c = (s, kvs)" "section_ok ss s" "\<forall>(k, v)\<in>set kvs. key_ok k \<and> value_ok v"
    using Cons.prems by (cases c) (auto simp: config_ok_def)
  let ?l = "''['' @ s @ '']''" and ?r = "concat (map print_line kvs) @ print_config cfg"
  have "newline \<notin> set ?l" "length ?l < 511" using c(2) by (auto simp: section_ok_def)
  then have "load_lines addr self (?l @ newline # ?r) (i, st)
      = rbind (load_line addr self (?l @ [newline]) (i, st)) (\<lambda>st. load_lines addr self ?r st)"
    by (rule load_lines_line)
  also have "\<dots> = load_lines addr self ?r (section_pos ss s, st)"
    using load_line_section [OF assms(1) c(2)] by simp
  also have "\<dots> = load_lines addr self (print_config cfg)
      (section_pos ss s, fold (assign_kv (vs ! section_pos ss s)) kvs st)"
    using c(2) by (intro load_lines_keys [OF assms(2) _ c(3)])
      (simp add: assms(3) section_pos_less section_ok_def)
  finally have "load_lines addr self (print_config (c # cfg)) (i, st) = load_lines addr self (print_config cfg)
      (section_pos ss s, fold (assign_kv (vs ! section_pos ss s)) kvs st)"
    by (simp add: print_config_def c(1))
  moreover have "config_ok ss cfg" using Cons.prems by (simp add: config_ok_def)
  ultimately show ?case
    using Cons.IH [of "section_pos ss s" "fold (assign_kv (vs ! section_pos ss s)) kvs st"]
    by (simp add: config_store_def c(1))
qed

lemma LoadKVS_config:
  assumes "kv_sections self = Some ss" "kv_values self = Some vs" "kv_count self = length ss"
    "config_ok ss cfg" "filename \<noteq> []"
  shows "LoadKVS addr self filename (Some (print_config cfg)) st = Inr (config_store ss vs cfg st, 0)"
  using load_lines_config [OF assms(1-4), of addr 0 st] assms(5) by (auto simp: LoadKVS_def)

section \<open>What a setting comes to\<close>

text \<open>The values printed for a name in a section, in order, and the last of them.\<close>

definition settings :: "config \<Rightarrow> string \<Rightarrow> string \<Rightarrow> string list" where
  "settings cfg sec name =
     concat (map (\<lambda>(s, kvs). if s = sec then map snd (filter (\<lambda>kv. fst kv = name) kvs) else []) cfg)"

definition last_setting :: "config \<Rightarrow> string \<Rightarrow> string \<Rightarrow> string option" where
  "last_setting cfg sec name = (let vs = settings cfg sec name in if vs = [] then None else Some (last vs))"

lemma assign_kv_Cons:
  "assign_kv (e # es) kv st = assign_kv es kv
     (if kv_name e = fst kv
      then (case parseValue (kv_type e) (snd kv) of None \<Rightarrow> st | Some v \<Rightarrow> st(kv_content e \<mapsto> v)) else st)"
  by (simp add: assign_kv_def)

lemma assign_kv_other: "p \<notin> kv_content ` set es \<Longrightarrow> assign_kv es kv st p = st p"
proof (induction es arbitrary: st)
  case (Cons e es)
  then show ?case by (auto simp: assign_kv_Cons split: option.split)
qed (simp add: assign_kv_def)

lemma parseValue_Some: "type \<noteq> KVS_HEX \<Longrightarrow> \<exists>w. parseValue type v = Some w"
  by (cases type) (simp_all add: parseValue_def)

lemma assign_kv_entry:
  "e \<in> set es \<Longrightarrow> distinct (map kv_content es) \<Longrightarrow> kv_type e \<noteq> KVS_HEX \<Longrightarrow>
   assign_kv es kv st (kv_content e) =
     (if kv_name e = fst kv then parseValue (kv_type e) (snd kv) else st (kv_content e))"
proof (induction es arbitrary: st)
  case (Cons e' es)
  show ?case
  proof (cases "e = e'")
    case True
    then have "kv_content e \<notin> kv_content ` set es" using Cons.prems(2) by auto
    then show ?thesis
      using True parseValue_Some [OF Cons.prems(3), of "snd kv"] by (auto simp: assign_kv_Cons assign_kv_other)
  next
    case False
    then have es: "e \<in> set es" using Cons.prems(1) by simp
    have "kv_content e' \<notin> kv_content ` set es" using Cons.prems(2) by simp
    then have "kv_content e \<noteq> kv_content e'" using imageI [OF es, of kv_content] by metis
    then show ?thesis
      using Cons.IH [OF es _ Cons.prems(3)] Cons.prems(2) by (auto simp: assign_kv_Cons split: option.split)
  qed
qed simp

definition set_by :: "kvs_type \<Rightarrow> string list \<Rightarrow> cval option \<Rightarrow> cval option" where
  "set_by type vs old = (if vs = [] then old else parseValue type (last vs))"

lemma set_by_append: "set_by type (vs @ ws) old = set_by type ws (set_by type vs old)"
  by (simp add: set_by_def)

lemma fold_assign_other: "p \<notin> kv_content ` set es \<Longrightarrow> fold (assign_kv es) kvs st p = st p"
  by (induction kvs arbitrary: st) (simp_all add: assign_kv_other)

lemma fold_assign_entry:
  assumes "e \<in> set es" "distinct (map kv_content es)" "kv_type e \<noteq> KVS_HEX"
  shows "fold (assign_kv es) kvs st (kv_content e) =
    set_by (kv_type e) (map snd (filter (\<lambda>kv. fst kv = kv_name e) kvs)) (st (kv_content e))"
proof (induction kvs arbitrary: st)
  case (Cons kv kvs)
  then show ?case using assign_kv_entry [OF assms] by (auto simp: set_by_def)
qed (simp add: set_by_def)

text \<open>Where every entry has a place of its own to store to, it gets the last value set for it.\<close>

lemma section_pos_eq:
  "distinct ss \<Longrightarrow> s \<in> set ss \<Longrightarrow> i < length ss \<Longrightarrow> section_pos ss s = i \<longleftrightarrow> s = ss ! i"
proof (induction ss arbitrary: i)
  case (Cons t ss)
  then show ?case by (cases i) (auto simp: section_pos_def)
qed simp

lemma other_section:
  assumes "distinct (map kv_content (concat vs))" "i < length vs" "j < length vs" "i \<noteq> j" "e \<in> set (vs ! i)"
  shows "kv_content e \<notin> kv_content ` set (vs ! j)"
proof
  assume "kv_content e \<in> kv_content ` set (vs ! j)"
  then obtain e' where e': "e' \<in> set (vs ! j)" "kv_content e = kv_content e'" by blast
  have "vs = take i vs @ vs ! i # drop (Suc i) vs" using assms(2) by (rule id_take_nth_drop)
  then have split: "concat vs = concat (take i vs) @ vs ! i @ concat (drop (Suc i) vs)"
    by (metis concat.simps(2) concat_append)
  have "vs ! j \<in> set (take i vs) \<or> vs ! j \<in> set (drop (Suc i) vs)"
  proof (cases "j < i")
    case True
    then have "take i vs ! j = vs ! j" "j < length (take i vs)" using assms(2) by simp_all
    then show ?thesis by (metis nth_mem)
  next
    case False
    then have "drop (Suc i) vs ! (j - Suc i) = vs ! j" "j - Suc i < length (drop (Suc i) vs)"
      using assms(3,4) by simp_all
    then show ?thesis by (metis nth_mem)
  qed
  then have "e' \<in> set (concat (take i vs)) \<or> e' \<in> set (concat (drop (Suc i) vs))" using e'(1) by auto
  moreover have "distinct (map kv_content (concat (take i vs)) @ map kv_content (vs ! i) @ map kv_content (concat (drop (Suc i) vs)))"
    using assms(1) by (simp only: split map_append)
  then have "kv_content ` set (concat (take i vs)) \<inter> kv_content ` set (vs ! i) = {}"
    "kv_content ` set (vs ! i) \<inter> kv_content ` set (concat (drop (Suc i) vs)) = {}"
    by (simp_all only: distinct_append set_map set_append) blast+
  ultimately show False using assms(5) e'(2) by blast
qed

lemma config_store_setting:
  assumes ss: "distinct ss" "length vs = length ss" and vs: "distinct (map kv_content (concat vs))"
    and e: "i < length ss" "e \<in> set (vs ! i)" "kv_type e \<noteq> KVS_HEX"
  shows "\<forall>(s, kvs)\<in>set cfg. s \<in> set ss \<Longrightarrow>
    config_store ss vs cfg st (kv_content e) = set_by (kv_type e) (settings cfg (ss ! i) (kv_name e)) (st (kv_content e))"
proof (induction cfg arbitrary: st)
  case (Cons c cfg)
  obtain s kvs where c: "c = (s, kvs)" "s \<in> set ss" using Cons.prems by auto
  let ?st = "fold (assign_kv (vs ! section_pos ss s)) kvs st"
  have pos: "section_pos ss s < length vs" using section_pos_less [OF c(2)] ss(2) by simp
  have step: "?st (kv_content e) = set_by (kv_type e)
      (if s = ss ! i then map snd (filter (\<lambda>kv. fst kv = kv_name e) kvs) else []) (st (kv_content e))"
  proof (cases "s = ss ! i")
    case True
    then have "section_pos ss s = i" using section_pos_eq [OF ss(1) c(2) e(1)] by simp
    moreover have "distinct (map kv_content (vs ! i))"
      using vs e(1) ss(2) by (metis concat.simps(2) concat_append distinct_append id_take_nth_drop map_append)
    ultimately show ?thesis using True fold_assign_entry [OF e(2) _ e(3)] by simp
  next
    case False
    then have "section_pos ss s \<noteq> i" using section_pos_eq [OF ss(1) c(2) e(1)] by simp
    then have "kv_content e \<notin> kv_content ` set (vs ! section_pos ss s)"
      using e ss(2) by (intro other_section [OF vs _ pos _ e(2)]) auto
    then show ?thesis using False by (simp add: fold_assign_other set_by_def)
  qed
  have "config_store ss vs (c # cfg) st (kv_content e) = config_store ss vs cfg ?st (kv_content e)"
    by (simp add: config_store_def c(1))
  also have "\<dots> = set_by (kv_type e) (settings cfg (ss ! i) (kv_name e)) (?st (kv_content e))"
    using Cons.prems by (intro Cons.IH) simp
  also have "\<dots> = set_by (kv_type e) (settings (c # cfg) (ss ! i) (kv_name e)) (st (kv_content e))"
    by (simp only: step flip: set_by_append) (simp add: settings_def c(1))
  finally show ?case .
qed (simp add: config_store_def settings_def set_by_def)

lemma config_store_other:
  assumes "length vs = length ss" "p \<notin> kv_content ` set (concat vs)"
  shows "\<forall>(s, kvs)\<in>set cfg. s \<in> set ss \<Longrightarrow> config_store ss vs cfg st p = st p"
proof (induction cfg arbitrary: st)
  case (Cons c cfg)
  obtain s kvs where c: "c = (s, kvs)" "s \<in> set ss" using Cons.prems by auto
  have "vs ! section_pos ss s \<in> set vs" using section_pos_less [OF c(2)] assms(1) by simp
  then have "set (vs ! section_pos ss s) \<subseteq> set (concat vs)" by auto
  then have "p \<notin> kv_content ` set (vs ! section_pos ss s)" using assms(2) by blast
  then show ?case using Cons fold_assign_other by (simp add: config_store_def c(1))
qed (simp add: config_store_def)

section \<open>Properties\<close>

text \<open>C23. A printed configuration is read back: for sections whose names are found (none begins
  with another's name), keys of up to 127 and values of up to 350 characters without blanks, and no null character anywhere,
  \<open>LoadKVS\<close> returns 0 and every registered key holds the value printed last for it, parsed
  by its type; keys that are not registered, or not in that section, change nothing.\<close>

theorem config_roundtrip:
  assumes "kv_sections self = Some ss" and "kv_values self = Some vs" and "kv_count self = length ss"
    and "config_ok ss cfg" and "filename \<noteq> []"
  shows "LoadKVS addr self filename (Some (print_config cfg)) st = Inr (config_store ss vs cfg st, 0)"
  by (rule LoadKVS_config [OF assms])

definition kvs_example :: "nat kvset" where
  "kvs_example = \<lparr>kv_count = 2, kv_sections = Some [''main'', ''misc''],
     kv_values = Some [[\<lparr>kv_type = KVS_BOOL, kv_name = ''Fork'', kv_content = 7\<rparr>], []]\<rparr>"

theorem config_roundtrip_witness:
  "LoadKVS 0 kvs_example ''f'' (Some (print_config [(''main'', [(''Fork'', ''true'')])])) (\<lambda>_. None)
     = Inr ([7 \<mapsto> CBool True], 0)"
  using config_roundtrip [of kvs_example "[''main'', ''misc'']"
      "[[\<lparr>kv_type = KVS_BOOL, kv_name = ''Fork'', kv_content = 7\<rparr>], []]"
      "[(''main'', [(''Fork'', ''true'')])]" "''f''" 0 "\<lambda>_. None"]
  by (simp add: kvs_example_def config_ok_def section_ok_def key_ok_def value_ok_def
      config_store_def assign_kv_def section_pos_def parseValue_def)

end
