(* ===== verification/Frontend.thy ===== *)
theory Frontend
  imports Kvset
begin

text \<open>
  \<open>frontend/source/arguments.c\<close> and \<open>sensord.c\<close>: the daemon's arguments, from defaults, the
  command line and the configuration file, to the options handed to the library. \<open>struct
  arguments\<close> is a store from its fields to values, without a value while a field is
  uninitialised.
\<close>

section \<open>Arguments\<close>

datatype afield =
    Config | CaptureInterface | EnableFork | EnableBackground
  | CapturePromiscuous | CaptureBuffersize | CaptureTimeout
  | HeadHost | HeadKey | HeadUtilPort | HeadDumpPort | PersistPeriod | EnablePersistance
  | NodesSurveyTimeout | NodesSurveyInitialTimeout | NodesDisconnectTimeout
  | NodesEnableRedirect | NodesEnableModifyRouting | NodesModifyRoutingTimeout
  | BalancingListenPort | BalancingTimeout | BalancingInitialSeekTimeout
  | BalancingInfoTimeout | BalancingSessionTimeout | BalancingLoadCount | BalancingInterval
  | Verbose

type_synonym arguments = "afield store"

definition args_get_default :: arguments where
  "args_get_default =
     [Config \<mapsto> CNull,
      CaptureInterface \<mapsto> CString ''eth0'', CapturePromiscuous \<mapsto> CBool False,
      CaptureBuffersize \<mapsto> CWord 65536,
      HeadHost \<mapsto> CString ''localhost'', HeadUtilPort \<mapsto> CWord 0, HeadDumpPort \<mapsto> CWord 0,
      HeadKey \<mapsto> CString ''dummy'',
      CaptureTimeout \<mapsto> CWord 5, PersistPeriod \<mapsto> CWord 10,
      EnablePersistance \<mapsto> CBool True, NodesEnableRedirect \<mapsto> CBool True, EnableFork \<mapsto> CBool True,
      Verbose \<mapsto> CBool False, EnableBackground \<mapsto> CBool False]"

definition atoi :: "string \<Rightarrow> u32" where
  "atoi s = word_of_int (strtol s)"

text \<open>An option is a character, or a number below that of any character; \<open>None\<close> is unknown.\<close>

datatype opt_key = Short char | Long nat

definition parse_options :: "opt_key \<Rightarrow> string \<Rightarrow> arguments \<Rightarrow> arguments option" where
  "parse_options key arg a =
     (case key of
        Short c \<Rightarrow>
          if c = CHR ''c'' then Some (a(Config \<mapsto> CString arg))
          else if c = CHR ''i'' then Some (a(CaptureInterface \<mapsto> CString arg))
          else if c = CHR ''p'' then Some (a(CapturePromiscuous \<mapsto> CBool True))
          else if c = CHR ''b'' then Some (a(CaptureBuffersize \<mapsto> CWord (atoi arg)))
          else if c = CHR ''H'' then Some (a(HeadHost \<mapsto> CString arg))
          else if c = CHR ''P'' then Some (a(HeadUtilPort \<mapsto> CWord (atoi arg)))
          else if c = CHR ''D'' then Some (a(HeadDumpPort \<mapsto> CWord (atoi arg)))
          else if c = CHR ''K'' then Some (a(HeadKey \<mapsto> CString arg))
          else if c = CHR ''t'' then Some (a(CaptureTimeout \<mapsto> CWord (atoi arg)))
          else if c = CHR ''w'' then Some (a(PersistPeriod \<mapsto> CWord (atoi arg)))
          else if c = CHR ''v'' then Some (a(Verbose \<mapsto> CBool True))
          else if c = CHR ''g'' then Some (a(EnableBackground \<mapsto> CBool True))
          else None
      | Long n \<Rightarrow>
          if n = 1 then Some (a(EnablePersistance \<mapsto> CBool False))
          else if n = 2 then Some (a(NodesEnableRedirect \<mapsto> CBool False))
          else if n = 3 then Some (a(EnableFork \<mapsto> CBool False))
          else None)"

text \<open>The table for \<open>argp\<close>, without its help texts: name, key, the name of the argument if there is one, and
  the group in the help.\<close>

definition argp_table :: "(string \<times> opt_key \<times> string option \<times> nat) list" where
  "argp_table =
     [(''config'', Short (CHR ''c''), Some ''FILE'', 0),
      (''interface'', Short (CHR ''i''), Some ''IFACE'', 0),
      (''promisc'', Short (CHR ''p''), None, 0),
      (''buffer'', Short (CHR ''b''), Some ''BYTES'', 0),
      (''host'', Short (CHR ''H''), Some ''HOSTNAME'', 1),
      (''port'', Short (CHR ''P''), Some ''PORT'', 1),
      (''dump'', Short (CHR ''D''), Some ''PORT'', 1),
      (''headkey'', Short (CHR ''K''), Some ''KEY'', 1),
      (''capture-timeout'', Short (CHR ''t''), Some ''SECONDS'', 2),
      (''writeout-timeout'', Short (CHR ''w''), Some ''SECONDS'', 2),
      (''disable-persistance'', Long 1, None, 3),
      (''disable-redirect'', Long 2, None, 3),
      (''disable-fork'', Long 3, None, 3),
      (''verbose'', Short (CHR ''v''), None, 4),
      (''background'', Short (CHR ''g''), None, 4)]"

text \<open>The parser knows the keys of the table and no others, the table names none twice, and where it says
  that there is no argument the parser reads none: \<open>arg\<close> is then a null pointer.\<close>

lemma argp_table_handled:
  "parse_options key arg a \<noteq> None \<longleftrightarrow> key \<in> (\<lambda>(_, key, _). key) ` set argp_table"
  "distinct (map fst argp_table)" "distinct (map (\<lambda>(_, key, _). key) argp_table)"
  "(name, key, None, grp) \<in> set argp_table \<Longrightarrow> parse_options key arg a = parse_options key arg' a"
  by (auto simp: argp_table_def parse_options_def split: opt_key.splits if_splits)

text \<open>
  \<open>argp_parse\<close> calls it for one option after the other, and with keys of its own besides,
  which it refuses without effect.
\<close>

fun args_parse :: "(opt_key \<times> string) list \<Rightarrow> arguments \<Rightarrow> arguments" where
  "args_parse [] a = a"
| "args_parse ((key, arg) # xs) a =
     (case parse_options key arg a of None \<Rightarrow> args_parse xs a | Some a \<Rightarrow> args_parse xs a)"

section \<open>The configuration file\<close>

definition config_sections :: "string list" where
  "config_sections = [''main'', ''capture'', ''persistance'', ''nodes'', ''balancing'', ''misc'']"

definition config_table :: "(nat \<times> kvs_type \<times> string \<times> afield) list" where
  "config_table =
     [(0, KVS_BOOL, ''Fork'', EnableFork),
      (0, KVS_BOOL, ''Background'', EnableBackground),
      (1, KVS_STRING, ''Interface'', CaptureInterface),
      (1, KVS_BOOL, ''Promiscuous'', CapturePromiscuous),
      (1, KVS_UINT32, ''BufferSize'', CaptureBuffersize),
      (1, KVS_UINT32, ''Timeout'', CaptureTimeout),
      (2, KVS_BOOL, ''Enable'', EnablePersistance),
      (2, KVS_STRING, ''Host'', HeadHost),
      (2, KVS_UINT32, ''UtilPort'', HeadUtilPort),
      (2, KVS_UINT32, ''DumpPort'', HeadDumpPort),
      (2, KVS_STRING, ''Key'', HeadKey),
      (2, KVS_UINT32, ''Timeout'', PersistPeriod),
      (3, KVS_UINT32, ''SurveyTimeout'', NodesSurveyTimeout),
      (3, KVS_UINT32, ''InitialSurveyTimeout'', NodesSurveyInitialTimeout),
      (3, KVS_UINT32, ''NodeDisconnectTimeout'', NodesDisconnectTimeout),
      (3, KVS_BOOL, ''EnableModifyRouting'', NodesEnableModifyRouting),
      (4, KVS_UINT32, ''ModifyRoutingTimeout'', NodesModifyRoutingTimeout),
      (3, KVS_BOOL, ''EnableRedirect'', NodesEnableRedirect),
      (4, KVS_STRING, ''ListenPort'', BalancingListenPort),
      (4, KVS_UINT32, ''RebalanceTimeout'', BalancingTimeout),
      (4, KVS_UINT32, ''InitialSeekTimeout'', BalancingInitialSeekTimeout),
      (4, KVS_UINT32, ''InfoRequestInterval'', BalancingInfoTimeout),
      (4, KVS_UINT32, ''SessionTimeout'', BalancingSessionTimeout),
      (4, KVS_UINT32, ''LoadCount'', BalancingLoadCount),
      (4, KVS_UINT32, ''LoadInterval'', BalancingInterval)]"

fun add_all :: "(nat \<times> kvs_type \<times> string \<times> 'p) list \<Rightarrow> 'p kvset \<Rightarrow> 'p kvset result" where
  "add_all [] kvs = Inr kvs"
| "add_all ((sec, type, name, ptr) # xs) kvs =
     rbind (AddKVS kvs sec type name ptr) (\<lambda>kvs. add_all xs kvs)"

definition read_config :: "u64 \<Rightarrow> string \<Rightarrow> string option \<Rightarrow> arguments \<Rightarrow> arguments result" where
  "read_config addr filename opened a =
     rbind (add_all config_table (InitKVS (Some config_sections) 6)) (\<lambda>kvs.
     rbind (LoadKVS addr kvs filename opened a) (\<lambda>(a, _). Inr a))"

section \<open>Options\<close>

record opt_capture =
  oc_device :: string
  oc_promiscuous :: bool
  oc_buffersize :: u32
  oc_timeout :: u32

record opt_survey =
  os_survey :: u32
  os_initial :: u32
  os_disconnect :: u32
  os_redirect :: bool
  os_modify :: bool
  os_modify_timeout :: u32

record opt_balancing =
  ob_device :: string
  ob_timeout :: u32
  ob_initial :: u32
  ob_info :: u32
  ob_session :: u32
  ob_count :: u32
  ob_interval :: u32

record sensor_options =
  so_capture :: opt_capture
  so_persist :: u32
  so_nodes :: opt_survey
  so_balancing :: opt_balancing

text \<open>\<open>strncpy\<close> into an array of \<open>n\<close> characters: cut without a terminator, or filled up.\<close>

definition strncpy :: "nat \<Rightarrow> string \<Rightarrow> string" where
  "strncpy n s = take n (s @ replicate n (CHR 0x00))"

definition get_word :: "arguments \<Rightarrow> afield \<Rightarrow> (u32 \<Rightarrow> 'a result) \<Rightarrow> 'a result" where
  "get_word a f k = (case a f of Some (CWord w) \<Rightarrow> k w | _ \<Rightarrow> Inl Uninitialised)"

definition get_flag :: "arguments \<Rightarrow> afield \<Rightarrow> (bool \<Rightarrow> 'a result) \<Rightarrow> 'a result" where
  "get_flag a f k = (case a f of Some (CBool b) \<Rightarrow> k b | _ \<Rightarrow> Inl Uninitialised)"

definition get_text :: "arguments \<Rightarrow> afield \<Rightarrow> (string \<Rightarrow> 'a result) \<Rightarrow> 'a result" where
  "get_text a f k = (case a f of Some (CString s) \<Rightarrow> k s | _ \<Rightarrow> Inl Uninitialised)"

lemmas get_field_defs = get_word_def get_flag_def get_text_def

definition main_options :: "arguments \<Rightarrow> sensor_options result" where
  "main_options a =
     get_word a CaptureTimeout (\<lambda>capture_timeout.
     get_flag a CapturePromiscuous (\<lambda>promiscuous.
     get_text a CaptureInterface (\<lambda>interface.
     get_word a CaptureBuffersize (\<lambda>buffersize.
     get_word a PersistPeriod (\<lambda>persist_period.
     get_word a NodesSurveyTimeout (\<lambda>survey_timeout.
     get_word a NodesSurveyInitialTimeout (\<lambda>survey_initial_timeout.
     get_word a NodesDisconnectTimeout (\<lambda>disconnect_timeout.
     get_flag a NodesEnableRedirect (\<lambda>enable_redirect.
     get_flag a NodesEnableModifyRouting (\<lambda>enable_modify_routing.
     get_word a NodesModifyRoutingTimeout (\<lambda>modify_routing_timeout.
     get_word a BalancingTimeout (\<lambda>timeout.
     get_word a BalancingInfoTimeout (\<lambda>info_timeout.
     get_word a BalancingSessionTimeout (\<lambda>session_timeout.
     get_word a BalancingInitialSeekTimeout (\<lambda>initial_timeout.
     get_word a BalancingLoadCount (\<lambda>load_count.
     get_word a BalancingInterval (\<lambda>load_interval.
       Inr \<lparr>so_capture = \<lparr>oc_device = strncpy 16 interface, oc_promiscuous = promiscuous,
              oc_buffersize = buffersize, oc_timeout = capture_timeout\<rparr>,
            so_persist = persist_period,
            so_nodes = \<lparr>os_survey = survey_timeout, os_initial = survey_initial_timeout,
              os_disconnect = disconnect_timeout, os_redirect = enable_redirect,
              os_modify = enable_modify_routing, os_modify_timeout = modify_routing_timeout\<rparr>,
            so_balancing = \<lparr>ob_device = strncpy 16 interface, ob_timeout = timeout,
              ob_initial = initial_timeout, ob_info = info_timeout, ob_session = session_timeout,
              ob_count = load_count, ob_interval = load_interval\<rparr>\<rparr>)))))))))))))))))"

text \<open>\<open>main\<close> up to the options; \<open>open_file\<close> stands for \<open>wordexp\<close> and \<open>fopen\<close>.\<close>

definition main_arguments ::
  "u64 \<Rightarrow> (opt_key \<times> string) list \<Rightarrow> (string \<Rightarrow> string option) \<Rightarrow> arguments result" where
  "main_arguments addr argv open_file =
     (let a = args_parse argv args_get_default in
      case a Config of
        Some (CString filename) \<Rightarrow> read_config addr filename (open_file filename) a
      | _ \<Rightarrow> Inr a)"

section \<open>Supervision\<close>

text \<open>
  \<open>forking\<close>: what each \<open>fork\<close> returned and, in the parent, whether the child it waited for
  had exited. A child that crashed is started again; the list ends where the parent waits.
\<close>

datatype fork_result = ForkFailed | InChild | InParent bool

datatype fork_outcome = ExitFailure | ExitSuccess | RunChild | Waiting

fun forking :: "fork_result list \<Rightarrow> fork_outcome" where
  "forking [] = Waiting"
| "forking (InChild # _) = RunChild"
| "forking (ForkFailed # _) = ExitFailure"
| "forking (InParent exited # rs) = (if exited then ExitSuccess else forking rs)"

section \<open>Reading the shipped configuration\<close>

text \<open>The settings of \<open>sensor.conf\<close>, section by section.\<close>

definition sensor_conf :: config where
  "sensor_conf =
     [(''main'', [(''Fork'', ''0''), (''Background'', ''0'')]),
      (''capture'', [(''Interface'', ''wlan0''), (''Promiscuous'', ''1''), (''BufferSize'', ''67560000''),
         (''Timeout'', ''10'')]),
      (''persistance'', [(''Enable'', ''0''), (''Host'', ''000''), (''UtilPort'', ''5332''),
         (''DumpPort'', ''3333''), (''Key'', ''A1A1A1A1A1A1A1A1A1A1A1A1''), (''Timeout'', ''10'')]),
      (''nodes'', [(''SurveyTimeout'', ''10''), (''InitialSurveyTimeout'', ''10''),
         (''NodeDisconnectTimeout'', ''60''), (''EnableModifyRouting'', ''1''),
         (''ModifyRoutingTimeout'', ''10''), (''EnableRedirect'', ''1'')]),
      (''balancing'', [(''ListenPort'', ''31337''), (''RebalanceTimeout'', ''10''),
         (''InitialSeekTimeout'', ''10''), (''InfoRequestInterval'', ''10''), (''SessionTimeout'', ''120''),
         (''LoadCount'', ''5''), (''LoadInterval'', ''10'')])]"

definition registered :: "afield kvset" where
  "registered = \<lparr>kv_count = 6, kv_sections = Some config_sections, kv_values = Some
     (map (\<lambda>i. rev (map (\<lambda>(_, t, n, p). \<lparr>kv_type = t, kv_name = n, kv_content = p\<rparr>)
        (filter (\<lambda>(s, _). s = i) config_table))) [0..<6])\<rparr>"

lemma add_all_table: "add_all config_table (InitKVS (Some config_sections) 6) = Inr registered"
  by (simp add: config_table_def config_sections_def registered_def InitKVS_def AddKVS_def upt_rec
      eval_nat_numeral)

lemma sections_ok:
  "section_ok config_sections ''main''" "section_ok config_sections ''capture''"
  "section_ok config_sections ''persistance''" "section_ok config_sections ''nodes''"
  "section_ok config_sections ''balancing''"
  by (auto simp: section_ok_def config_sections_def)

lemma sensor_conf_ok: "config_ok config_sections sensor_conf"
  by (simp add: config_ok_def sensor_conf_def sections_ok key_ok_def value_ok_def)

lemma read_config_print:
  assumes "config_ok config_sections cfg" "filename \<noteq> []"
  shows "read_config addr filename (Some (print_config cfg)) a
    = Inr (config_store config_sections (the (kv_values registered)) cfg a)"
proof -
  have "LoadKVS addr registered filename (Some (print_config cfg)) a
      = Inr (config_store config_sections (the (kv_values registered)) cfg a, 0)"
    using assms by (intro LoadKVS_config) (simp_all add: registered_def config_sections_def)
  then show ?thesis by (simp add: read_config_def add_all_table)
qed

lemma conf_str: "strtol ''10'' = 10" "strtol ''5'' = 5" "strtol ''60'' = 60" "strtol ''120'' = 120"
  "strtol ''67560000'' = 67560000" "strtol ''5332'' = 5332" "strtol ''3333'' = 3333"
  by (simp_all add: strtol_def digits_val_def isdigit_def isspace_def)

text \<open>The same settings with the one that is not found moved to where it is registered.\<close>

definition sensor_conf_moved :: config where
  "sensor_conf_moved = sensor_conf @ [(''balancing'', [(''ModifyRoutingTimeout'', ''10'')])]"

lemma sensor_conf_moved_ok: "config_ok config_sections sensor_conf_moved"
  using sensor_conf_ok
  by (simp add: sensor_conf_moved_def config_ok_def sections_ok key_ok_def value_ok_def ball_Un)

definition conf_arguments :: arguments where
  "conf_arguments = args_get_default
     (EnableFork \<mapsto> CBool False, EnableBackground \<mapsto> CBool False,
      CaptureInterface \<mapsto> CString ''wlan0'', CapturePromiscuous \<mapsto> CBool True,
      CaptureBuffersize \<mapsto> CWord 67560000, CaptureTimeout \<mapsto> CWord 10,
      EnablePersistance \<mapsto> CBool False, HeadHost \<mapsto> CString ''000'', HeadUtilPort \<mapsto> CWord 5332,
      HeadDumpPort \<mapsto> CWord 3333, HeadKey \<mapsto> CString ''A1A1A1A1A1A1A1A1A1A1A1A1'', PersistPeriod \<mapsto> CWord 10,
      NodesSurveyTimeout \<mapsto> CWord 10, NodesSurveyInitialTimeout \<mapsto> CWord 10,
      NodesDisconnectTimeout \<mapsto> CWord 60, NodesEnableModifyRouting \<mapsto> CBool True,
      NodesEnableRedirect \<mapsto> CBool True,
      BalancingListenPort \<mapsto> CString ''31337'', BalancingTimeout \<mapsto> CWord 10,
      BalancingInitialSeekTimeout \<mapsto> CWord 10, BalancingInfoTimeout \<mapsto> CWord 10,
      BalancingSessionTimeout \<mapsto> CWord 120, BalancingLoadCount \<mapsto> CWord 5, BalancingInterval \<mapsto> CWord 10)"

lemma registered_values:
  "the (kv_values registered) = map (\<lambda>i. rev (map (\<lambda>(_, t, n, p). \<lparr>kv_type = t, kv_name = n, kv_content = p\<rparr>)
        (filter (\<lambda>(s, _). s = i) config_table))) [0..<6]"
  by (simp add: registered_def)

lemma sensor_conf_store:
  "config_store config_sections (the (kv_values registered)) sensor_conf args_get_default = conf_arguments"
  unfolding registered_values sensor_conf_def config_table_def config_sections_def
  by (simp add: config_store_def section_pos_def assign_kv_def parseValue_def conf_str
      upt_rec nth_Cons' conf_arguments_def fun_upd_twist)

lemma sensor_conf_moved_store:
  "config_store config_sections (the (kv_values registered)) sensor_conf_moved args_get_default
    = conf_arguments(NodesModifyRoutingTimeout \<mapsto> CWord 10)"
proof -
  have "config_store config_sections (the (kv_values registered)) (xs @ ys) st
      = config_store config_sections (the (kv_values registered)) ys
          (config_store config_sections (the (kv_values registered)) xs st)" for xs ys and st :: arguments
    by (simp add: config_store_def)
  then show ?thesis
    unfolding sensor_conf_moved_def
    by (simp add: sensor_conf_store)
      (simp add: registered_values config_table_def config_sections_def config_store_def
        section_pos_def assign_kv_def parseValue_def conf_str upt_rec nth_Cons')
qed

section \<open>Properties\<close>

text \<open>Every option of the table has a field of its own.\<close>

lemma registered_entries:
  assumes "(sec, type, name, f) \<in> set config_table"
  shows "\<lparr>kv_type = type, kv_name = name, kv_content = f\<rparr> \<in> set (the (kv_values registered) ! sec)" "sec < 6" "type \<noteq> KVS_HEX"
proof -
  show sec: "sec < 6" "type \<noteq> KVS_HEX" using assms by (auto simp: config_table_def)
  have "(type, name, f) \<in> snd ` set (filter (\<lambda>(s, _). s = sec) config_table)"
    using assms by (force simp: image_iff)
  then show "\<lparr>kv_type = type, kv_name = name, kv_content = f\<rparr> \<in> set (the (kv_values registered) ! sec)"
    using sec assms by (force simp: registered_values)
qed

lemma registered_fields:
  "distinct (map kv_content (concat (the (kv_values registered))))"
  "kv_content ` set (concat (the (kv_values registered))) = (\<lambda>(_, _, _, f). f) ` set config_table"
  unfolding registered_values config_table_def by (simp_all add: upt_rec) auto

text \<open>C32. Every option of the configuration file reaches the field it is registered for, and nothing else happens.
  For any settings that \<open>LoadKVS\<close> reads, \<open>read_config\<close> leaves each of the 25 registered fields with the value printed
  last for its name in its section, parsed by its type, or with what it held where there is none, and all other fields
  alone.\<close>

theorem config_settings:
  assumes "config_ok config_sections cfg" and "filename \<noteq> []"
  shows "\<exists>a'. read_config addr filename (Some (print_config cfg)) a = Inr a' \<and>
    (\<forall>(sec, type, name, f)\<in>set config_table. a' f =
       (case last_setting cfg (config_sections ! sec) name of None \<Rightarrow> a f | Some v \<Rightarrow> parseValue type v)) \<and>
    (\<forall>f. f \<notin> (\<lambda>(_, _, _, f). f) ` set config_table \<longrightarrow> a' f = a f)"
proof (intro exI conjI ballI allI impI)
  let ?vs = "the (kv_values registered)" let ?a = "config_store config_sections ?vs cfg a"
  show "read_config addr filename (Some (print_config cfg)) a = Inr ?a" by (rule read_config_print [OF assms])
  have ss: "distinct config_sections" "length ?vs = length config_sections" "length config_sections = 6"
    by (simp_all add: config_sections_def registered_values)
  have cfg: "\<forall>(s, kvs)\<in>set cfg. s \<in> set config_sections"
    using assms(1) by (auto simp: config_ok_def section_ok_def)
  show "?a f = a f" if "f \<notin> (\<lambda>(_, _, _, f). f) ` set config_table" for f
    using config_store_other [OF ss(2) _ cfg] that registered_fields(2) by simp
  fix x assume x: "x \<in> set config_table"
  obtain sec type name f where eq: "x = (sec, type, name, f)" by (cases x)
  note entry = registered_entries [OF x [unfolded eq]]
  have "?a f = set_by type (settings cfg (config_sections ! sec) name) (a f)"
    using config_store_setting [OF ss(1,2) registered_fields(1) _ entry(1) _ cfg, of a] entry ss(3) by simp
  then show "case x of (sec, type, name, f) \<Rightarrow> ?a f =
       (case last_setting cfg (config_sections ! sec) name of None \<Rightarrow> a f | Some v \<Rightarrow> parseValue type v)"
    by (simp add: eq set_by_def last_setting_def Let_def)
qed

theorem config_settings_witness:
  "\<exists>a'. read_config 0 ''sensor.conf'' (Some (print_config sensor_conf)) args_get_default = Inr a' \<and>
     a' CaptureInterface = Some (CString ''wlan0'') \<and> a' NodesModifyRoutingTimeout = None \<and> a' Verbose = Some (CBool False)"
proof -
  obtain a' where a': "read_config 0 ''sensor.conf'' (Some (print_config sensor_conf)) args_get_default = Inr a'"
    and s: "\<forall>(sec, type, name, f)\<in>set config_table. a' f =
       (case last_setting sensor_conf (config_sections ! sec) name of None \<Rightarrow> args_get_default f | Some v \<Rightarrow> parseValue type v)"
    and u: "\<forall>f. f \<notin> (\<lambda>(_, _, _, f). f) ` set config_table \<longrightarrow> a' f = args_get_default f"
    using config_settings [OF sensor_conf_ok, of "''sensor.conf''" 0 args_get_default] by blast
  have mem: "(1, KVS_STRING, ''Interface'', CaptureInterface) \<in> set config_table"
    "(4, KVS_UINT32, ''ModifyRoutingTimeout'', NodesModifyRoutingTimeout) \<in> set config_table"
    "Verbose \<notin> (\<lambda>(_, _, _, f). f) ` set config_table"
    by (simp_all add: config_table_def)
  have "a' CaptureInterface = Some (CString ''wlan0'')" "a' NodesModifyRoutingTimeout = None"
    using bspec [OF s mem(1)] bspec [OF s mem(2)]
    by (simp_all add: last_setting_def settings_def sensor_conf_def config_sections_def parseValue_def args_get_default_def
        eval_nat_numeral)
  moreover have "a' Verbose = Some (CBool False)" using u mem(3) by (simp add: args_get_default_def)
  ultimately show ?thesis using a' by blast
qed

text \<open>The shipped settings, printed, leave an option without a value: \<open>ModifyRoutingTimeout\<close> stands in
  section \<open>nodes\<close> of the file and is registered in section \<open>balancing\<close>, so that \<open>main\<close>
  passes on an uninitialised \<open>modify_routing_timeout\<close>. With that line moved to \<open>balancing\<close>,
  they reach the library setting for setting.\<close>

theorem shipped_config:
  "rbind (read_config addr ''sensor.conf'' (Some (print_config sensor_conf)) args_get_default) main_options
     = Inl Uninitialised \<and>
   rbind (read_config addr ''sensor.conf'' (Some (print_config sensor_conf_moved)) args_get_default)
     main_options
     = Inr \<lparr>so_capture = \<lparr>oc_device = strncpy 16 ''wlan0'', oc_promiscuous = True,
              oc_buffersize = 67560000, oc_timeout = 10\<rparr>,
            so_persist = 10,
            so_nodes = \<lparr>os_survey = 10, os_initial = 10, os_disconnect = 60, os_redirect = True,
              os_modify = True, os_modify_timeout = 10\<rparr>,
            so_balancing = \<lparr>ob_device = strncpy 16 ''wlan0'', ob_timeout = 10, ob_initial = 10,
              ob_info = 10, ob_session = 120, ob_count = 5, ob_interval = 10\<rparr>\<rparr>"
  by (simp add: read_config_print sensor_conf_ok sensor_conf_moved_ok sensor_conf_store
      sensor_conf_moved_store)
    (simp add: main_options_def get_field_defs conf_arguments_def args_get_default_def)

lemma parse_options_nodes:
  "parse_options key arg a = Some a' \<Longrightarrow> a' NodesSurveyTimeout = a NodesSurveyTimeout"
  by (auto simp: parse_options_def split: opt_key.splits if_splits)

lemma args_parse_nodes: "args_parse argv a NodesSurveyTimeout = a NodesSurveyTimeout"
  by (induction argv a rule: args_parse.induct) (auto dest: parse_options_nodes split: option.splits)

text \<open>A field that is read before is there or it is not: the one without a value stops it.\<close>

lemma get_field_missing:
  "(\<And>w. k w = Inl Uninitialised) \<Longrightarrow> get_word a f k = Inl Uninitialised"
  "(\<And>b. k' b = Inl Uninitialised) \<Longrightarrow> get_flag a f k' = Inl Uninitialised"
  "(\<And>s. k'' s = Inl Uninitialised) \<Longrightarrow> get_text a f k'' = Inl Uninitialised"
  by (simp_all add: get_field_defs split: option.split cval.split)

lemma main_options_missing:
  assumes "a NodesSurveyTimeout = None"
  shows "main_options a = Inl Uninitialised"
proof -
  have none: "get_word a NodesSurveyTimeout k = (Inl Uninitialised :: sensor_options result)" for k
    by (simp add: get_word_def assms)
  show ?thesis unfolding main_options_def by (rule none get_field_missing)+
qed

text \<open>Without a configuration file, whatever the command line says, the options are made
  from uninitialised fields: no default and no option sets the survey's timeouts or the
  balancing.\<close>

theorem no_config_uninitialised:
  assumes "\<And>s. args_parse argv args_get_default Config \<noteq> Some (CString s)"
  shows "rbind (main_arguments addr argv open_file) main_options = Inl Uninitialised"
proof -
  let ?a = "args_parse argv args_get_default"
  have "?a NodesSurveyTimeout = None" by (simp add: args_parse_nodes args_get_default_def)
  then have "main_options ?a = Inl Uninitialised" by (rule main_options_missing)
  moreover have "main_arguments addr argv open_file = Inr ?a"
    using assms by (simp add: main_arguments_def Let_def split: option.split cval.split)
  ultimately show ?thesis by simp
qed

theorem no_config_uninitialised_witness:
  "rbind (main_arguments 0 [(Short (CHR ''p''), [])] (\<lambda>_. None)) main_options = Inl Uninitialised"
  by (rule no_config_uninitialised) (simp add: parse_options_def args_get_default_def)

text \<open>The supervisor starts a child again after every crash and never after an exit: it runs a
  new child, stops with an error, or stops with success, according to the first wait or
  fork that is not a crash.\<close>

theorem forking_restarts:
  "forking (replicate n (InParent False) @ r # rs) =
     (case r of InChild \<Rightarrow> RunChild | ForkFailed \<Rightarrow> ExitFailure
      | InParent exited \<Rightarrow> if exited then ExitSuccess else forking rs)"
  by (induction n) (simp_all split: fork_result.split)

end
