(* ===== verification/StreamSpec.thy ===== *)
theory StreamSpec
  imports Prelude
begin

text \<open>
  What a connection relies on in its buffers: bytes are put in at one end and taken out at the
  other, and nothing is lost or reordered between them. The laws are stated for a provider of
  \<open>put\<close>, \<open>take_out\<close> and \<open>clear\<close>; the lemmas are the steps of a stream whose first part, \<open>gone\<close>,
  has left the buffer.
\<close>

locale byte_buffer =
  fixes ok :: "'b \<Rightarrow> bool"
    and content :: "'b \<Rightarrow> byte list"
    and room :: "'b \<Rightarrow> nat"
    and put :: "'b \<Rightarrow> byte list \<Rightarrow> 'b result"
    and take_out :: "'b \<Rightarrow> nat \<Rightarrow> 'b"
    and clear :: "'b \<Rightarrow> 'b"
    and limit :: nat
  assumes put_ok: "ok b \<Longrightarrow> room b + length xs < limit \<Longrightarrow>
      \<exists>b'. put b xs = Inr b' \<and> ok b' \<and> content b' = content b @ xs \<and> room b' \<le> room b + length xs"
    and take_ok: "ok b \<Longrightarrow> n \<le> length (content b) \<Longrightarrow>
      ok (take_out b n) \<and> content (take_out b n) = drop n (content b) \<and> room (take_out b n) = room b"
    and clear_ok: "ok b \<Longrightarrow> ok (clear b) \<and> content (clear b) = [] \<and> room (clear b) = room b"
begin

definition stream :: "'b \<Rightarrow> byte list \<Rightarrow> byte list \<Rightarrow> bool" where
  "stream b gone all \<longleftrightarrow> ok b \<and> gone @ content b = all"

lemma stream_ok: "stream b gone all \<Longrightarrow> ok b"
  by (simp add: stream_def)

lemma stream_more:
  assumes "stream b gone all" "ok b'" "content b' = content b @ xs"
  shows "stream b' gone (all @ xs)"
  using assms by (auto simp: stream_def)

lemma stream_less:
  assumes "stream b gone all" "ok b'" "content b' = drop n (content b)"
  shows "stream b' (gone @ take n (content b)) all"
  using assms by (auto simp: stream_def)

lemma stream_put:
  assumes "stream b gone all" "room b + length xs < limit"
  shows "\<exists>b'. put b xs = Inr b' \<and> stream b' gone (all @ xs) \<and> room b' \<le> room b + length xs"
  using put_ok [of b xs] stream_more [OF assms(1)] stream_ok [OF assms(1)] assms(2) by blast

lemma stream_take:
  assumes "stream b gone all" "n \<le> length (content b)"
  shows "stream (take_out b n) (gone @ take n (content b)) all" "room (take_out b n) = room b"
  using take_ok [OF stream_ok [OF assms(1)] assms(2)] stream_less [OF assms(1)] by simp_all

lemma stream_clear:
  assumes "stream b gone all" "content b = []"
  shows "stream (clear b) gone all" "room (clear b) = room b"
  using assms clear_ok [of b] by (auto simp: stream_def)

lemma stream_split: "stream b gone all \<Longrightarrow> gone @ content b = all"
  by (simp add: stream_def)

end

end
