(* ===== verification/NetBuffer.thy ===== *)
theory NetBuffer
  imports StreamSpec
begin

text \<open>
  \<open>reactor/buffer.hpp\<close> and \<open>reactor/utils.cpp\<close>: the growing byte buffer of a connection and
  the two functions that fill it from a socket and drain it to one. The four pointers are
  the memory between \<open>begin\<close> and \<open>end\<close> and two offsets into it.
\<close>

section \<open>Buffer\<close>

record nbuf =
  nb_mem :: "byte list"
  nb_r :: nat
  nb_w :: nat

definition nb_new :: "nat \<Rightarrow> nbuf" where
  "nb_new initial = \<lparr>nb_mem = replicate initial 0, nb_r = 0, nb_w = 0\<rparr>"

definition nb_size :: "nbuf \<Rightarrow> nat" where
  "nb_size b = length (nb_mem b)"

text \<open>Both are differences of pointers converted to \<open>size_t\<close>.\<close>

definition nb_pending :: "nbuf \<Rightarrow> u64" where
  "nb_pending b = word_of_nat (nb_w b) - word_of_nat (nb_r b)"

definition nb_writable :: "nbuf \<Rightarrow> u64" where
  "nb_writable b = word_of_nat (nb_size b) - word_of_nat (nb_w b)"

definition nb_processed :: "nbuf \<Rightarrow> nat \<Rightarrow> nbuf" where
  "nb_processed b n = b\<lparr>nb_r := nb_r b + n\<rparr>"

definition nb_written :: "nbuf \<Rightarrow> nat \<Rightarrow> nbuf" where
  "nb_written b n = b\<lparr>nb_w := nb_w b + n\<rparr>"

definition nb_reset :: "nbuf \<Rightarrow> nbuf" where
  "nb_reset b = b\<lparr>nb_r := 0, nb_w := 0\<rparr>"

text \<open>\<open>realloc\<close> keeps what fits; the rest behind the write position is cleared.\<close>

definition nb_expandTo :: "nbuf \<Rightarrow> nat \<Rightarrow> nbuf" where
  "nb_expandTo b s =
     b\<lparr>nb_mem := take (nb_w b) (take s (nb_mem b)) @ replicate (s - min (nb_w b) s) 0\<rparr>"

definition nb_append :: "nbuf \<Rightarrow> byte list \<Rightarrow> nbuf result" where
  "nb_append b data =
     (let len = length data;
          b = (if nb_writable b < word_of_nat len then nb_expandTo b (nb_size b + len) else b)
      in rbind (mem_write (nb_mem b) (nb_w b) data) (\<lambda>m. Inr (nb_written (b\<lparr>nb_mem := m\<rparr>) len)))"

section \<open>To and from a socket\<close>

text \<open>What a system call returns: bytes or a count, or an error number.\<close>

datatype 'a sys_ret = SysOk 'a | SysErr nat

text \<open>
  \<open>readv\<close> fills the buffer's free part first and then \<open>extended\<close>; \<open>os\<close> is asked for at
  most as many bytes as both hold. The result is the count, \<open>-1\<close> with \<open>errno\<close>.
\<close>

definition bufferedRecv ::
  "(nat \<Rightarrow> byte list sys_ret) \<Rightarrow> nbuf \<Rightarrow> (nbuf \<times> nat sys_ret) result" where
  "bufferedRecv os b =
     (let writable = nb_writable b in
      case os (unat writable + 4096) of
        SysErr e \<Rightarrow> Inr (b, SysErr e)
      | SysOk bs \<Rightarrow>
          let got = length bs; first = take (unat writable) bs; extended = drop (unat writable) bs in
          rbind (mem_write (nb_mem b) (nb_w b) first) (\<lambda>m.
            let b = b\<lparr>nb_mem := m\<rparr> in
            if got > unat writable then
              let b = nb_written b got in
              rbind (nb_append b extended) (\<lambda>b. Inr (b, SysOk got))
            else if got > 0 then Inr (nb_written b got, SysOk got)
            else Inr (b, SysOk got)))"

text \<open>\<open>os\<close> gets the bytes to send and says how many it took.\<close>

definition bufferedSend ::
  "(byte list \<Rightarrow> nat sys_ret) \<Rightarrow> nbuf \<Rightarrow> (nbuf \<times> nat sys_ret) result" where
  "bufferedSend os b =
     rbind (mem_read (nb_mem b) (nb_r b) (unat (nb_pending b))) (\<lambda>bs.
       case os bs of
         SysErr e \<Rightarrow> Inr (b, SysErr e)
       | SysOk got \<Rightarrow> Inr (if got > 0 then nb_processed b got else b, SysOk got))"

section \<open>What a buffer holds\<close>

definition nb_data :: "nbuf \<Rightarrow> byte list" where
  "nb_data b = take (nb_w b - nb_r b) (drop (nb_r b) (nb_mem b))"

definition nb_ok :: "nbuf \<Rightarrow> bool" where
  "nb_ok b \<longleftrightarrow> nb_r b \<le> nb_w b \<and> nb_w b \<le> length (nb_mem b) \<and> length (nb_mem b) < 2 ^ 63"

lemma word_diff_nat: "a \<le> b \<Longrightarrow> b < 2 ^ 64 \<Longrightarrow> unat (word_of_nat b - word_of_nat a :: u64) = b - a"
  by (simp add: unat_of_nat take_bit_nat_eq_self flip: of_nat_diff)

lemma nb_pending_ok: "nb_ok b \<Longrightarrow> unat (nb_pending b) = length (nb_data b)"
  by (auto simp: nb_ok_def nb_pending_def nb_data_def word_diff_nat)

lemma nb_writable_ok: "nb_ok b \<Longrightarrow> unat (nb_writable b) = nb_size b - nb_w b"
  by (simp add: nb_ok_def nb_writable_def nb_size_def word_diff_nat)

lemma nb_data_write:
  assumes "nb_r b \<le> nb_w b" "nb_w b + length xs \<le> length (nb_mem b)"
  shows "nb_data (b\<lparr>nb_mem := splice (nb_mem b) (nb_w b) xs, nb_w := nb_w b + length xs\<rparr>) = nb_data b @ xs"
  using assms by (simp add: nb_data_def splice_def drop_take)

text \<open>Appending keeps what is pending and puts the data behind it.\<close>

lemma nb_append_ok:
  assumes b: "nb_ok b" and len: "nb_size b + length xs < 2 ^ 63"
  shows "\<exists>b'. nb_append b xs = Inr b' \<and> nb_ok b' \<and> nb_data b' = nb_data b @ xs"
proof -
  define b1 where "b1 = (if nb_writable b < word_of_nat (length xs) then nb_expandTo b (nb_size b + length xs) else b)"
  have n: "unat (word_of_nat (length xs) :: u64) = length xs"
    using len by (simp add: unat_of_nat take_bit_nat_eq_self)
  have w: "nb_r b \<le> nb_w b" "nb_w b \<le> length (nb_mem b)" using b by (simp_all add: nb_ok_def)
  have b1: "nb_r b1 = nb_r b" "nb_w b1 = nb_w b" "nb_data b1 = nb_data b"
    "nb_w b + length xs \<le> length (nb_mem b1)" "length (nb_mem b1) < 2 ^ 63"
    using w len b nb_writable_ok [OF b]
    by (auto simp: b1_def nb_expandTo_def nb_data_def nb_size_def nb_ok_def word_less_nat_alt n min_def drop_take)
  have "nb_append b xs = Inr (b1\<lparr>nb_mem := splice (nb_mem b1) (nb_w b1) xs, nb_w := nb_w b1 + length xs\<rparr>)"
    using b1 by (simp add: nb_append_def Let_def mem_write_def nb_written_def flip: b1_def)
  moreover have "nb_data (b1\<lparr>nb_mem := splice (nb_mem b1) (nb_w b1) xs, nb_w := nb_w b1 + length xs\<rparr>)
      = nb_data b @ xs"
    using nb_data_write [of b1 xs] b1 w by simp
  ultimately show ?thesis using b1 w by (simp add: nb_ok_def)
qed

lemma nb_processed_ok:
  "nb_ok b \<Longrightarrow> n \<le> length (nb_data b) \<Longrightarrow>
   nb_ok (nb_processed b n) \<and> nb_data (nb_processed b n) = drop n (nb_data b)"
  by (auto simp: nb_ok_def nb_processed_def nb_data_def drop_take add.commute)

lemma nb_reset_ok: "nb_ok b \<Longrightarrow> nb_ok (nb_reset b) \<and> nb_data (nb_reset b) = []"
  by (simp add: nb_ok_def nb_reset_def nb_data_def)

lemma nb_new_ok: "n < 2 ^ 63 \<Longrightarrow> nb_ok (nb_new n) \<and> nb_data (nb_new n) = []"
  by (simp add: nb_ok_def nb_new_def nb_data_def)

text \<open>Receiving within the free space.\<close>

lemma bufferedRecv_fits:
  assumes "nb_ok b" "os (unat (nb_writable b) + 4096) = SysOk bs" "length bs \<le> nb_size b - nb_w b"
  shows "\<exists>b'. bufferedRecv os b = Inr (b', SysOk (length bs)) \<and> nb_ok b' \<and> nb_data b' = nb_data b @ bs \<and>
    nb_size b' = nb_size b"
proof -
  have w: "nb_r b \<le> nb_w b" "nb_w b \<le> length (nb_mem b)" "length (nb_mem b) < 2 ^ 63"
    using assms(1) by (simp_all add: nb_ok_def)
  let ?b = "b\<lparr>nb_mem := splice (nb_mem b) (nb_w b) bs, nb_w := nb_w b + length bs\<rparr>"
  have "bufferedRecv os b = Inr (?b, SysOk (length bs))"
    using assms w nb_writable_ok [OF assms(1)]
    by (cases bs) (auto simp: bufferedRecv_def nb_size_def mem_write_def nb_written_def Let_def)
  moreover have "nb_data ?b = nb_data b @ bs"
    using assms(3) w by (intro nb_data_write) (simp_all add: nb_size_def)
  ultimately show ?thesis using assms(3) w by (simp add: nb_ok_def nb_size_def)
qed

lemma bufferedRecv_exceeds:
  assumes "nb_ok b" "os (unat (nb_writable b) + 4096) = SysOk bs" "nb_size b - nb_w b < length bs"
    "length bs < 2 ^ 62"
  shows "bufferedRecv os b = Inl OutOfBounds"
proof -
  have w: "nb_r b \<le> nb_w b" "nb_w b \<le> length (nb_mem b)" "length (nb_mem b) < 2 ^ 63"
    using assms(1) by (simp_all add: nb_ok_def)
  define first where "first = take (nb_size b - nb_w b) bs"
  define ext where "ext = drop (nb_size b - nb_w b) bs"
  let ?b = "b\<lparr>nb_mem := splice (nb_mem b) (nb_w b) first, nb_w := nb_w b + length bs\<rparr>"
  have len: "length first = nb_size b - nb_w b" "0 < length ext" "length ext \<le> length bs"
    using assms(3) by (simp_all add: first_def ext_def)
  have m: "length (nb_mem ?b) = nb_size b" using w len by (simp add: nb_size_def)
  have gt: "nb_size b < nb_w b + length bs" using assms(3) by simp
  have "unat (word_of_nat (nb_size b) :: u64) = nb_size b"
    "unat (word_of_nat (nb_w b + length bs) :: u64) = nb_w b + length bs"
    using w assms(4) by (simp_all add: nb_size_def unat_of_nat take_bit_nat_eq_self del: of_nat_add)
  then have "unat (nb_writable ?b) = nb_size b + 2 ^ 64 - (nb_w b + length bs)"
    using gt m by (simp add: nb_writable_def nb_size_def unat_sub_if_size word_size del: of_nat_add)
  then have "\<not> nb_writable ?b < word_of_nat (length ext)"
    using len(3) assms(4) w by (simp add: word_less_nat_alt unat_of_nat take_bit_nat_eq_self nb_size_def)
  then have "nb_append ?b ext = Inl OutOfBounds"
    using gt m len(2) by (simp add: nb_append_def mem_write_def Let_def)
  then show ?thesis
    using assms(2,3) w len(1) nb_writable_ok [OF assms(1)]
    by (simp add: bufferedRecv_def mem_write_def nb_written_def nb_size_def Let_def
        first_def [symmetric, unfolded nb_size_def] ext_def [symmetric, unfolded nb_size_def])
qed

lemma mem_read_data: "nb_ok b \<Longrightarrow> mem_read (nb_mem b) (nb_r b) (unat (nb_pending b)) = Inr (nb_data b)"
  using nb_pending_ok [of b] by (auto simp: nb_ok_def nb_data_def mem_read_def)

lemma bufferedSend_ok:
  assumes "nb_ok b" "\<And>n. r = SysOk n \<Longrightarrow> n \<le> length (nb_data b)"
  shows "\<exists>b'. bufferedSend (\<lambda>_. r) b = Inr (b', r) \<and> nb_ok b' \<and> nb_size b' = nb_size b \<and>
    nb_data b' = (case r of SysOk n \<Rightarrow> drop n (nb_data b) | SysErr _ \<Rightarrow> nb_data b)"
  using assms mem_read_data [OF assms(1)] nb_processed_ok [OF assms(1)]
  by (cases r) (auto simp: bufferedSend_def nb_size_def nb_processed_def)

text \<open>The buffer keeps the contract of a byte stream.\<close>

lemma nb_append_size:
  "nb_append b xs = Inr b' \<Longrightarrow> nb_ok b \<Longrightarrow> nb_size b + length xs < 2 ^ 63 \<Longrightarrow> nb_size b' \<le> nb_size b + length xs"
  by (auto simp: nb_append_def mem_write_def nb_size_def nb_written_def nb_expandTo_def Let_def nb_ok_def
      split: if_splits)

lemma nb_sizes [simp]: "nb_size (nb_processed b n) = nb_size b" "nb_size (nb_reset b) = nb_size b"
  by (simp_all add: nb_size_def nb_processed_def nb_reset_def)

interpretation nb: byte_buffer nb_ok nb_data nb_size nb_append nb_processed nb_reset "2 ^ 63"
proof
  fix b :: nbuf and xs :: "byte list"
  assume "nb_ok b" "nb_size b + length xs < 2 ^ 63"
  then show "\<exists>b'. nb_append b xs = Inr b' \<and> nb_ok b' \<and> nb_data b' = nb_data b @ xs \<and> nb_size b' \<le> nb_size b + length xs"
    using nb_append_ok [of b xs] nb_append_size [of b xs] by blast
qed (use nb_processed_ok nb_reset_ok in simp_all)

section \<open>Properties\<close>

text \<open>C30. \<open>bufferedRecv\<close> puts what it received behind what was pending as long as it fits the
  buffer's free space. One byte more, and the write position is moved past the end before
  the rest is appended: \<open>writable\<close> wraps around, the buffer is not enlarged, and the rest is
  written behind it.\<close>

theorem recv_overflows:
  assumes "nb_ok b" and "os (unat (nb_writable b) + 4096) = SysOk bs" and "length bs < 2 ^ 62"
  shows "if length bs \<le> nb_size b - nb_w b
    then \<exists>b'. bufferedRecv os b = Inr (b', SysOk (length bs)) \<and> nb_ok b' \<and> nb_data b' = nb_data b @ bs
    else bufferedRecv os b = Inl OutOfBounds"
  using bufferedRecv_fits [of b os bs, OF assms(1,2)] bufferedRecv_exceeds [of b os bs, OF assms(1,2) _ assms(3)]
  by auto

theorem recv_overflows_witness:
  "bufferedRecv (\<lambda>_. SysOk [1, 2, 3]) (nb_new 2) = Inl OutOfBounds \<and>
   (\<exists>b'. bufferedRecv (\<lambda>_. SysOk [1, 2]) (nb_new 2) = Inr (b', SysOk 2) \<and> nb_data b' = [1, 2])"
proof -
  have "nb_ok (nb_new 2)" "nb_size (nb_new 2) = 2" "nb_w (nb_new 2) = 0" "nb_data (nb_new 2) = []"
    by (simp_all add: nb_ok_def nb_new_def nb_size_def nb_data_def)
  then show ?thesis
    using recv_overflows [of "nb_new 2" "\<lambda>_. SysOk [1, 2, 3]" "[1, 2, 3]"]
      recv_overflows [of "nb_new 2" "\<lambda>_. SysOk [1, 2]" "[1, 2]"]
    by (auto simp flip: numeral_2_eq_2 numeral_3_eq_3)
qed

end
