(* ===== verification/StreamLink.thy ===== *)
theory StreamLink
  imports NetBuffer CircularBuffer
begin

text \<open>
  \<open>reactor/stream_link.cpp\<close>, with \<open>set_io_events\<close> of \<open>reactor/event_loop.hpp\<close> and the callbacks
  of \<open>reactor/callback.hpp\<close>: a connection with a buffer in each direction, driven by a libev
  watcher. System calls are parameters of each event. A callback is the list of calls its body
  makes on the link, and \<open>None\<close> if it was never set. The calls to libev and the kernel are
  recorded in \<open>l_trace\<close>, together with the bytes that pass the interface of the link.
\<close>

section \<open>The watcher and its trace\<close>

text \<open>The fields of \<open>ev_io\<close> that the code reads or writes.\<close>

record watcher =
  w_fd :: int
  w_events :: nat
  w_active :: bool

definition EV_READ :: nat where "EV_READ = 1"
definition EV_WRITE :: nat where "EV_WRITE = 2"

datatype link_event =
    EvStart int nat
  | EvStop int
  | CloseFd int
  | Wrote "byte list"
  | Sent "byte list"
  | Received "byte list"
  | Consumed "byte list"
  | Disposed

datatype link_state = OK | DISCONNECT | READ_ERROR | WRITE_ERROR

datatype user_op = UWrite "byte list" | URead nat | USetReceiving bool | UMakeDisconnect

type_synonym callback = "user_op list option"

record slink =
  m_handler :: watcher
  m_state :: link_state
  saved_errno :: nat
  m_receive :: bool
  m_sock :: int
  onRead :: callback
  onWriteCompleted :: callback
  onDispose :: callback
  m_in :: nbuf
  m_out :: nbuf
  m_reactor :: bool
  l_trace :: "link_event list"

text \<open>The constructor leaves the watcher as the memory was; \<open>Socket()\<close> is descriptor 0.\<close>

definition link_new :: "watcher \<Rightarrow> slink" where
  "link_new w = \<lparr>m_handler = w, m_state = OK, saved_errno = 0, m_receive = False, m_sock = 0,
     onRead = None, onWriteCompleted = None, onDispose = None,
     m_in = nb_new 2048, m_out = nb_new 2048, m_reactor = False, l_trace = []\<rparr>"

definition log :: "link_event \<Rightarrow> slink \<Rightarrow> slink" where
  "log e l = l\<lparr>l_trace := l_trace l @ [e]\<rparr>"

text \<open>libev: starting an active watcher and stopping an inactive one do nothing.\<close>

definition ev_io_start :: "slink \<Rightarrow> slink" where
  "ev_io_start l =
     (if w_active (m_handler l) then l
      else log (EvStart (w_fd (m_handler l)) (w_events (m_handler l)))
             (l\<lparr>m_handler := (m_handler l)\<lparr>w_active := True\<rparr>\<rparr>))"

definition ev_io_stop :: "slink \<Rightarrow> slink" where
  "ev_io_stop l =
     (if w_active (m_handler l)
      then log (EvStop (w_fd (m_handler l))) (l\<lparr>m_handler := (m_handler l)\<lparr>w_active := False\<rparr>\<rparr>)
      else l)"

definition set_io_events :: "nat \<Rightarrow> slink \<Rightarrow> slink" where
  "set_io_events events l =
     (let is_active = w_active (m_handler l);
          l = (if is_active then ev_io_stop l else l);
          l = l\<lparr>m_handler := (m_handler l)\<lparr>w_fd := w_fd (m_handler l), w_events := events\<rparr>\<rparr>
      in if is_active then ev_io_start l else l)"

section \<open>What the user of a link calls\<close>

definition isSending :: "slink \<Rightarrow> bool" where
  "isSending l \<longleftrightarrow> nb_pending (m_out l) \<noteq> 0"

definition setReceiving :: "bool \<Rightarrow> slink \<Rightarrow> slink" where
  "setReceiving val l = (if m_state l = OK then l\<lparr>m_receive := val\<rparr> else l)"

definition errorOccured :: "slink \<Rightarrow> nat" where
  "errorOccured l = (if m_state l = READ_ERROR \<or> m_state l = WRITE_ERROR then saved_errno l else 0)"

definition makeDisconnect :: "slink \<Rightarrow> slink" where
  "makeDisconnect l = (if m_state l = OK then l\<lparr>m_state := DISCONNECT\<rparr> else l)"

definition peek :: "slink \<Rightarrow> byte list result" where
  "peek l = mem_read (nb_mem (m_in l)) (nb_r (m_in l)) (unat (nb_pending (m_in l)))"

definition advance :: "nat \<Rightarrow> slink \<Rightarrow> slink" where
  "advance n l = l\<lparr>m_in := nb_processed (m_in l) n\<rparr>"

definition link_write :: "byte list \<Rightarrow> slink \<Rightarrow> slink result" where
  "link_write data l = rbind (nb_append (m_out l) data) (\<lambda>b. Inr (log (Wrote data) (l\<lparr>m_out := b\<rparr>)))"

text \<open>\<open>URead n\<close>: the user peeks and advances by what it used, at most \<open>n\<close> bytes.\<close>

fun user_call :: "user_op \<Rightarrow> slink \<Rightarrow> slink result" where
  "user_call (UWrite data) l = link_write data l"
| "user_call (URead n) l =
     rbind (peek l) (\<lambda>d. Inr (log (Consumed (take n d)) (advance (length (take n d)) l)))"
| "user_call (USetReceiving v) l = Inr (setReceiving v l)"
| "user_call UMakeDisconnect l = Inr (makeDisconnect l)"

fun user_calls :: "user_op list \<Rightarrow> slink \<Rightarrow> slink result" where
  "user_calls [] l = Inr l"
| "user_calls (u # us) l = rbind (user_call u l) (user_calls us)"

definition invoke :: "callback \<Rightarrow> slink \<Rightarrow> slink result" where
  "invoke cb l = (case cb of None \<Rightarrow> Inl NullDeref | Some us \<Rightarrow> user_calls us l)"

section \<open>The handlers\<close>

text \<open>
  \<open>got\<close> is a \<open>size_t\<close>: \<open>got > 0\<close> holds of \<open>-1\<close> as well. The bytes of a receive are logged
  when they are in the buffer, those of a send when the kernel has taken them.
\<close>

definition saw_error :: "link_state \<Rightarrow> 'a sys_ret \<Rightarrow> slink \<Rightarrow> slink" where
  "saw_error st got l =
     (case got of
        SysErr e \<Rightarrow> if try_again e then l else l\<lparr>m_state := st, saved_errno := e\<rparr>
      | SysOk _ \<Rightarrow> l)"

definition processRead :: "(nat \<Rightarrow> byte list sys_ret) \<Rightarrow> slink \<Rightarrow> slink result" where
  "processRead os l =
     rbind (bufferedRecv os (m_in l)) (\<lambda>(b, got).
       let l = (case got of SysOk n \<Rightarrow> log (Received (drop (length (nb_data b) - n) (nb_data b))) (l\<lparr>m_in := b\<rparr>)
                | SysErr _ \<Rightarrow> l\<lparr>m_in := b\<rparr>);
           l = saw_error READ_ERROR got l;
           l = (if got = SysOk 0 then l\<lparr>m_state := DISCONNECT\<rparr> else l)
       in if got \<noteq> SysOk 0 \<and> nb_pending (m_in l) \<noteq> 0
          then rbind (invoke (onRead l) l) (\<lambda>l.
            Inr (if nb_pending (m_in l) = 0 then l\<lparr>m_in := nb_reset (m_in l)\<rparr> else l))
          else Inr l)"

definition processWrite :: "(byte list \<Rightarrow> nat sys_ret) \<Rightarrow> slink \<Rightarrow> slink result" where
  "processWrite os l =
     rbind (bufferedSend os (m_out l)) (\<lambda>(b, got).
       let l = (case got of SysOk n \<Rightarrow> log (Sent (take n (nb_data (m_out l)))) (l\<lparr>m_out := b\<rparr>)
                | SysErr _ \<Rightarrow> l\<lparr>m_out := b\<rparr>);
           l = saw_error WRITE_ERROR got l
       in if got \<noteq> SysOk 0 \<and> nb_pending (m_out l) = 0
          then (let l = l\<lparr>m_out := nb_reset (m_out l)\<rparr> in invoke (onWriteCompleted l) l)
          else Inr l)"

text \<open>The condition on the state for \<open>EV_READ\<close> is a conjunction of two values.\<close>

definition wanted_events :: "slink \<Rightarrow> nat" where
  "wanted_events l =
     (if m_receive l \<and> (m_state l = OK \<and> m_state l = WRITE_ERROR) then EV_READ else 0)
     + (if isSending l \<and> m_state l = OK then EV_WRITE else 0)"

definition prepareEvents :: "slink \<Rightarrow> (slink \<times> bool) result" where
  "prepareEvents l =
     (if m_state l = DISCONNECT \<or> m_state l = READ_ERROR then Inr (l, False)
      else if \<not> m_reactor l then Inl NullDeref
      else Inr (set_io_events (wanted_events l) l, True))"

definition link_destroy :: "slink \<Rightarrow> slink" where
  "link_destroy l = (if m_sock l \<noteq> 0 then log (CloseFd (m_sock l)) l else l)"

definition link_stop :: "slink \<Rightarrow> slink result" where
  "link_stop l = (if m_reactor l then Inr (ev_io_stop l) else Inl NullDeref)"

text \<open>
  \<open>revents || EV_READ\<close> and \<open>revents || EV_WRITE\<close> are always true. After \<open>onDispose\<close> the link
  belongs to nobody, which is logged.
\<close>

definition onEvent ::
  "(nat \<Rightarrow> byte list sys_ret) \<Rightarrow> (byte list \<Rightarrow> nat sys_ret) \<Rightarrow> slink \<Rightarrow> slink result" where
  "onEvent recv send l =
     rbind (processRead recv l) (\<lambda>l.
     rbind (if m_state l = OK then processWrite send l else Inr l) (\<lambda>l.
     rbind (prepareEvents l) (\<lambda>(l, ok).
       if ok then Inr l
       else rbind (link_stop l) (\<lambda>l.
         let l = link_destroy l in
         rbind (invoke (onDispose l) l) (\<lambda>l. Inr (log Disposed l))))))"

definition link_init :: "int \<Rightarrow> slink \<Rightarrow> slink" where
  "link_init sock l = l\<lparr>m_sock := sock, m_handler := (m_handler l)\<lparr>w_active := False\<rparr>\<rparr>"

definition link_init_ev :: "watcher \<Rightarrow> slink \<Rightarrow> slink" where
  "link_init_ev handler l = l\<lparr>m_sock := w_fd handler\<rparr>"

definition link_start :: "slink \<Rightarrow> slink result" where
  "link_start l =
     (let l = l\<lparr>m_reactor := True\<rparr> in
      rbind (prepareEvents l) (\<lambda>(l, ok). Inr (if ok then ev_io_start l else l)))"

section \<open>Runs\<close>

text \<open>
  What happens to a link: the calls of its owner, and what libev delivers to an active watcher: an event
  it waits for (\<open>LEvent\<close>; the kernel's readiness is masked with \<open>events\<close>, so that a watcher that waits for
  none is not called), and \<open>EV_ERROR\<close>, when the loop finds that the descriptor cannot be watched: it
  stops the watcher and calls it with every event (\<open>LError\<close>).
\<close>

datatype link_act =
    LInit int
  | LInitEv watcher
  | LCallbacks callback callback callback
  | LUser user_op
  | LStart
  | LStop
  | LEvent "nat \<Rightarrow> byte list sys_ret" "byte list \<Rightarrow> nat sys_ret"
  | LError "nat \<Rightarrow> byte list sys_ret" "byte list \<Rightarrow> nat sys_ret"

definition waiting :: "slink \<Rightarrow> bool" where
  "waiting l \<longleftrightarrow> w_active (m_handler l) \<and> w_events (m_handler l) \<noteq> 0"

definition stopped :: "slink \<Rightarrow> slink" where
  "stopped l = l\<lparr>m_handler := (m_handler l)\<lparr>w_active := False\<rparr>\<rparr>"

fun link_op :: "link_act \<Rightarrow> slink \<Rightarrow> slink result" where
  "link_op (LInit sock) l = Inr (link_init sock l)"
| "link_op (LInitEv w) l = Inr (link_init_ev w l)"
| "link_op (LCallbacks r w d) l = Inr (l\<lparr>onRead := r, onWriteCompleted := w, onDispose := d\<rparr>)"
| "link_op (LUser u) l = user_call u l"
| "link_op LStart l = link_start l"
| "link_op LStop l = link_stop l"
| "link_op (LEvent recv send) l = (if waiting l then onEvent recv send l else Inr l)"
| "link_op (LError recv send) l = (if w_active (m_handler l) then onEvent recv send (stopped l) else Inr l)"

fun link_run :: "link_act list \<Rightarrow> slink \<Rightarrow> slink result" where
  "link_run [] l = Inr l"
| "link_run (e # es) l = rbind (link_op e l) (link_run es)"

section \<open>The descriptor and the events that are watched\<close>

definition watch_inv :: "int \<Rightarrow> slink \<Rightarrow> bool" where
  "watch_inv f l \<longleftrightarrow> w_fd (m_handler l) = f \<and>
     (\<forall>fd ev. EvStart fd ev \<in> set (l_trace l) \<longrightarrow> fd = f \<and> (ev = 0 \<or> ev = EV_WRITE))"

named_theorems watch_intros \<open>what keeps the watched descriptor\<close>

lemma watch_log: "watch_inv f l \<Longrightarrow> (\<And>fd ev. e \<noteq> EvStart fd ev) \<Longrightarrow> watch_inv f (log e l)"
  by (auto simp: watch_inv_def log_def)

lemma watch_same: "watch_inv f l \<Longrightarrow> m_handler l' = m_handler l \<Longrightarrow> l_trace l' = l_trace l \<Longrightarrow> watch_inv f l'"
  by (simp add: watch_inv_def)

lemma watch_fields [watch_intros]:
  assumes "watch_inv f l"
  shows "watch_inv f (l\<lparr>m_in := b\<rparr>)" "watch_inv f (l\<lparr>m_out := b\<rparr>)" "watch_inv f (l\<lparr>m_state := st\<rparr>)"
    "watch_inv f (l\<lparr>m_receive := v\<rparr>)" "watch_inv f (l\<lparr>m_sock := k\<rparr>)" "watch_inv f (l\<lparr>m_reactor := r\<rparr>)"
    "watch_inv f (l\<lparr>saved_errno := e\<rparr>)" "watch_inv f (l\<lparr>onRead := c\<rparr>)"
    "watch_inv f (l\<lparr>onWriteCompleted := c\<rparr>)" "watch_inv f (l\<lparr>onDispose := c\<rparr>)"
    "watch_inv f (l\<lparr>m_handler := (m_handler l)\<lparr>w_active := a\<rparr>\<rparr>)"
    "watch_inv f (l\<lparr>m_handler := (m_handler l)\<lparr>w_events := k'\<rparr>\<rparr>)"
  using assms by (simp_all add: watch_inv_def)

lemma watch_saw_error [watch_intros]: "watch_inv f l \<Longrightarrow> watch_inv f (saw_error st got l)"
  by (auto simp: saw_error_def intro: watch_intros split: sys_ret.splits)

lemma watch_user_call:
  "user_call u l = Inr l' \<Longrightarrow> watch_inv f l \<Longrightarrow> watch_inv f l'"
  by (cases u)
    (auto simp: link_write_def rbind_eq_Inr_iff advance_def setReceiving_def makeDisconnect_def
      intro!: watch_log watch_intros)

lemma watch_user_calls: "user_calls us l = Inr l' \<Longrightarrow> watch_inv f l \<Longrightarrow> watch_inv f l'"
  by (induction us arbitrary: l) (auto simp: rbind_eq_Inr_iff dest: watch_user_call)

lemma watch_invoke: "invoke cb l = Inr l' \<Longrightarrow> watch_inv f l \<Longrightarrow> watch_inv f l'"
  by (cases cb) (auto simp: invoke_def dest: watch_user_calls)

lemma watch_stop: "watch_inv f l \<Longrightarrow> watch_inv f (ev_io_stop l)"
  by (auto simp: ev_io_stop_def intro!: watch_log watch_intros)

lemma watch_start:
  "watch_inv f l \<Longrightarrow> w_events (m_handler l) = 0 \<or> w_events (m_handler l) = EV_WRITE \<Longrightarrow>
   watch_inv f (ev_io_start l)"
  by (auto simp: ev_io_start_def watch_inv_def log_def)

lemma wanted_events_cases: "wanted_events l = 0 \<or> wanted_events l = EV_WRITE"
  by (auto simp: wanted_events_def)

lemma watch_set_events:
  assumes "watch_inv f l" "ev = 0 \<or> ev = EV_WRITE"
  shows "watch_inv f (set_io_events ev l)"
proof (cases "w_active (m_handler l)")
  case True
  have "watch_inv f ((ev_io_stop l)\<lparr>m_handler := (m_handler (ev_io_stop l))\<lparr>w_events := ev\<rparr>\<rparr>)"
    using watch_stop [OF assms(1)] by (rule watch_fields)
  then show ?thesis
    using True assms(2) by (simp add: set_io_events_def watch_start Let_def)
next
  case False
  then show ?thesis using assms(1) by (simp add: set_io_events_def watch_fields)
qed

lemma set_events_events: "w_events (m_handler (set_io_events ev l)) = ev"
  by (simp add: set_io_events_def ev_io_start_def ev_io_stop_def log_def Let_def)

lemma watch_prepare:
  assumes "prepareEvents l = Inr (l', ok)" "watch_inv f l"
  shows "watch_inv f l'" "ok \<Longrightarrow> w_events (m_handler l') = 0 \<or> w_events (m_handler l') = EV_WRITE"
  using assms watch_set_events [OF assms(2) wanted_events_cases] wanted_events_cases [of l]
  by (auto simp: prepareEvents_def set_events_events split: if_splits)

lemma watch_destroy: "watch_inv f l \<Longrightarrow> watch_inv f (link_destroy l)"
  by (simp add: link_destroy_def watch_log)

lemma watch_init: "watch_inv f l \<Longrightarrow> watch_inv f (link_init k l)"
  by (simp add: link_init_def watch_inv_def)

lemma watch_processRead:
  assumes "processRead os l = Inr l'" "watch_inv f l"
  shows "watch_inv f l'"
  using assms
  by (auto simp: processRead_def rbind_eq_Inr_iff Let_def split: if_splits sys_ret.splits
      intro!: watch_log watch_intros dest!: watch_invoke)

lemma watch_processWrite:
  assumes "processWrite os l = Inr l'" "watch_inv f l"
  shows "watch_inv f l'"
  using assms
  by (auto simp: processWrite_def rbind_eq_Inr_iff Let_def split: if_splits sys_ret.splits
      intro!: watch_log watch_intros dest!: watch_invoke)

lemma watch_onEvent:
  assumes "onEvent recv send l = Inr l'" "watch_inv f l"
  shows "watch_inv f l'"
proof -
  obtain l1 l2 l3 ok where 1: "processRead recv l = Inr l1"
    and 2: "(if m_state l1 = OK then processWrite send l1 else Inr l1) = Inr l2"
    and 3: "prepareEvents l2 = Inr (l3, ok)"
    and 4: "ok \<Longrightarrow> l' = l3"
    and 5: "\<not> ok \<Longrightarrow> \<exists>l4. invoke (onDispose (link_destroy (ev_io_stop l3))) (link_destroy (ev_io_stop l3)) = Inr l4
      \<and> l' = log Disposed l4"
    using assms(1) by (fastforce simp: onEvent_def rbind_eq_Inr_iff link_stop_def Let_def split: if_splits)
  have "watch_inv f l3"
    using 1 2 3 assms(2) watch_processRead watch_processWrite watch_prepare(1)
    by (metis (no_types, lifting) Inr_inject)
  then show ?thesis
    using 4 5 by (cases ok) (auto intro!: watch_log watch_stop watch_destroy dest!: watch_invoke)
qed

lemma watch_link_op:
  assumes "link_op e l = Inr l'" "watch_inv f l"
  shows "watch_inv f l'"
proof (cases e)
  case LStart
  then show ?thesis
    using assms watch_prepare [of "l\<lparr>m_reactor := True\<rparr>" _ _ f] watch_fields(6) [of f l]
    by (auto simp: link_start_def rbind_eq_Inr_iff Let_def split: if_splits intro!: watch_start)
qed (use assms in \<open>auto simp: link_init_ev_def link_stop_def stopped_def split: if_splits
      intro!: watch_init watch_intros watch_stop dest: watch_user_call watch_onEvent [OF _ watch_fields(11)] watch_onEvent\<close>)

lemma watch_run: "link_run es l = Inr l' \<Longrightarrow> watch_inv f l \<Longrightarrow> watch_inv f l'"
  by (induction es arbitrary: l) (auto simp: rbind_eq_Inr_iff dest: watch_link_op)

text \<open>C29. A link never waits for input, and waits on the wrong descriptor: whatever its owner, the
  network and its callbacks do, each start of its watcher names the descriptor that the
  memory of the watcher held when the link was made, not its socket's, and asks for nothing
  or for \<open>EV_WRITE\<close>.\<close>

theorem link_never_waits_for_input:
  assumes "link_run es (link_new w) = Inr l" and "EvStart fd ev \<in> set (l_trace l)"
  shows "fd = w_fd w \<and> (ev = 0 \<or> ev = EV_WRITE)"
  using watch_run [OF assms(1), of "w_fd w"] assms(2) by (simp add: watch_inv_def link_new_def)

theorem link_never_waits_for_input_witness:
  "\<exists>l. link_run [LInit 7, LUser (USetReceiving True), LUser (UWrite [1]), LStart]
       (link_new \<lparr>w_fd = 99, w_events = 5, w_active = True\<rparr>) = Inr l \<and>
     EvStart 99 EV_WRITE \<in> set (l_trace l) \<and> (99::int) = w_fd \<lparr>w_fd = 99, w_events = 5, w_active = True\<rparr>"
proof -
  obtain l where l: "link_run [LInit 7, LUser (USetReceiving True), LUser (UWrite [1]), LStart]
       (link_new \<lparr>w_fd = 99, w_events = 5, w_active = True\<rparr>) = Inr l"
    and ev: "EvStart 99 EV_WRITE \<in> set (l_trace l)"
    by (auto simp: link_new_def link_init_def link_write_def link_start_def prepareEvents_def setReceiving_def
        set_io_events_def ev_io_start_def ev_io_stop_def wanted_events_def isSending_def nb_append_def nb_new_def
        nb_writable_def nb_pending_def nb_size_def nb_written_def mem_write_def log_def Let_def splice_def)
  then show ?thesis using link_never_waits_for_input [OF l ev] by blast
qed

section \<open>The streams\<close>

text \<open>The bytes that pass the interface of a link, from its trace.\<close>

definition wrote :: "slink \<Rightarrow> byte list" where
  "wrote l = concat (map (\<lambda>e. case e of Wrote bs \<Rightarrow> bs | _ \<Rightarrow> []) (l_trace l))"

definition sent :: "slink \<Rightarrow> byte list" where
  "sent l = concat (map (\<lambda>e. case e of Sent bs \<Rightarrow> bs | _ \<Rightarrow> []) (l_trace l))"

definition received :: "slink \<Rightarrow> byte list" where
  "received l = concat (map (\<lambda>e. case e of Received bs \<Rightarrow> bs | _ \<Rightarrow> []) (l_trace l))"

definition consumed :: "slink \<Rightarrow> byte list" where
  "consumed l = concat (map (\<lambda>e. case e of Consumed bs \<Rightarrow> bs | _ \<Rightarrow> []) (l_trace l))"

lemmas stream_defs = wrote_def sent_def received_def consumed_def

definition op_bytes :: "user_op \<Rightarrow> nat" where
  "op_bytes u = (case u of UWrite bs \<Rightarrow> length bs | _ \<Rightarrow> 0)"

definition cb_ok :: "nat \<Rightarrow> callback \<Rightarrow> bool" where
  "cb_ok B cb \<longleftrightarrow> (\<exists>us. cb = Some us \<and> sum_list (map op_bytes us) \<le> B)"

text \<open>The output at most \<open>n\<close> bytes larger than at first, and every byte in its place between the two
  ends of its stream, \<open>nb.stream\<close> being the contract of \<open>StreamSpec\<close> that the buffers keep.\<close>

definition buf_inv :: "nat \<Rightarrow> nbuf \<Rightarrow> nbuf \<Rightarrow> bool" where
  "buf_inv n i ob \<longleftrightarrow> nb_size i = 2048 \<and> nb_size ob \<le> 2048 + n"

definition stream_inv :: "nat \<Rightarrow> nat \<Rightarrow> slink \<Rightarrow> bool" where
  "stream_inv B n l \<longleftrightarrow> buf_inv n (m_in l) (m_out l) \<and>
     cb_ok B (onRead l) \<and> cb_ok B (onWriteCompleted l) \<and> cb_ok B (onDispose l) \<and> m_reactor l \<and>
     nb.stream (m_out l) (sent l) (wrote l) \<and> nb.stream (m_in l) (consumed l) (received l)"

lemma stream_inv_mono: "stream_inv B n l \<Longrightarrow> n \<le> m \<Longrightarrow> stream_inv B m l"
  by (auto simp: stream_inv_def buf_inv_def)

lemma stream_inv_nb:
  assumes "stream_inv B n l"
  shows "nb_ok (m_in l)" "nb_ok (m_out l)"
  using assms nb.stream_ok by (auto simp: stream_inv_def)

lemma stream_log:
  "stream_inv B n l \<Longrightarrow> e \<in> range CloseFd \<union> range EvStop \<union> {Disposed} \<union> range (case_prod EvStart) \<Longrightarrow>
   stream_inv B n (log e l)"
  by (auto simp: stream_inv_def log_def stream_defs)

lemma stream_fields:
  assumes "stream_inv B n l"
  shows "stream_inv B n (l\<lparr>m_state := st\<rparr>)" "stream_inv B n (l\<lparr>m_receive := v\<rparr>)"
    "stream_inv B n (l\<lparr>m_sock := k\<rparr>)" "stream_inv B n (l\<lparr>saved_errno := e\<rparr>)"
    "stream_inv B n (l\<lparr>m_handler := w\<rparr>)"
  using assms by (simp_all add: stream_inv_def stream_defs)

lemma link_write_ok:
  assumes "stream_inv B n l" "n + length bs < 2 ^ 62"
  shows "\<exists>l'. link_write bs l = Inr l' \<and> stream_inv B (n + length bs) l'"
proof -
  have out: "nb.stream (m_out l) (sent l) (wrote l)" "nb_size (m_out l) + length bs < 2 ^ 63"
    "nb_size (m_out l) \<le> 2048 + n"
    using assms by (auto simp: stream_inv_def buf_inv_def)
  obtain b where b: "nb_append (m_out l) bs = Inr b" "nb.stream b (sent l) (wrote l @ bs)"
    "nb_size b \<le> 2048 + (n + length bs)"
    using nb.stream_put [OF out(1,2)] out(3) by fastforce
  then show ?thesis
    using assms(1) by (simp add: link_write_def stream_inv_def buf_inv_def log_def stream_defs)
qed

lemma peek_ok: "nb_ok (m_in l) \<Longrightarrow> peek l = Inr (nb_data (m_in l))"
  using nb_pending_ok [of "m_in l"] by (auto simp: peek_def nb_ok_def nb_data_def mem_read_def)

lemma take_min_length [simp]: "take (min k (length xs)) xs = take k xs"
  by (simp add: min_def)

lemma user_call_ok:
  assumes "stream_inv B n l" "n + op_bytes u < 2 ^ 62"
  shows "\<exists>l'. user_call u l = Inr l' \<and> stream_inv B (n + op_bytes u) l'"
proof (cases u)
  case (UWrite bs)
  then show ?thesis using link_write_ok assms by (simp add: op_bytes_def)
next
  case (URead k)
  have "nb.stream (m_in l) (consumed l) (received l)" using assms(1) by (simp add: stream_inv_def)
  from nb.stream_take [OF this, of "min (length (nb_data (m_in l))) k"] show ?thesis
    using URead assms(1) stream_inv_nb [OF assms(1)]
    by (auto simp: peek_ok op_bytes_def advance_def stream_inv_def buf_inv_def log_def stream_defs min.commute)
next
  case (USetReceiving v)
  then show ?thesis using assms by (simp add: op_bytes_def setReceiving_def stream_fields)
next
  case UMakeDisconnect
  then show ?thesis using assms by (simp add: op_bytes_def makeDisconnect_def stream_fields)
qed

lemma user_calls_ok:
  assumes "stream_inv B n l" "n + sum_list (map op_bytes us) < 2 ^ 62"
  shows "\<exists>l'. user_calls us l = Inr l' \<and> stream_inv B (n + sum_list (map op_bytes us)) l'"
  using assms
proof (induction us arbitrary: n l)
  case (Cons u us)
  then obtain l1 where "user_call u l = Inr l1" "stream_inv B (n + op_bytes u) l1"
    using user_call_ok [of B n l u] by auto
  then show ?case using Cons.IH [of "n + op_bytes u" l1] Cons.prems(2) by (simp add: add.assoc)
qed auto

lemma invoke_ok:
  assumes "stream_inv B n l" "cb_ok B cb" "n + B < 2 ^ 62"
  shows "\<exists>l'. invoke cb l = Inr l' \<and> stream_inv B (n + B) l'"
proof -
  obtain us where us: "cb = Some us" "sum_list (map op_bytes us) \<le> B" using assms(2) by (auto simp: cb_ok_def)
  then show ?thesis
    using user_calls_ok [of B n l us] assms(1,3) stream_inv_mono [of B "n + sum_list (map op_bytes us)" _ "n + B"]
    by (fastforce simp: invoke_def)
qed

text \<open>What the kernel does: it takes no more than it is offered, and a receive brings no more
  than was asked for, which is 4096 bytes more than the free part of the buffer holds.\<close>

definition recv_fits :: "(nat \<Rightarrow> byte list sys_ret) \<Rightarrow> bool" where
  "recv_fits recv \<longleftrightarrow> (\<forall>n bs. recv n = SysOk bs \<longrightarrow> length bs \<le> n)"

definition send_fits :: "(byte list \<Rightarrow> nat sys_ret) \<Rightarrow> bool" where
  "send_fits send \<longleftrightarrow> (\<forall>bs k. send bs = SysOk k \<longrightarrow> k \<le> length bs)"

text \<open>A receive that brings more than the free part holds.\<close>

definition overruns :: "(nat \<Rightarrow> byte list sys_ret) \<Rightarrow> slink \<Rightarrow> bool" where
  "overruns recv l \<longleftrightarrow>
     (let room = unat (nb_writable (m_in l)) in
      case recv (room + 4096) of SysOk bs \<Rightarrow> room < length bs | SysErr _ \<Rightarrow> False)"

definition act_overruns :: "link_act \<Rightarrow> slink \<Rightarrow> bool" where
  "act_overruns e l \<longleftrightarrow>
     (case e of
        LEvent recv send \<Rightarrow> waiting l \<and> overruns recv l
      | LError recv send \<Rightarrow> w_active (m_handler l) \<and> overruns recv l
      | _ \<Rightarrow> False)"

text \<open>Whether one of the receives of a run does.\<close>

fun run_overruns :: "link_act list \<Rightarrow> slink \<Rightarrow> bool" where
  "run_overruns [] l = False"
| "run_overruns (e # es) l =
     (act_overruns e l \<or> (case link_op e l of Inl _ \<Rightarrow> False | Inr l \<Rightarrow> run_overruns es l))"

lemma stream_saw_error: "stream_inv B n l \<Longrightarrow> stream_inv B n (saw_error st got l)"
  by (auto simp: saw_error_def stream_inv_def stream_defs split: sys_ret.splits)

lemma saw_error_fields [simp]:
  "m_in (saw_error st got l) = m_in l" "m_out (saw_error st got l) = m_out l"
  "onRead (saw_error st got l) = onRead l" "onWriteCompleted (saw_error st got l) = onWriteCompleted l"
  by (auto simp: saw_error_def split: sys_ret.splits)

lemma stream_reset_in:
  "stream_inv B n l \<Longrightarrow> nb_pending (m_in l) = 0 \<Longrightarrow> stream_inv B n (l\<lparr>m_in := nb_reset (m_in l)\<rparr>)"
  using nb_pending_ok [of "m_in l"] nb.stream_clear [of "m_in l"] nb.stream_ok
  by (auto simp: stream_inv_def buf_inv_def stream_defs)

lemma stream_reset_out:
  "stream_inv B n l \<Longrightarrow> nb_pending (m_out l) = 0 \<Longrightarrow> stream_inv B n (l\<lparr>m_out := nb_reset (m_out l)\<rparr>)"
  using nb_pending_ok [of "m_out l"] nb.stream_clear [of "m_out l"] nb.stream_ok
  by (auto simp: stream_inv_def buf_inv_def stream_defs)

lemma processRead_tail:
  assumes "stream_inv B n l" "n + B < 2 ^ 62"
  shows "\<exists>l'. (if c \<and> nb_pending (m_in l) \<noteq> 0
          then rbind (invoke (onRead l) l) (\<lambda>l.
            Inr (if nb_pending (m_in l) = 0 then l\<lparr>m_in := nb_reset (m_in l)\<rparr> else l))
          else Inr l) = Inr l' \<and> stream_inv B (n + B) l'"
proof -
  have "cb_ok B (onRead l)" using assms(1) by (simp add: stream_inv_def)
  from invoke_ok [OF assms(1) this assms(2)] show ?thesis
    using stream_inv_mono [OF assms(1), of "n + B"] stream_reset_in by auto
qed

lemma processRead_ok:
  assumes l: "stream_inv B n l" and B: "n + B < 2 ^ 62" and recv: "\<not> overruns recv l"
  shows "\<exists>l'. processRead recv l = Inr l' \<and> stream_inv B (n + B) l'"
proof (cases "recv (unat (nb_writable (m_in l)) + 4096)")
  case (SysErr e)
  then have "bufferedRecv recv (m_in l) = Inr (m_in l, SysErr e)"
    by (simp add: bufferedRecv_def Let_def)
  then show ?thesis
    using processRead_tail [OF stream_saw_error [where st = READ_ERROR and got = "SysErr e", OF l] B, where c = True]
    by (auto simp: processRead_def Let_def split: if_splits)
next
  case (SysOk bs)
  note ok = stream_inv_nb(1) [OF l]
  have len: "length bs \<le> nb_size (m_in l) - nb_w (m_in l)"
    using recv SysOk nb_writable_ok [OF ok] by (simp add: overruns_def Let_def)
  obtain b where b: "bufferedRecv recv (m_in l) = Inr (b, SysOk (length bs))" "nb_ok b"
    "nb_data b = nb_data (m_in l) @ bs" "nb_size b = nb_size (m_in l)"
    using bufferedRecv_fits [of "m_in l" recv bs, OF ok SysOk len] by blast
  define l1 where "l1 = log (Received bs) (l\<lparr>m_in := b\<rparr>)"
  have l1: "stream_inv B n l1" "stream_inv B n (l1\<lparr>m_state := DISCONNECT\<rparr>)"
    using l b nb.stream_more [OF _ b(2,3)] by (auto simp: l1_def stream_inv_def buf_inv_def log_def stream_defs)
  have "processRead recv l = (let l = (if length bs = 0 then l1\<lparr>m_state := DISCONNECT\<rparr> else l1) in
      if length bs \<noteq> 0 \<and> nb_pending (m_in l) \<noteq> 0
          then rbind (invoke (onRead l) l) (\<lambda>l.
            Inr (if nb_pending (m_in l) = 0 then l\<lparr>m_in := nb_reset (m_in l)\<rparr> else l))
          else Inr l)"
    using b by (simp add: processRead_def saw_error_def l1_def Let_def)
  then show ?thesis
    using processRead_tail [OF l1(1) B, where c = "length bs \<noteq> 0"]
      processRead_tail [OF l1(2) B, where c = "length bs \<noteq> 0"]
    by (cases "bs = []") (simp_all add: Let_def)
qed

text \<open>The defect of \<open>bufferedRecv\<close> as a link meets it.\<close>

lemma onEvent_overruns:
  assumes l: "stream_inv B n l" and recv: "recv_fits recv" "overruns recv l"
  shows "onEvent recv send l = Inl OutOfBounds"
proof -
  note ok = stream_inv_nb(1) [OF l]
  have room: "unat (nb_writable (m_in l)) = nb_size (m_in l) - nb_w (m_in l)" "nb_size (m_in l) = 2048"
    using nb_writable_ok [OF ok] l by (simp_all add: stream_inv_def buf_inv_def)
  obtain bs where bs: "recv (unat (nb_writable (m_in l)) + 4096) = SysOk bs"
    "nb_size (m_in l) - nb_w (m_in l) < length bs"
    using recv(2) room by (auto simp: overruns_def Let_def split: sys_ret.splits)
  then have "length bs < 2 ^ 62" using recv(1) room by (fastforce simp: recv_fits_def)
  then have "bufferedRecv recv (m_in l) = Inl OutOfBounds" using bufferedRecv_exceeds [of "m_in l" recv bs, OF ok bs] by blast
  then show ?thesis by (simp add: onEvent_def processRead_def)
qed

lemma processWrite_tail:
  assumes "stream_inv B n l" "n + B < 2 ^ 62"
  shows "\<exists>l'. (if c \<and> nb_pending (m_out l) = 0
        then (let l = l\<lparr>m_out := nb_reset (m_out l)\<rparr> in invoke (onWriteCompleted l) l)
        else Inr l) = Inr l' \<and> stream_inv B (n + B) l'"
proof (cases "c \<and> nb_pending (m_out l) = 0")
  case True
  let ?l = "l\<lparr>m_out := nb_reset (m_out l)\<rparr>"
  have l: "stream_inv B n ?l" "cb_ok B (onWriteCompleted ?l)"
    using stream_reset_out [OF assms(1)] True assms(1) by (simp_all add: stream_inv_def)
  show ?thesis using invoke_ok [OF l assms(2)] True by simp
next
  case False
  then show ?thesis using stream_inv_mono [OF assms(1), of "n + B"] by auto
qed

lemma processWrite_ok:
  assumes l: "stream_inv B n l" and B: "n + B < 2 ^ 62" and send: "send_fits send"
  shows "\<exists>l'. processWrite send l = Inr l' \<and> stream_inv B (n + B) l'"
proof -
  note ok = stream_inv_nb(2) [OF l]
  define got where "got = send (nb_data (m_out l))"
  have fits: "k \<le> length (nb_data (m_out l))" if "got = SysOk k" for k
    using send that by (auto simp: send_fits_def got_def)
  have eq: "bufferedSend send (m_out l) = bufferedSend (\<lambda>_. got) (m_out l)"
    using mem_read_data [OF ok] by (simp add: bufferedSend_def got_def)
  obtain b where b: "bufferedSend send (m_out l) = Inr (b, got)" "nb_ok b" "nb_size b = nb_size (m_out l)"
    "nb_data b = (case got of SysOk n \<Rightarrow> drop n (nb_data (m_out l)) | SysErr _ \<Rightarrow> nb_data (m_out l))"
    using bufferedSend_ok [OF ok fits] eq by metis
  define l1 where "l1 = (case got of SysOk n \<Rightarrow> log (Sent (take n (nb_data (m_out l)))) (l\<lparr>m_out := b\<rparr>)
                | SysErr _ \<Rightarrow> l\<lparr>m_out := b\<rparr>)"
  have "stream_inv B n l1"
    using l b nb.stream_less [OF _ b(2)] nb.stream_more [OF _ b(2), of _ _ _ "[]"]
    by (cases got) (auto simp: l1_def stream_inv_def buf_inv_def log_def stream_defs)
  from processWrite_tail [OF stream_saw_error [where st = WRITE_ERROR and got = got, OF this] B, where c = "got \<noteq> SysOk 0"]
  show ?thesis using b(1) by (auto simp: processWrite_def Let_def simp flip: l1_def split: if_splits)
qed

lemma stream_start: "stream_inv B n l \<Longrightarrow> stream_inv B n (ev_io_start l)"
  by (auto simp: ev_io_start_def intro!: stream_log stream_fields)

lemma stream_stop: "stream_inv B n l \<Longrightarrow> stream_inv B n (ev_io_stop l)"
  by (auto simp: ev_io_stop_def intro!: stream_log stream_fields)

lemma stream_set_events: "stream_inv B n l \<Longrightarrow> stream_inv B n (set_io_events ev l)"
  by (auto simp: set_io_events_def Let_def intro!: stream_start stream_stop stream_fields)

lemma stream_destroy: "stream_inv B n l \<Longrightarrow> stream_inv B n (link_destroy l)"
  by (auto simp: link_destroy_def intro!: stream_log)

lemma prepareEvents_ok:
  "stream_inv B n l \<Longrightarrow> \<exists>l' ok. prepareEvents l = Inr (l', ok) \<and> stream_inv B n l'"
  using stream_set_events [of B n l] by (auto simp: prepareEvents_def stream_inv_def)

lemma onEvent_ok:
  assumes l: "stream_inv B n l" and B: "n + 3 * B < 2 ^ 62" and os: "\<not> overruns recv l" "send_fits send"
  shows "\<exists>l'. onEvent recv send l = Inr l' \<and> stream_inv B (n + 3 * B) l'"
proof -
  obtain l1 where l1: "processRead recv l = Inr l1" "stream_inv B (n + B) l1"
    using processRead_ok [OF l _ os(1)] B by auto
  obtain l2 where l2: "(if m_state l1 = OK then processWrite send l1 else Inr l1) = Inr l2" "stream_inv B (n + 2 * B) l2"
    using processWrite_ok [OF l1(2) _ os(2)] stream_inv_mono [OF l1(2), of "n + 2 * B"] B
    by (cases "m_state l1 = OK") (auto simp: numeral_2_eq_2 add.assoc)
  obtain l3 ok where l3: "prepareEvents l2 = Inr (l3, ok)" "stream_inv B (n + 2 * B) l3"
    using prepareEvents_ok [OF l2(2)] by blast
  let ?l4 = "link_destroy (ev_io_stop l3)"
  have l4: "stream_inv B (n + 2 * B) ?l4" "link_stop l3 = Inr (ev_io_stop l3)" "cb_ok B (onDispose ?l4)"
    using stream_destroy [OF stream_stop [OF l3(2)]] l3(2) by (auto simp: link_stop_def stream_inv_def)
  obtain l5 where l5: "invoke (onDispose ?l4) ?l4 = Inr l5" "stream_inv B (n + 2 * B + B) l5"
    using invoke_ok [OF l4(1,3)] B by auto
  show ?thesis
  proof (cases ok)
    case True
    then show ?thesis
      using l1 l2 l3 stream_inv_mono [OF l3(2), of "n + 3 * B"] by (simp add: onEvent_def)
  next
    case False
    then show ?thesis
      using l1 l2 l3 l4 l5 stream_inv_mono [OF l5(2), of "n + 3 * B"]
      by (auto simp: onEvent_def Let_def intro!: stream_log)
  qed
qed

definition act_ok :: "nat \<Rightarrow> link_act \<Rightarrow> bool" where
  "act_ok B e \<longleftrightarrow>
     (case e of
        LCallbacks r w d \<Rightarrow> cb_ok B r \<and> cb_ok B w \<and> cb_ok B d
      | LUser u \<Rightarrow> op_bytes u \<le> B
      | LEvent recv send \<Rightarrow> recv_fits recv \<and> send_fits send
      | LError recv send \<Rightarrow> recv_fits recv \<and> send_fits send
      | _ \<Rightarrow> True)"

lemma link_start_ok:
  assumes "stream_inv B n l"
  shows "\<exists>l'. link_start l = Inr l' \<and> stream_inv B n l'"
proof -
  have "l\<lparr>m_reactor := True\<rparr> = l" using assms by (simp add: stream_inv_def)
  then show ?thesis
    using prepareEvents_ok [OF assms] stream_start by (fastforce simp: link_start_def Let_def)
qed

lemma link_op_ok:
  assumes l: "stream_inv B n l" and B: "n + 3 * B < 2 ^ 62" and e: "act_ok B e" and room: "\<not> act_overruns e l"
  shows "\<exists>l'. link_op e l = Inr l' \<and> stream_inv B (n + 3 * B) l'"
proof -
  have "\<exists>l' m. link_op e l = Inr l' \<and> stream_inv B m l' \<and> m \<le> n + 3 * B"
  proof (cases e)
    case (LUser u)
    then show ?thesis using user_call_ok [OF l, of u] e B by (fastforce simp: act_ok_def)
  next
    case LStart
    then show ?thesis using link_start_ok [OF l] by fastforce
  next
    case LStop
    then show ?thesis using stream_stop [OF l] l by (auto simp: link_stop_def stream_inv_def)
  next
    case (LEvent recv send)
    then show ?thesis using onEvent_ok [OF l B, of recv send] e l room by (auto simp: act_ok_def act_overruns_def)
  next
    case (LError recv send)
    have "stream_inv B n (stopped l)" unfolding stopped_def by (rule stream_fields [OF l])
    moreover have "overruns recv (stopped l) = overruns recv l" by (simp add: overruns_def stopped_def)
    ultimately show ?thesis using LError onEvent_ok [OF _ B, of "stopped l" recv send] e l room
      by (auto simp: act_ok_def act_overruns_def)
  next
    case (LCallbacks r w d)
    then show ?thesis using l e by (auto simp: act_ok_def stream_inv_def stream_defs)
  qed (use l in \<open>auto simp: link_init_def link_init_ev_def stream_inv_def stream_defs\<close>)
  then show ?thesis using stream_inv_mono by blast
qed

lemma link_op_overruns:
  assumes l: "stream_inv B n l" and e: "act_ok B e" and over: "act_overruns e l"
  shows "link_op e l = Inl OutOfBounds"
proof (cases e)
  case (LEvent recv send)
  then show ?thesis using onEvent_overruns [OF l] e over by (simp add: act_ok_def act_overruns_def)
next
  case (LError recv send)
  have "stream_inv B n (stopped l)" unfolding stopped_def by (rule stream_fields [OF l])
  moreover have "overruns recv (stopped l) = overruns recv l" by (simp add: overruns_def stopped_def)
  ultimately show ?thesis using LError onEvent_overruns [of B n "stopped l" recv send] e over
    by (simp add: act_ok_def act_overruns_def)
qed (use over in \<open>simp_all add: act_overruns_def\<close>)

lemma link_run_ok:
  "stream_inv B n l \<Longrightarrow> n + length es * (3 * B) < 2 ^ 62 \<Longrightarrow> (\<forall>e\<in>set es. act_ok B e) \<Longrightarrow>
   if run_overruns es l then link_run es l = Inl OutOfBounds
   else \<exists>l'. link_run es l = Inr l' \<and> stream_inv B (n + length es * (3 * B)) l'"
proof (induction es arbitrary: n l)
  case (Cons e es)
  show ?case
  proof (cases "act_overruns e l")
    case True
    then show ?thesis using link_op_overruns [OF Cons.prems(1)] Cons.prems(3) by simp
  next
    case False
    obtain l1 where "link_op e l = Inr l1" "stream_inv B (n + 3 * B) l1"
      using link_op_ok [OF Cons.prems(1) _ _ False] Cons.prems(2,3) by fastforce
    moreover have "n + 3 * B + length es * (3 * B) = n + length (e # es) * (3 * B)" by simp
    ultimately show ?thesis using False Cons.IH [of "n + 3 * B" l1] Cons.prems(2,3)
      by (metis link_run.simps(2) list.set_intros(2) old.sum.simps(6) rbind_simps(2) run_overruns.simps(2))
  qed
qed simp

lemma link_setup:
  assumes "cb_ok B r" "cb_ok B w" "cb_ok B d"
  shows "\<exists>l. link_run [LCallbacks r w d, LInit sock, LStart] (link_new g) = Inr l \<and> stream_inv B 0 l"
proof -
  have "stream_inv B 0 ((link_init sock ((link_new g)\<lparr>onRead := r, onWriteCompleted := w, onDispose := d\<rparr>))\<lparr>m_reactor := True\<rparr>)"
    (is "stream_inv B 0 (?l\<lparr>m_reactor := True\<rparr>)")
    using assms nb_new_ok [of 2048]
    by (simp add: stream_inv_def buf_inv_def link_new_def link_init_def stream_defs nb_size_def nb_new_def nb_data_def nb.stream_def)
  then obtain l' ok where "prepareEvents (?l\<lparr>m_reactor := True\<rparr>) = Inr (l', ok)" "stream_inv B 0 l'"
    using prepareEvents_ok by blast
  then show ?thesis using stream_start by (auto simp: link_start_def Let_def)
qed

lemma link_run_append: "link_run (xs @ ys) l = rbind (link_run xs l) (link_run ys)"
proof (induction xs arbitrary: l)
  case (Cons x xs)
  show ?case by (cases "link_op x l") (simp_all add: Cons)
qed simp

lemma run_overruns_append:
  "run_overruns (xs @ ys) l =
     (run_overruns xs l \<or> (case link_run xs l of Inl _ \<Rightarrow> False | Inr l \<Rightarrow> run_overruns ys l))"
proof (induction xs arbitrary: l)
  case (Cons x xs)
  show ?case by (cases "link_op x l") (simp_all add: Cons)
qed simp


definition link_started :: "link_act list" where
  "link_started = [LCallbacks (Some [URead 2]) (Some []) (Some []), LInit 7, LStart] @ [LUser (UWrite [1, 2, 3]), LStart]"

definition link_blank :: slink where
  "link_blank = link_new \<lparr>w_fd = 9, w_events = 0, w_active = False\<rparr>"

lemma link_started:
  "\<exists>l. link_run link_started link_blank = Inr l \<and> waiting l \<and> unat (nb_writable (m_in l)) = 2048 \<and>
     \<not> run_overruns link_started link_blank"
  by (simp add: link_started_def link_blank_def link_new_def link_init_def link_start_def link_write_def
      prepareEvents_def set_io_events_def ev_io_start_def ev_io_stop_def wanted_events_def isSending_def
      EV_WRITE_def nb_append_def nb_new_def nb_writable_def nb_pending_def nb_size_def nb_written_def mem_write_def
      log_def waiting_def act_overruns_def)


section \<open>How a link ends\<close>

text \<open>Once a write has failed, the watcher waits for nothing, whatever the owner calls.\<close>

definition written_off :: "slink \<Rightarrow> bool" where
  "written_off l \<longleftrightarrow> m_state l = WRITE_ERROR \<and> w_events (m_handler l) = 0"

definition moves_no_data :: "link_event \<Rightarrow> bool" where
  "moves_no_data e \<longleftrightarrow>
     (case e of CloseFd _ \<Rightarrow> False | Disposed \<Rightarrow> False | Sent _ \<Rightarrow> False | Received _ \<Rightarrow> False | _ \<Rightarrow> True)"

definition after :: "slink \<Rightarrow> slink \<Rightarrow> bool" where
  "after l l' \<longleftrightarrow> (\<exists>es. l_trace l' = l_trace l @ es \<and> (\<forall>e\<in>set es. moves_no_data e))"

lemma after_same: "l_trace l' = l_trace l \<Longrightarrow> after l l'"
  by (simp add: after_def)

lemma after_one: "l_trace l' = l_trace l @ [e] \<Longrightarrow> moves_no_data e \<Longrightarrow> after l l'"
  by (simp add: after_def)

lemma after_trans: "after l l1 \<Longrightarrow> after l1 l2 \<Longrightarrow> after l l2"
  unfolding after_def by auto

lemma moves_no_data_simps [simp]:
  "moves_no_data (EvStart fd ev)" "moves_no_data (EvStop fd)" "moves_no_data (Wrote bs)" "moves_no_data (Consumed bs)"
  by (simp_all add: moves_no_data_def)

lemma written_off_user:
  assumes "user_call u l = Inr l'" "written_off l"
  shows "written_off l' \<and> after l l'"
proof (cases u)
  case (UWrite bs)
  then have "l_trace l' = l_trace l @ [Wrote bs]" "written_off l'"
    using assms by (auto simp: link_write_def rbind_eq_Inr_iff log_def written_off_def)
  then show ?thesis using after_one moves_no_data_simps(3) by blast
next
  case (URead k)
  then obtain bs where "l_trace l' = l_trace l @ [Consumed bs]" "written_off l'"
    using assms by (auto simp: rbind_eq_Inr_iff log_def advance_def written_off_def)
  then show ?thesis using after_one moves_no_data_simps(4) by blast
qed (use assms in \<open>auto simp: setReceiving_def makeDisconnect_def written_off_def after_same\<close>)

lemma after_watch: "after l (ev_io_start l)" "after l (ev_io_stop l)"
  by (auto simp: ev_io_start_def ev_io_stop_def after_def log_def)

lemma after_set_events: "after l (set_io_events ev l)"
proof -
  let ?set = "\<lambda>l. l\<lparr>m_handler := (m_handler l)\<lparr>w_events := ev\<rparr>\<rparr>"
  have "after l (ev_io_start (?set (ev_io_stop l)))"
    by (rule after_trans [OF after_watch(2) after_trans [OF _ after_watch(1)]]) (simp add: after_same)
  moreover have "after l (?set l)" by (simp add: after_same)
  ultimately show ?thesis by (simp add: set_io_events_def Let_def)
qed

lemma set_events_state [simp]: "m_state (set_io_events ev l) = m_state l" "m_state (ev_io_start l) = m_state l"
  "m_state (ev_io_stop l) = m_state l"
  by (simp_all add: set_io_events_def ev_io_start_def ev_io_stop_def log_def Let_def)

lemma start_events [simp]: "w_events (m_handler (ev_io_start l)) = w_events (m_handler l)"
  "w_events (m_handler (ev_io_stop l)) = w_events (m_handler l)"
  by (simp_all add: ev_io_start_def ev_io_stop_def log_def)

lemma written_off_start:
  assumes "link_start l = Inr l'" "written_off l"
  shows "written_off l' \<and> after l l'"
proof -
  let ?l = "l\<lparr>m_reactor := True\<rparr>"
  have "l' = ev_io_start (set_io_events 0 ?l)"
    using assms by (simp add: link_start_def prepareEvents_def wanted_events_def written_off_def)
  moreover have "after l (ev_io_start (set_io_events 0 ?l))"
    by (rule after_trans [OF _ after_trans [OF after_set_events after_watch(1)]]) (simp add: after_same)
  ultimately show ?thesis using assms(2) by (simp add: written_off_def set_events_events)
qed

lemma written_off_op:
  assumes "link_op e l = Inr l'" "written_off l" "\<And>recv send. e \<noteq> LError recv send"
  shows "written_off l' \<and> after l l'"
proof (cases e)
  case (LUser u)
  then show ?thesis using written_off_user assms by simp
next
  case LStart
  then show ?thesis using written_off_start assms by simp
next
  case LStop
  then have "l' = ev_io_stop l" using assms by (simp add: link_stop_def split: if_splits)
  then show ?thesis using assms(2) after_watch(2) by (simp add: written_off_def)
qed (use assms in \<open>auto simp: written_off_def waiting_def link_init_def link_init_ev_def after_same\<close>)

lemma written_off_run:
  "link_run es l = Inr l' \<Longrightarrow> written_off l \<Longrightarrow> (\<forall>recv send. LError recv send \<notin> set es) \<Longrightarrow>
   written_off l' \<and> after l l'"
proof (induction es arbitrary: l)
  case (Cons e es)
  obtain l1 where l1: "link_op e l = Inr l1" "link_run es l1 = Inr l'"
    using Cons.prems(1) by (auto simp: rbind_eq_Inr_iff)
  have "written_off l1 \<and> after l l1" using written_off_op [OF l1(1) Cons.prems(2)] Cons.prems(3) by auto
  then show ?case using Cons.IH [OF l1(2)] Cons.prems(3) after_trans by auto
qed (simp add: after_same)

lemma user_call_watcher: "user_call u l = Inr l' \<Longrightarrow> m_handler l' = m_handler l \<and> m_reactor l' = m_reactor l"
  by (cases u)
    (auto simp: link_write_def rbind_eq_Inr_iff advance_def setReceiving_def makeDisconnect_def log_def split: if_splits)

lemma user_calls_watcher: "user_calls us l = Inr l' \<Longrightarrow> m_handler l' = m_handler l \<and> m_reactor l' = m_reactor l"
  by (induction us arbitrary: l) (fastforce simp: rbind_eq_Inr_iff dest: user_call_watcher)+

lemma saw_error_watcher [simp]:
  "m_handler (saw_error st got l) = m_handler l" "m_reactor (saw_error st got l) = m_reactor l"
  by (simp_all add: saw_error_def split: sys_ret.split)

lemma invoke_watcher: "invoke cb l = Inr l' \<Longrightarrow> m_handler l' = m_handler l \<and> m_reactor l' = m_reactor l"
  by (auto simp: invoke_def split: option.splits dest: user_calls_watcher)

lemma processRead_watcher:
  assumes "processRead recv l = Inr l'"
  shows "m_handler l' = m_handler l \<and> m_reactor l' = m_reactor l"
proof -
  obtain b got where b: "bufferedRecv recv (m_in l) = Inr (b, got)"
    using assms by (auto simp: processRead_def rbind_eq_Inr_iff)
  define l0 where "l0 = (case got of SysOk n \<Rightarrow> log (Received (drop (length (nb_data b) - n) (nb_data b))) (l\<lparr>m_in := b\<rparr>)
                | SysErr _ \<Rightarrow> l\<lparr>m_in := b\<rparr>)"
  define l1 where "l1 = (if got = SysOk 0 then (saw_error READ_ERROR got l0)\<lparr>m_state := DISCONNECT\<rparr>
    else saw_error READ_ERROR got l0)"
  have eq: "processRead recv l = (if got \<noteq> SysOk 0 \<and> nb_pending (m_in l1) \<noteq> 0
      then rbind (invoke (onRead l1) l1) (\<lambda>l. Inr (if nb_pending (m_in l) = 0 then l\<lparr>m_in := nb_reset (m_in l)\<rparr> else l))
      else Inr l1)"
    by (cases "got = SysOk 0") (simp_all add: processRead_def b Let_def l0_def l1_def)
  have l1: "m_handler l1 = m_handler l" "m_reactor l1 = m_reactor l"
    by (simp_all add: l1_def l0_def log_def split: sys_ret.split)
  show ?thesis
  proof (cases "got \<noteq> SysOk 0 \<and> nb_pending (m_in l1) \<noteq> 0")
    case True
    then obtain l2 where "invoke (onRead l1) l1 = Inr l2" "l' = (if nb_pending (m_in l2) = 0 then l2\<lparr>m_in := nb_reset (m_in l2)\<rparr> else l2)"
      using assms unfolding eq by (auto simp only: if_True simp_thms rbind_eq_Inr_iff sum.inject)
    then show ?thesis using invoke_watcher [of "onRead l1" l1 l2] l1 by simp
  next
    case False
    then have "l' = l1" using assms unfolding eq by (simp only: if_False) simp
    then show ?thesis using l1 by simp
  qed
qed

text \<open>C38. A write error ends a link without releasing it. When at an event the kernel refuses the pending bytes
  for good, whatever was received and written at that event before, the link is left with
  an active watcher that waits for no event, and with the bytes pending. From then on, whatever its owner calls
  and however ready the descriptor is, nothing is sent or received, the socket is not closed and \<open>onDispose\<close> is
  not called, the end of the connection included, unless the loop finds that the descriptor cannot be watched.\<close>

theorem write_error_leaks:
  assumes "waiting l" and "m_reactor l" and "processRead recv l = Inr l1" and "m_state l1 = OK" and "nb_ok (m_out l1)"
    and "nb_data (m_out l1) \<noteq> []" and "send (nb_data (m_out l1)) = SysErr err" and "\<not> try_again err"
  shows "\<exists>l'. link_op (LEvent recv send) l = Inr l' \<and> m_state l' = WRITE_ERROR \<and> saved_errno l' = err \<and>
    w_active (m_handler l') \<and> w_events (m_handler l') = 0 \<and> nb_data (m_out l') = nb_data (m_out l1) \<and>
    l_trace l' = l_trace l1 @ [EvStop (w_fd (m_handler l)), EvStart (w_fd (m_handler l)) 0] \<and>
    (\<forall>es l2. (\<forall>recv send. LError recv send \<notin> set es) \<longrightarrow> link_run es l' = Inr l2 \<longrightarrow>
       m_state l2 = WRITE_ERROR \<and>
       (\<exists>later. l_trace l2 = l_trace l' @ later \<and> (\<forall>e\<in>set later. moves_no_data e)))"
proof -
  note l1 = processRead_watcher [OF assms(3)]
  have "nb_pending (m_out l1) \<noteq> 0"
    using assms(6) nb_pending_ok [OF assms(5)] by (auto simp: unat_eq_zero)
  moreover have "processWrite send l1 = Inr (l1\<lparr>m_state := WRITE_ERROR, saved_errno := err\<rparr>)"
    using assms(7,8) calculation mem_read_data [OF assms(5)]
    by (simp add: processWrite_def bufferedSend_def saw_error_def Let_def)
  ultimately obtain l' where l': "link_op (LEvent recv send) l = Inr l'" "m_state l' = WRITE_ERROR" "saved_errno l' = err"
      "w_active (m_handler l')" "w_events (m_handler l') = 0" "nb_data (m_out l') = nb_data (m_out l1)"
      "l_trace l' = l_trace l1 @ [EvStop (w_fd (m_handler l)), EvStart (w_fd (m_handler l)) 0]"
    using assms(1-4) l1
    by (simp add: onEvent_def prepareEvents_def set_io_events_def wanted_events_def ev_io_start_def ev_io_stop_def
        log_def waiting_def Let_def)
  moreover have "written_off l'" using l' by (simp add: written_off_def)
  ultimately show ?thesis using written_off_run [of _ l'] unfolding written_off_def after_def by blast
qed

definition link_example :: slink where
  "link_example = (link_new \<lparr>w_fd = 9, w_events = 2, w_active = True\<rparr>)
     \<lparr>m_reactor := True, m_out := \<lparr>nb_mem = [5, 6], nb_r = 0, nb_w = 2\<rparr>\<rparr>"

theorem write_error_leaks_witness:
  "\<exists>l'. link_op (LEvent (\<lambda>_. SysErr 11) (\<lambda>_. SysErr 32)) link_example = Inr l' \<and> m_state l' = WRITE_ERROR \<and>
    w_active (m_handler l') \<and> l_trace l' = [EvStop 9, EvStart 9 0]"
proof -
  have read: "processRead (\<lambda>_. SysErr 11) link_example = Inr link_example"
    by (simp add: processRead_def bufferedRecv_def saw_error_def try_again_def link_example_def link_new_def nb_new_def
        nb_pending_def)
  have ex: "waiting link_example" "m_reactor link_example" "m_state link_example = OK" "nb_ok (m_out link_example)"
    "nb_data (m_out link_example) \<noteq> []" "\<not> try_again 32" "l_trace link_example = []" "w_fd (m_handler link_example) = 9"
    by (simp_all add: link_example_def link_new_def nb_ok_def nb_data_def try_again_def waiting_def)
  obtain l' where l': "link_op (LEvent (\<lambda>_. SysErr 11) (\<lambda>_. SysErr 32)) link_example = Inr l'" "m_state l' = WRITE_ERROR"
    "w_active (m_handler l')" "l_trace l' = l_trace link_example @
       [EvStop (w_fd (m_handler link_example)), EvStart (w_fd (m_handler link_example)) 0]"
    using write_error_leaks [where send = "\<lambda>_. SysErr 32", OF ex(1,2) read ex(3-5) refl ex(6)] by (elim exE conjE)
  show ?thesis
    by (rule exI [of _ l'], intro conjI) (simp_all only: l' ex append_Nil)
qed

lemma onEvent_disconnect:
  assumes "w_active (m_handler l)" and "m_reactor l" and "nb_ok (m_in l)"
    and "recv (unat (nb_writable (m_in l)) + 4096) = SysOk []"
  shows "onEvent recv send l =
    (let l' = link_destroy (l\<lparr>m_state := DISCONNECT, m_handler := (m_handler l)\<lparr>w_active := False\<rparr>,
       l_trace := l_trace l @ [Received [], EvStop (w_fd (m_handler l))]\<rparr>)
     in rbind (invoke (onDispose l) l') (\<lambda>l. Inr (log Disposed l)))"
proof -
  have "nb_w (m_in l) \<le> length (nb_mem (m_in l))" using assms(3) by (simp add: nb_ok_def)
  then have "bufferedRecv recv (m_in l) = Inr (m_in l, SysOk 0)"
    using assms(4) by (simp add: bufferedRecv_def mem_write_def Let_def)
  then have "processRead recv l = Inr ((log (Received []) l)\<lparr>m_state := DISCONNECT\<rparr>)"
    by (simp add: processRead_def saw_error_def log_def Let_def)
  then show ?thesis
    using assms(1,2)
    by (simp add: onEvent_def prepareEvents_def link_stop_def ev_io_stop_def link_destroy_def log_def Let_def)
qed

text \<open>When the peer closes the connection, the event stops the watcher, closes the socket and
  hands the link over to \<open>onDispose\<close>, and writes nothing more; where that callback was never
  set, a null function is called instead.\<close>

theorem disconnect_disposes:
  assumes "w_active (m_handler l)" and "m_reactor l" and "nb_ok (m_in l)" and "m_sock l \<noteq> 0"
    and "recv (unat (nb_writable (m_in l)) + 4096) = SysOk []"
  shows "onEvent recv send l =
    (case onDispose l of
       None \<Rightarrow> Inl NullDeref
     | Some us \<Rightarrow>
         (let l' = l\<lparr>m_state := DISCONNECT, m_handler := (m_handler l)\<lparr>w_active := False\<rparr>,
            l_trace := l_trace l @ [Received [], EvStop (w_fd (m_handler l)), CloseFd (m_sock l)]\<rparr>
          in rbind (user_calls us l') (\<lambda>l. Inr (log Disposed l))))"
  using onEvent_disconnect [of l recv send, OF assms(1-3,5)] assms(4)
  by (simp add: link_destroy_def invoke_def log_def split: option.splits)

theorem disconnect_disposes_witness:
  "onEvent (\<lambda>_. SysOk []) (\<lambda>_. SysErr 11) (link_example\<lparr>m_sock := 7\<rparr>) = Inl NullDeref"
  using disconnect_disposes [of "link_example\<lparr>m_sock := 7\<rparr>" "\<lambda>_. SysOk []" "\<lambda>_. SysErr 11"]
  by (simp add: link_example_def link_new_def nb_ok_def nb_new_def)

end
