(* ===== verification/NetInfo.thy ===== *)
theory NetInfo
  imports Kvset Util Address
begin

text \<open>
  \<open>net/netinfo.c\<close>: what the sensor asks the kernel about its interface. The replies of \<open>ioctl\<close>,
  \<open>getifaddrs\<close> and \<open>getnameinfo\<close>, and the content of \<open>/proc/net/route\<close>, are parameters. Four messages print what
  \<open>strerror_r\<close> returns with \<open>%s\<close>: it is taken to be the variant that returns the text, which glibc
  declares under \<open>_GNU_SOURCE\<close> (the other returns 0, and a null string is printed).
\<close>

section \<open>Interface requests\<close>

text \<open>\<open>strcpy\<close> into the 16 bytes of \<open>ifr_name\<close>.\<close>

definition ifr_name :: "string \<Rightarrow> unit result" where
  "ifr_name name = (if length name < 16 then Inr () else Inl OutOfBounds)"

text \<open>A reply is the 24 bytes of the request's union, \<open>None\<close> where \<open>ioctl\<close> fails.\<close>

type_synonym reply = "byte list option"

definition get_current_hwaddr :: "string \<Rightarrow> reply \<Rightarrow> byte list \<Rightarrow> (byte list \<times> bool) result" where
  "get_current_hwaddr name r hwaddr =
     rbind (ifr_name name) (\<lambda>_.
       case r of
         None \<Rightarrow> Inr (hwaddr, False)
       | Some u \<Rightarrow> rbind (mem_read u 2 6) (\<lambda>sa. Inr (splice hwaddr 0 sa, True)))"

text \<open>The address in a \<open>sockaddr_in\<close> is at offset 4, that in a \<open>sockaddr_in6\<close> at offset 8.\<close>

definition ifr_address :: "u16 \<Rightarrow> byte list \<Rightarrow> byte list result" where
  "ifr_address family u = (if family = AF_INET then mem_read u 4 4 else mem_read u 8 16)"

definition get_current_address :: "u16 \<Rightarrow> string \<Rightarrow> reply \<Rightarrow> byte list \<Rightarrow> (byte list \<times> bool) result" where
  "get_current_address family name r address =
     rbind (rassert (family = AF_INET \<or> family = AF_INET6)) (\<lambda>_.
     rbind (ifr_name name) (\<lambda>_.
       case r of
         None \<Rightarrow> Inr (address, False)
       | Some u \<Rightarrow> rbind (ifr_address family u) (\<lambda>a. Inr (a, True))))"

definition get_current_netmask :: "u16 \<Rightarrow> string \<Rightarrow> reply \<Rightarrow> byte list \<Rightarrow> (byte list \<times> bool) result" where
  "get_current_netmask family name r netmask =
     rbind (rassert (family = AF_INET \<or> family = AF_INET6)) (\<lambda>_.
     rbind (ifr_name name) (\<lambda>_.
       case r of
         None \<Rightarrow> Inr (netmask, False)
       | Some u \<Rightarrow> rbind (ifr_address family u) (\<lambda>a. Inr (a, True))))"

text \<open>
  The interface of a given family, by \<open>strncmp\<close> over \<open>IF_NAMESIZE\<close> characters, which is true
  where the names differ. \<open>nameinfo\<close> is \<open>getnameinfo\<close>, with \<open>None\<close> for an error, whose message has two
  \<open>%s\<close> and is given one string.
\<close>

type_synonym ifaddr = "string \<times> (u16 \<times> byte list) option"

fun find_ifaddr :: "u16 \<Rightarrow> string \<Rightarrow> ifaddr list \<Rightarrow> byte list option" where
  "find_ifaddr family name [] = None"
| "find_ifaddr family name ((ifa_name, None) # ifas) = find_ifaddr family name ifas"
| "find_ifaddr family name ((ifa_name, Some (f, a)) # ifas) =
     (if \<not> strncmp_eq ifa_name name 16 \<and> f = family then Some a else find_ifaddr family name ifas)"

definition get_interface_inet_address_str ::
  "u16 \<Rightarrow> string \<Rightarrow> (byte list \<Rightarrow> string option) \<Rightarrow> ifaddr list option \<Rightarrow> string \<Rightarrow> (string \<times> bool) result" where
  "get_interface_inet_address_str family name nameinfo ifas address =
     rbind (rassert (family = AF_INET \<or> family = AF_INET6)) (\<lambda>_.
       case ifas of
         None \<Rightarrow> Inr (address, False)
       | Some ifas \<Rightarrow>
           (case find_ifaddr family name ifas of
              None \<Rightarrow> Inr (address, False)
            | Some a \<Rightarrow> (case nameinfo a of None \<Rightarrow> Inl BadFormat | Some t \<Rightarrow> Inr (t, True))))"

text \<open>The ARP cache, both ways.\<close>

definition read_arp_ip_to_mac_r :: "string \<Rightarrow> byte list option \<Rightarrow> byte list \<Rightarrow> (byte list \<times> bool) result" where
  "read_arp_ip_to_mac_r name r hwaddr =
     rbind (ifr_name name) (\<lambda>_.
       case r of
         None \<Rightarrow> Inr (hwaddr, False)
       | Some arp_ha \<Rightarrow> rbind (mem_read arp_ha 2 6) (\<lambda>hw. Inr (splice hwaddr 0 hw, True)))"

definition read_arp_mac_to_ip :: "string \<Rightarrow> byte list option \<Rightarrow> u32 result" where
  "read_arp_mac_to_ip name r =
     rbind (ifr_name name) (\<lambda>_.
       case r of
         None \<Rightarrow> Inr 0
       | Some arp_pa \<Rightarrow> rbind (mem_read arp_pa 4 4) (\<lambda>a. Inr (le_word32 a)))"

section \<open>The default gateway\<close>

definition tab :: char where "tab = CHR 0x09"

text \<open>\<open>strtok\<close> with a tab: the next token and what is left, past one delimiter.\<close>

definition strtok :: "string \<Rightarrow> string option \<times> string" where
  "strtok s =
     (let s = dropWhile (\<lambda>c. c = tab) s in
      if s = [] then (None, [])
      else (Some (takeWhile (\<lambda>c. c \<noteq> tab) s), drop 1 (dropWhile (\<lambda>c. c \<noteq> tab) s)))"

definition strcmp_eq :: "string option \<Rightarrow> string \<Rightarrow> bool result" where
  "strcmp_eq p s = (case p of None \<Rightarrow> Inl NullDeref | Some t \<Rightarrow> Inr (t = s))"

text \<open>One line of the table: the gateway if it is the interface's default route.\<close>

definition route_line :: "string \<Rightarrow> string \<Rightarrow> u32 option result" where
  "route_line name buffer =
     (let (iface, s) = strtok buffer;
          (destHEX, s) = strtok s;
          (gwHEX, s) = strtok s
      in rbind (strcmp_eq iface name) (\<lambda>same.
         if \<not> same then Inr None
         else rbind (strcmp_eq destHEX ''00000000'') (\<lambda>same.
           if \<not> same then Inr None
           else (case gwHEX of
                   None \<Rightarrow> Inl NullDeref
                 | Some t \<Rightarrow> rbind (hex_to_uint32 t) (\<lambda>w. Inr (Some (htonl w)))))))"

function route_lines :: "string \<Rightarrow> string \<Rightarrow> u32 result" where
  "route_lines name content =
     (if content = [] then Inr 0
      else
        let (buffer, rest) = fgets 511 content in
        rbind (route_line name buffer) (\<lambda>r.
          case r of Some w \<Rightarrow> Inr w | None \<Rightarrow> route_lines name rest))"
  by pat_completeness auto
termination
  by (relation "measure (\<lambda>(_, content). length content)")
    (auto dest!: arg_cong [of _ _ snd] simp: fgets_shorter)

declare route_lines.simps [simp del]

text \<open>Where the table cannot be opened, the message takes the number \<open>errno\<close> for a string.\<close>

definition read_default_gateway :: "string \<Rightarrow> string option \<Rightarrow> u32 result" where
  "read_default_gateway name route =
     (case route of
        None \<Rightarrow> Inl BadFormat
      | Some content \<Rightarrow> let (header, rest) = fgets 511 content in route_lines name rest)"

section \<open>All of it\<close>

record ip_info =
  ip_local :: "byte list"
  ip_netmask :: "byte list"

record interface_info =
  ii_hw :: "byte list"
  ii_ip4 :: ip_info
  ii_gateway4 :: u32
  ii_ip6 :: ip_info

record replies =
  rp_hw :: reply
  rp_addr4 :: reply
  rp_mask4 :: reply
  rp_route :: "string option"
  rp_addr6 :: reply
  rp_mask6 :: reply

text \<open>The results of the single requests are not looked at; \<open>info\<close> is returned as a \<open>bool\<close>.\<close>

definition read_interface_info :: "string \<Rightarrow> replies \<Rightarrow> interface_info \<Rightarrow> (interface_info \<times> bool) result" where
  "read_interface_info name r info =
     rbind (get_current_hwaddr name (rp_hw r) (ii_hw info)) (\<lambda>(hw, _).
     rbind (get_current_address AF_INET name (rp_addr4 r) (ip_local (ii_ip4 info))) (\<lambda>(l4, _).
     rbind (get_current_netmask AF_INET name (rp_mask4 r) (ip_netmask (ii_ip4 info))) (\<lambda>(m4, _).
     rbind (read_default_gateway name (rp_route r)) (\<lambda>gw.
     rbind (get_current_address AF_INET6 name (rp_addr6 r) (ip_local (ii_ip6 info))) (\<lambda>(l6, _).
     rbind (get_current_netmask AF_INET6 name (rp_mask6 r) (ip_netmask (ii_ip6 info))) (\<lambda>(m6, _).
       Inr (\<lparr>ii_hw = hw, ii_ip4 = \<lparr>ip_local = l4, ip_netmask = m4\<rparr>, ii_gateway4 = gw,
              ii_ip6 = \<lparr>ip_local = l6, ip_netmask = m6\<rparr>\<rparr>, True)))))))"

section \<open>Reading the table the kernel prints\<close>

text \<open>A line of \<open>/proc/net/route\<close>: interface, destination and gateway, and further columns.\<close>

record route =
  rt_iface :: string
  rt_dest :: u32
  rt_gw :: u32
  rt_tail :: string

definition print_route :: "route \<Rightarrow> string" where
  "print_route r = rt_iface r @ tab # hex_print32 (rt_dest r) @ tab # hex_print32 (rt_gw r) @ tab # rt_tail r"

definition route_ok :: "route \<Rightarrow> bool" where
  "route_ok r \<longleftrightarrow> rt_iface r \<noteq> [] \<and> tab \<notin> set (rt_iface r) \<and> newline \<notin> set (rt_iface r) \<and>
     newline \<notin> set (rt_tail r) \<and> length (rt_iface r) + length (rt_tail r) < 400"

definition print_routes :: "string \<Rightarrow> route list \<Rightarrow> string" where
  "print_routes header rs = header @ newline # concat (map (\<lambda>r. print_route r @ [newline]) rs)"

definition default_gateway :: "string \<Rightarrow> route list \<Rightarrow> u32" where
  "default_gateway name rs =
     (case find (\<lambda>r. rt_iface r = name \<and> rt_dest r = 0) rs of None \<Rightarrow> 0 | Some r \<Rightarrow> rt_gw r)"

lemma strtok_token: "t \<noteq> [] \<Longrightarrow> tab \<notin> set t \<Longrightarrow> strtok (t @ tab # s) = (Some t, s)"
proof (cases t)
  case (Cons c u)
  assume "tab \<notin> set t"
  then have "takeWhile (\<lambda>c. c \<noteq> tab) (t @ tab # s) = t" "dropWhile (\<lambda>c. c \<noteq> tab) (t @ tab # s) = tab # s"
    by (induction t) auto
  moreover have "dropWhile (\<lambda>c. c = tab) (t @ tab # s) = t @ tab # s"
    using Cons \<open>tab \<notin> set t\<close> by auto
  ultimately show ?thesis using Cons by (simp add: strtok_def)
qed simp

lemma hex_digit_plain: "n < 16 \<Longrightarrow> hex_digit n \<noteq> tab \<and> hex_digit n \<noteq> newline"
proof -
  have "\<forall>k\<in>set [0..<16]. hex_digit k \<noteq> tab \<and> hex_digit k \<noteq> newline"
    by (simp add: upt_rec hex_digit_def tab_def)
  then show "n < 16 \<Longrightarrow> ?thesis" by simp
qed

lemma hex_byte_plain: "c \<in> set (hex_print_byte b) \<Longrightarrow> c \<noteq> tab \<and> c \<noteq> newline"
proof -
  have "unat b < 2 ^ 8" using unsigned_less [of b] by simp
  then have "unat b div 16 < 16" by (simp add: less_mult_imp_div_less)
  then show "c \<in> set (hex_print_byte b) \<Longrightarrow> ?thesis"
    using hex_digit_plain [of "unat b div 16"] hex_digit_plain [of "unat b mod 16"]
    by (auto simp: hex_print_byte_def)
qed

lemma hex_print_plain: "tab \<notin> set (hex_print32 w)" "newline \<notin> set (hex_print32 w)" "hex_print32 w \<noteq> []"
  "length (hex_print32 w) = 8"
  using hex_byte_plain by (auto simp: hex_print32_def le_bytes32_def) (auto simp: hex_print_byte_def)

lemma hex_print_zero: "hex_print32 w = ''00000000'' \<longleftrightarrow> w = 0"
proof
  have zero: "hex_print32 0 = ''00000000''"
    by (simp add: hex_print32_def hex_print_byte_def le_bytes32_def hex_digit_def)
  show "w = 0" if "hex_print32 w = ''00000000''"
    using hex_to_uint32_print [of w] hex_to_uint32_print [of 0] zero that by simp
  show "w = 0 \<Longrightarrow> hex_print32 w = ''00000000''" using zero by simp
qed

lemma route_line_print:
  assumes "route_ok r"
  shows "route_line name (print_route r @ [newline]) =
    Inr (if rt_iface r = name \<and> rt_dest r = 0 then Some (rt_gw r) else None)"
  using assms strtok_token [of "rt_iface r"] strtok_token [of "hex_print32 (rt_dest r)"]
    strtok_token [of "hex_print32 (rt_gw r)"]
  by (simp add: route_line_def print_route_def route_ok_def hex_print_plain strcmp_eq_def hex_print_zero
      hex_to_uint32_print)

lemma fgets_route:
  assumes "route_ok r"
  shows "fgets 511 (print_route r @ newline # s) = (print_route r @ [newline], s)"
proof (rule fgets_line)
  show "newline \<notin> set (print_route r)"
    using assms by (simp add: route_ok_def print_route_def hex_print_plain) (simp add: tab_def)
  show "length (print_route r) < 511"
    using assms by (simp add: route_ok_def print_route_def hex_print_plain)
qed

lemma route_lines_print:
  "\<forall>r\<in>set rs. route_ok r \<Longrightarrow>
   route_lines name (concat (map (\<lambda>r. print_route r @ [newline]) rs)) = Inr (default_gateway name rs)"
proof (induction rs)
  case Nil
  then show ?case by (simp add: route_lines.simps default_gateway_def)
next
  case (Cons r rs)
  let ?s = "concat (map (\<lambda>r. print_route r @ [newline]) rs)"
  have "route_lines name (print_route r @ newline # ?s) =
    rbind (route_line name (print_route r @ [newline])) (\<lambda>x. case x of Some w \<Rightarrow> Inr w | None \<Rightarrow> route_lines name ?s)"
    using fgets_route [of r ?s] Cons.prems by (simp add: route_lines.simps [of name "print_route r @ newline # ?s"])
  then show ?case
    using Cons by (simp add: route_line_print default_gateway_def)
qed

lemma read_gateway_print:
  assumes "\<forall>r\<in>set rs. route_ok r" "newline \<notin> set header" "length header < 511"
  shows "read_default_gateway name (Some (print_routes header rs)) = Inr (default_gateway name rs)"
  using fgets_line [OF assms(2,3)] route_lines_print [OF assms(1)]
  by (simp add: read_default_gateway_def print_routes_def)

section \<open>Properties\<close>

text \<open>C26. The gateway is read back from the routing table as the kernel prints it: it is that of
  the first default route of the named interface, in network byte order as it was printed,
  and zero where there is none.\<close>

theorem gateway_roundtrip:
  assumes "\<forall>r\<in>set rs. route_ok r" and "newline \<notin> set header" and "length header < 511"
  shows "read_default_gateway name (Some (print_routes header rs)) = Inr (default_gateway name rs)"
  by (rule read_gateway_print [OF assms])

definition routes_example :: "route list" where
  "routes_example =
     [\<lparr>rt_iface = ''eth0'', rt_dest = 0x0001A8C0, rt_gw = 0, rt_tail = ''0001''\<rparr>,
      \<lparr>rt_iface = ''wlan0'', rt_dest = 0, rt_gw = 0x0100000A, rt_tail = ''0003''\<rparr>,
      \<lparr>rt_iface = ''eth0'', rt_dest = 0, rt_gw = 0x0101A8C0, rt_tail = ''0003''\<rparr>]"

lemma routes_example_ok: "\<forall>r\<in>set routes_example. route_ok r"
  by (simp add: routes_example_def route_ok_def tab_def)

theorem gateway_roundtrip_witness:
  "read_default_gateway ''eth0'' (Some (print_routes ''Iface'' routes_example)) = Inr 0x0101A8C0"
proof -
  have "\<forall>r\<in>set routes_example. route_ok r" by (rule routes_example_ok)
  then show ?thesis
    using gateway_roundtrip [of routes_example "''Iface''" "''eth0''"]
    by (simp) (simp add: routes_example_def default_gateway_def)
qed

text \<open>The lookup of an interface's address is inverted: whatever address is returned belongs to
  an interface with another name, so that the named one is never found.\<close>

theorem interface_lookup_inverted:
  assumes "get_interface_inet_address_str family name nameinfo (Some ifas) address = Inr (t, True)"
  shows "\<exists>ifa_name a. (ifa_name, Some (family, a)) \<in> set ifas \<and> nameinfo a = Some t \<and> ifa_name \<noteq> name"
proof -
  have same: "strncmp_eq n n k" for n k
  proof (induction n arbitrary: k)
    case Nil
    show ?case by (cases k) simp_all
  next
    case (Cons c n)
    then show ?case by (cases k) simp_all
  qed
  have "\<exists>ifa_name. (ifa_name, Some (family, a)) \<in> set ifas \<and> ifa_name \<noteq> name"
    if "find_ifaddr family name ifas = Some a" for a
    using that same by (induction family name ifas rule: find_ifaddr.induct) (auto split: if_splits)
  then show ?thesis
    using assms
    by (auto simp: get_interface_inet_address_str_def rbind_eq_Inr_iff split: option.splits)
qed

definition ifaddrs_example :: "ifaddr list" where
  "ifaddrs_example = [(''eth0'', Some (AF_INET, [192, 168, 1, 2])), (''lo'', Some (AF_INET, [127, 0, 0, 1]))]"

theorem interface_lookup_inverted_witness:
  "get_interface_inet_address_str AF_INET ''eth0'' (\<lambda>_. Some ''127.0.0.1'') (Some ifaddrs_example) [] =
     Inr (''127.0.0.1'', True) \<and>
   (\<exists>ifa_name a. (ifa_name, Some (AF_INET, a)) \<in> set ifaddrs_example \<and> ifa_name \<noteq> ''eth0'')"
proof -
  have e: "get_interface_inet_address_str AF_INET ''eth0'' (\<lambda>_. Some ''127.0.0.1'') (Some ifaddrs_example) [] =
     Inr (''127.0.0.1'', True)"
    by (simp add: get_interface_inet_address_str_def ifaddrs_example_def numeral_eq_Suc)
  show ?thesis using interface_lookup_inverted [OF e] e by blast
qed

text \<open>A table that cannot be opened is not survived, and \<open>read_interface_info\<close> asks for it unconditionally. It
  reports success when every other request has failed, and leaves its result as it was but for the gateway.\<close>

lemma route_unreadable: "read_default_gateway name None = Inl BadFormat"
  by (simp add: read_default_gateway_def)

lemma interface_info_unchecked:
  "length name < 16 \<Longrightarrow> read_default_gateway name route = Inr gw \<Longrightarrow>
   read_interface_info name \<lparr>rp_hw = None, rp_addr4 = None, rp_mask4 = None, rp_route = route, rp_addr6 = None,
     rp_mask6 = None\<rparr> info = Inr (info\<lparr>ii_gateway4 := gw\<rparr>, True)"
  by (simp add: read_interface_info_def get_current_hwaddr_def get_current_address_def get_current_netmask_def
      ifr_name_def)

end
