(* ===== verification/Sockets.thy ===== *)
theory Sockets
  imports StreamLink NetInfo
begin

text \<open>
  \<open>reactor/socket.cpp\<close> and \<open>socket.hpp\<close> over the kernel's table of open descriptors, since what
  matters is which descriptor is open when. What the network and the kernel answer is a
  parameter of each call.
\<close>

section \<open>The kernel\<close>

record kernel =
  k_open :: "int list"

text \<open>POSIX: a call on a descriptor that is not open fails with \<open>EBADF\<close>; otherwise it does as \<open>r\<close> says.\<close>

definition k_call :: "kernel \<Rightarrow> int \<Rightarrow> int \<Rightarrow> int" where
  "k_call k fd r = (if fd \<in> set (k_open k) then r else - 1)"

definition k_socket :: "kernel \<Rightarrow> int \<Rightarrow> kernel" where
  "k_socket k fd = (if fd = - 1 then k else k\<lparr>k_open := fd # k_open k\<rparr>)"

definition k_close :: "kernel \<Rightarrow> int \<Rightarrow> kernel" where
  "k_close k fd = k\<lparr>k_open := filter (\<lambda>x. x \<noteq> fd) (k_open k)\<rparr>"

text \<open>A computation of the kernel's state, with a result or an exception.\<close>

type_synonym 'a sys = "kernel \<Rightarrow> kernel \<times> 'a result"

definition sbind :: "'a sys \<Rightarrow> ('a \<Rightarrow> 'b sys) \<Rightarrow> 'b sys" where
  "sbind m f = (\<lambda>k. case m k of (k, Inl e) \<Rightarrow> (k, Inl e) | (k, Inr x) \<Rightarrow> f x k)"

definition sreturn :: "'a \<Rightarrow> 'a sys" where
  "sreturn x = (\<lambda>k. (k, Inr x))"

definition throw_unless :: "bool \<Rightarrow> string \<Rightarrow> unit sys" where
  "throw_unless b msg = (\<lambda>k. (k, if b then Inr () else Inl (Thrown msg)))"

section \<open>Sockets\<close>

text \<open>
  \<open>fromText\<close>: \<open>gai\<close> is the first address \<open>getaddrinfo\<close> found, if it found one, \<open>fd\<close> what
  \<open>socket\<close> returns. The descriptor is not checked.
\<close>

definition fromText :: "byte list option \<Rightarrow> int \<Rightarrow> (int \<times> endpoint) sys" where
  "fromText gai fd k =
     (case gai of
        None \<Rightarrow> (k, Inl (Thrown ''getaddrinfo failed''))
      | Some addr \<Rightarrow> (k_socket k fd, rbind (ep_sockaddr addr) (\<lambda>e. Inr (fd, e))))"

definition O_NONBLOCK :: nat where "O_NONBLOCK = 0x800"

text \<open>\<open>getfl\<close> and \<open>setfl\<close> answer \<open>fcntl\<close> on an open descriptor.\<close>

definition set_flags :: "int \<Rightarrow> int \<Rightarrow> bool \<Rightarrow> u32" where
  "set_flags fd flags value =
     (let flags = (if flags = - 1 then 0 else of_int flags :: u32)
      in if value then flags OR of_nat O_NONBLOCK else flags AND NOT (of_nat O_NONBLOCK))"

definition set_nonblocking :: "int \<Rightarrow> (u32 \<Rightarrow> int) \<Rightarrow> int \<Rightarrow> bool \<Rightarrow> int sys" where
  "set_nonblocking getfl setfl fd value k =
     (let flags = k_call k fd getfl in (k, Inr (k_call k fd (setfl (set_flags fd flags value)))))"

text \<open>\<open>Socket::accept\<close>: the address is only set when there is a connection.\<close>

definition sock_accept :: "int \<Rightarrow> byte list \<Rightarrow> endpoint \<Rightarrow> (int \<times> endpoint) sys" where
  "sock_accept fd saddr address k =
     (k_socket k fd, if fd \<noteq> - 1 then rbind (ep_sockaddr saddr) (\<lambda>e. Inr (fd, e)) else Inr (fd, address))"

text \<open>The other members make one call each; \<open>answer\<close> is what it gives on an open descriptor.\<close>

definition sock_default :: int where "sock_default = 0"

definition setReuseAddr :: "(int \<Rightarrow> int) \<Rightarrow> int \<Rightarrow> bool \<Rightarrow> int sys" where
  "setReuseAddr answer fd value k =
     (let val = (if value then 1 else 0) in (k, Inr (k_call k fd (answer val))))"

definition sock_connect :: "(endpoint \<Rightarrow> int) \<Rightarrow> int \<Rightarrow> endpoint \<Rightarrow> int sys" where
  "sock_connect answer fd address k = (k, Inr (k_call k fd (answer address)))"

definition sock_bind :: "(endpoint \<Rightarrow> int) \<Rightarrow> int \<Rightarrow> endpoint \<Rightarrow> int sys" where
  "sock_bind answer fd address k = (k, Inr (k_call k fd (answer address)))"

definition sock_listen :: "(int \<Rightarrow> int) \<Rightarrow> int \<Rightarrow> int sys" where
  "sock_listen answer fd k = (k, Inr (k_call k fd (answer 99)))"

definition sock_close :: "int \<Rightarrow> int sys" where
  "sock_close fd k = (k_close k fd, Inr (k_call k fd 0))"

definition sock_readv :: "(nat list \<Rightarrow> int) \<Rightarrow> int \<Rightarrow> nat list \<Rightarrow> int sys" where
  "sock_readv answer fd lengths k = (k, Inr (k_call k fd (answer lengths)))"

definition sock_write :: "(byte list \<Rightarrow> int) \<Rightarrow> int \<Rightarrow> byte list \<Rightarrow> int sys" where
  "sock_write answer fd bs k = (k, Inr (k_call k fd (answer bs)))"

definition sock_not :: "int \<Rightarrow> bool" where
  "sock_not fd \<longleftrightarrow> fd = - 1"

text \<open>The destructor of a \<open>SocketMain\<close>, which has descriptor 0 when it was never assigned.\<close>

definition socketmain_destroy :: "int \<Rightarrow> kernel \<Rightarrow> kernel" where
  "socketmain_destroy fd k = fst (sock_close fd k)"

section \<open>Lemmas\<close>

lemma sbind_simps [simp]:
  "sbind (\<lambda>k. (k, Inr x)) f k = f x k"
  "sbind (throw_unless b msg) g k = (if b then g () k else (k, Inl (Thrown msg)))"
  by (simp_all add: sbind_def throw_unless_def)

lemma sbind_fault: "m k = (k', Inl e) \<Longrightarrow> sbind m f k = (k', Inl e)"
  by (simp add: sbind_def)

lemma sbind_value: "m k = (k', Inr x) \<Longrightarrow> sbind m f k = f x k'"
  by (simp add: sbind_def)

lemma close_new:
  assumes "fd \<notin> set (k_open k)"
  shows "k_close (k_socket k fd) fd = k"
proof -
  have "filter (\<lambda>x. x \<noteq> fd) (k_open k) = k_open k" using assms by (auto simp: filter_id_conv)
  then show ?thesis by (cases "fd = - 1") (auto simp: k_close_def k_socket_def)
qed

lemma nonblocking_closed:
  "fd \<notin> set (k_open k) \<Longrightarrow> set_nonblocking getfl setfl fd v k = (k, Inr (- 1))"
  by (simp add: set_nonblocking_def k_call_def Let_def)

lemma destroy_closes [simp]: "socketmain_destroy fd k = k_close k fd"
  by (simp add: socketmain_destroy_def sock_close_def)

lemma closed_calls:
  assumes "fd \<notin> set (k_open k)"
  shows "setReuseAddr answer fd v k = (k, Inr (- 1))" "sock_bind answer' fd e k = (k, Inr (- 1))"
    "sock_connect answer' fd e k = (k, Inr (- 1))" "sock_listen answer fd k = (k, Inr (- 1))"
  using assms by (simp_all add: setReuseAddr_def sock_bind_def sock_connect_def sock_listen_def k_call_def Let_def)

text \<open>Closing twice is an error and closes nothing.\<close>

lemma close_twice: "sock_close fd (fst (sock_close fd k)) = (fst (sock_close fd k), Inr (- 1))"
  by (simp add: sock_close_def k_close_def k_call_def)

end
