(* ===== verification/Texts.thy ===== *)
theory Texts
  imports Prelude
begin

text \<open>
  Numbers as text: \<open>Ip4ToStr\<close>, \<open>EtherToStr\<close> and \<open>Time4ToStr\<close> of \<open>base/util.c\<close>, whose results are in
  static buffers, and the decimal numbers that \<open>snprintf\<close> prints.
\<close>

section \<open>Numerals\<close>

definition digit :: "nat \<Rightarrow> char" where
  "digit d = (if d < 10 then char_of (48 + d) else char_of (87 + d))"

text \<open>\<open>%u\<close> is base 10 and \<open>%x\<close> base 16.\<close>

function numeral_in :: "nat \<Rightarrow> nat \<Rightarrow> string" where
  "numeral_in base n =
     (if base < 2 \<or> n < base then [digit n] else numeral_in base (n div base) @ [digit (n mod base)])"
  by auto
termination by (relation "measure snd") auto

declare numeral_in.simps [simp del]

abbreviation decimal :: "nat \<Rightarrow> string" where
  "decimal \<equiv> numeral_in 10"

abbreviation hexadecimal :: "nat \<Rightarrow> string" where
  "hexadecimal \<equiv> numeral_in 16"

definition digit_val :: "char \<Rightarrow> nat" where
  "digit_val c = (let n = of_char c in if n < 58 then n - 48 else n - 87)"

lemma digit_val [simp]: "d < 16 \<Longrightarrow> digit_val (digit d) = d"
  by (auto simp: digit_val_def digit_def)

text \<open>Horner's rule reads a numeral back, so that a numeral determines its number.\<close>

lemma numeral_read:
  "2 \<le> base \<Longrightarrow> base \<le> 16 \<Longrightarrow> foldl (\<lambda>v c. base * v + digit_val c) 0 (numeral_in base n) = n"
proof (induction base n rule: numeral_in.induct)
  case (1 base n)
  have "n mod base < base" using "1.prems" by simp
  then have "digit_val (digit (n mod base)) = n mod base" using "1.prems"(2) by (intro digit_val) linarith
  then show ?case using 1 by (subst numeral_in.simps) auto
qed

lemma numeral_inject: "2 \<le> base \<Longrightarrow> base \<le> 16 \<Longrightarrow> numeral_in base m = numeral_in base n \<longleftrightarrow> m = n"
  by (metis numeral_read)

lemma numeral_nonempty [simp]: "numeral_in base n \<noteq> []"
  by (subst numeral_in.simps) simp

lemma numeral_length: "2 \<le> base \<Longrightarrow> n < base ^ Suc k \<Longrightarrow> length (numeral_in base n) \<le> Suc k"
proof (induction k arbitrary: n)
  case 0
  then show ?case by (subst numeral_in.simps) simp
next
  case (Suc k)
  have "n div base < base ^ Suc k" using Suc.prems by (simp add: less_mult_imp_div_less mult.commute)
  then show ?case using Suc.IH [of "n div base"] Suc.prems(1) by (subst numeral_in.simps) simp
qed

lemma numeral_digits: "2 \<le> base \<Longrightarrow> base \<le> 16 \<Longrightarrow> c \<in> set (numeral_in base n) \<Longrightarrow> \<exists>d<base. c = digit d"
proof (induction base n rule: numeral_in.induct)
  case (1 base n)
  show ?case
  proof (cases "n < base")
    case True
    then have "c = digit n" using "1.prems" by (subst (asm) numeral_in.simps) simp
    with True show ?thesis by blast
  next
    case False
    then consider "c \<in> set (numeral_in base (n div base))" | "c = digit (n mod base)"
      using "1.prems" by (subst (asm) numeral_in.simps) auto
    then show ?thesis
    proof cases
      case 1
      have "\<not> (base < 2 \<or> n < base)" using False "1.prems"(1) by simp
      from "1.IH" [OF this "1.prems"(1,2) 1] show ?thesis .
    next
      case 2
      moreover have "n mod base < base" using "1.prems"(1) by simp
      ultimately show ?thesis by blast
    qed
  qed
qed

section \<open>The static buffers\<close>

text \<open>\<open>inet_ntoa\<close> and \<open>ether_ntoa\<close> have one each, \<open>Time4ToStr\<close> one of its own; a result is the name of its
  buffer.\<close>

datatype sbuf = InetBuf | EtherBuf | TimeBuf

type_synonym statics = "sbuf \<Rightarrow> string"

text \<open>The bytes of the address in the order they have in memory.\<close>

definition inet_ntoa :: "u32 \<Rightarrow> string" where
  "inet_ntoa ip =
     (let b = (\<lambda>i. decimal (unat (le_bytes32 ip ! i))) in b 0 @ ''.'' @ b 1 @ ''.'' @ b 2 @ ''.'' @ b 3)"

definition Ip4ToStr :: "u32 \<Rightarrow> statics \<Rightarrow> statics \<times> sbuf" where
  "Ip4ToStr ip s = (s(InetBuf := inet_ntoa ip), InetBuf)"

definition ether_ntoa :: "byte list \<Rightarrow> string" where
  "ether_ntoa eth =
     (let h = (\<lambda>i. hexadecimal (unat (eth ! i))) in
      h 0 @ '':'' @ h 1 @ '':'' @ h 2 @ '':'' @ h 3 @ '':'' @ h 4 @ '':'' @ h 5)"

definition EtherToStr :: "byte list \<Rightarrow> statics \<Rightarrow> statics \<times> sbuf" where
  "EtherToStr eth s = (s(EtherBuf := ether_ntoa eth), EtherBuf)"

text \<open>\<open>localtime\<close> gives hour, minute and second; \<open>strftime\<close> writes nothing that does not fit.\<close>

definition two_digits :: "nat \<Rightarrow> string" where
  "two_digits n = [digit (n div 10), digit (n mod 10)]"

definition strftime_T :: "nat \<Rightarrow> nat \<times> nat \<times> nat \<Rightarrow> string \<Rightarrow> string" where
  "strftime_T room tm old =
     (let (h, m, s) = tm; text = two_digits h @ '':'' @ two_digits m @ '':'' @ two_digits s in
      if length text < room then text else old)"

definition Time4ToStr :: "('t \<Rightarrow> nat \<times> nat \<times> nat) \<Rightarrow> 't \<Rightarrow> statics \<Rightarrow> statics \<times> sbuf" where
  "Time4ToStr localtime t s = (s(TimeBuf := strftime_T 16 (localtime t) (s TimeBuf)), TimeBuf)"

text \<open>Two results of one of them are one buffer: the first text is gone.\<close>

lemma one_buffer:
  assumes "Ip4ToStr a s = (s', p)" "Ip4ToStr b s' = (s'', q)"
  shows "p = q" "s'' p = inet_ntoa b"
  using assms by (auto simp: Ip4ToStr_def)

lemma time_fits: "length (fst (Time4ToStr localtime t s) TimeBuf) = 8"
  by (simp add: Time4ToStr_def strftime_T_def two_digits_def Let_def split: prod.split)

lemma inet_ntoa_length: "length (inet_ntoa ip) \<le> 15"
proof -
  have "length (decimal (unat (b :: byte))) \<le> 3" for b
  proof -
    have "unat b < 10 ^ Suc 2" by (rule order_less_le_trans [OF unsigned_less]) simp
    from numeral_length [OF _ this] show ?thesis by simp
  qed
  from this [of "le_bytes32 ip ! 0"] this [of "le_bytes32 ip ! 1"] this [of "le_bytes32 ip ! 2"]
    this [of "le_bytes32 ip ! 3"]
  show ?thesis by (simp add: inet_ntoa_def Let_def)
qed

text \<open>The text of an address determines it.\<close>

lemma dot_split: "x \<notin> set a \<Longrightarrow> x \<notin> set a' \<Longrightarrow> a @ x # b = a' @ x # b' \<longleftrightarrow> a = a' \<and> b = b'"
proof (induction a arbitrary: a')
  case Nil
  then show ?case by (cases a') auto
next
  case (Cons y a)
  then show ?case by (cases a') auto
qed

lemma decimal_no_dot: "CHR ''.'' \<notin> set (decimal n)"
proof
  assume "CHR ''.'' \<in> set (decimal n)"
  then obtain d where d: "d < 10" "CHR ''.'' = digit d" using numeral_digits [of 10] by auto
  have "of_char (CHR ''.'') = (46 :: nat)" by simp
  moreover have "of_char (digit d) = (48 + d :: nat)" using d(1) by (simp add: digit_def)
  ultimately show False using d(2) by simp
qed

lemma inet_ntoa_inject: "inet_ntoa a = inet_ntoa b \<longleftrightarrow> a = b"
proof
  assume "inet_ntoa a = inet_ntoa b"
  then have eq: "le_bytes32 a ! 0 = le_bytes32 b ! 0" "le_bytes32 a ! 1 = le_bytes32 b ! 1"
    "le_bytes32 a ! 2 = le_bytes32 b ! 2" "le_bytes32 a ! 3 = le_bytes32 b ! 3"
    by (simp_all add: inet_ntoa_def Let_def dot_split decimal_no_dot numeral_inject word_unat_eq_iff)
  have "i = 0 \<or> i = 1 \<or> i = 2 \<or> i = 3" if "i < 4" for i :: nat using that by linarith
  then have "le_bytes32 a = le_bytes32 b"
    by (intro nth_equalityI) (use eq in auto)
  then show "a = b" by (metis le_word32_bytes)
qed simp

end
