(* ===== verification/Reactor.thy ===== *)
theory Reactor
  imports Sockets Texts
begin

text \<open>
  The reactor around the links: \<open>reactor/tcp_acceptor.cpp\<close>, \<open>tcp_connector.cpp\<close>, \<open>timer.cpp\<close>, and
  \<open>SensorService\<close> of \<open>sensor_service.cpp\<close>, which owns the links. What the network and the kernel
  answer is a parameter of each call.
\<close>

section \<open>TcpAcceptor\<close>

text \<open>How the system answers: the results of the calls on an open descriptor.\<close>

record answers =
  a_gai :: "byte list option"
  a_socket :: int
  a_getfl :: int
  a_setfl :: "u32 \<Rightarrow> int"
  a_reuse :: int
  a_bind :: int
  a_listen :: int

record acceptor =
  ac_address :: endpoint
  ac_sock :: int
  ac_fd :: "int option"
  ac_listening :: bool

definition acceptor_new :: "endpoint \<Rightarrow> acceptor" where
  "acceptor_new garbage = \<lparr>ac_address = garbage, ac_sock = sock_default, ac_fd = None, ac_listening = False\<rparr>"

text \<open>
  \<open>sock = SocketMain::createFromText(...)\<close> copies the descriptor out of a temporary, and the
  temporary's destructor closes it.
\<close>

definition assign_from_text :: "answers \<Rightarrow> acceptor \<Rightarrow> acceptor sys" where
  "assign_from_text a ac =
     sbind (fromText (a_gai a) (a_socket a)) (\<lambda>(fd, e) k.
       (socketmain_destroy fd k, Inr (ac\<lparr>ac_address := e, ac_sock := fd\<rparr>)))"

definition acceptor_init :: "answers \<Rightarrow> acceptor \<Rightarrow> acceptor sys" where
  "acceptor_init a ac =
     sbind (assign_from_text a ac) (\<lambda>ac.
     sbind (set_nonblocking (a_getfl a) (a_setfl a) (ac_sock ac) True) (\<lambda>r.
     sbind (throw_unless (r = 0) ''fcntl'') (\<lambda>_.
     sbind (setReuseAddr (\<lambda>_. a_reuse a) (ac_sock ac) True) (\<lambda>r.
     sbind (throw_unless (r = 0) ''setsockopt'') (\<lambda>_.
     sbind (sock_bind (\<lambda>_. a_bind a) (ac_sock ac) (ac_address ac)) (\<lambda>r.
     sbind (throw_unless (r = 0) ''bind'') (\<lambda>_.
     sreturn (ac\<lparr>ac_fd := Some (ac_sock ac)\<rparr>))))))))"

text \<open>The same with a number for the port, which is printed into 16 bytes; \<open>gai\<close> answers for its text.\<close>

definition snprintf16 :: "string \<Rightarrow> string" where
  "snprintf16 text = take 15 text"

definition acceptor_init_port :: "(string \<Rightarrow> byte list option) \<Rightarrow> answers \<Rightarrow> u16 \<Rightarrow> acceptor \<Rightarrow> acceptor sys" where
  "acceptor_init_port gai a port ac =
     (let service = snprintf16 (decimal (unat port)) in acceptor_init (a\<lparr>a_gai := gai service\<rparr>) ac)"

lemma port_fits: "snprintf16 (decimal (unat (port :: u16))) = decimal (unat port)"
proof -
  have "unat port < 2 ^ 16" by (rule order_less_le_trans [OF unsigned_less]) simp
  then have "unat port < 10 ^ Suc 4" by simp
  from numeral_length [OF _ this] show ?thesis by (simp add: snprintf16_def)
qed

definition acceptor_start :: "answers \<Rightarrow> acceptor \<Rightarrow> acceptor sys" where
  "acceptor_start a ac =
     sbind (sock_listen (\<lambda>_. a_listen a) (ac_sock ac)) (\<lambda>r.
     sbind (throw_unless (r = 0) ''listen'') (\<lambda>_ k.
       case ac_fd ac of
         None \<Rightarrow> (k, Inl Uninitialised)
       | Some _ \<Rightarrow> (k, Inr (ac\<lparr>ac_listening := True\<rparr>))))"

definition acceptor_stop :: "acceptor \<Rightarrow> acceptor" where
  "acceptor_stop ac = ac\<lparr>ac_listening := False\<rparr>"

section \<open>EventLoop\<close>

text \<open>What libev promises of \<open>ev_run\<close>: it forgets an earlier \<open>ev_break\<close>, and runs rounds of callbacks until
  one of them has broken the loop or no watcher is active; between rounds it sleeps. A round is what
  its callbacks do to the loop. The result says whether it has returned.\<close>

record event_loop =
  el_active :: nat
  el_done :: bool

definition loop_new :: event_loop where
  "loop_new = \<lparr>el_active = 0, el_done = False\<rparr>"

fun loop_rounds :: "event_loop \<Rightarrow> (event_loop \<Rightarrow> event_loop) list \<Rightarrow> event_loop \<times> bool" where
  "loop_rounds l [] = (l, el_active l = 0)"
| "loop_rounds l (f # fs) =
     (let l = f l in if el_done l \<or> el_active l = 0 then (l, True) else loop_rounds l fs)"

definition loop_start :: "event_loop \<Rightarrow> (event_loop \<Rightarrow> event_loop) list \<Rightarrow> event_loop \<times> bool" where
  "loop_start l rounds = loop_rounds (l\<lparr>el_done := False\<rparr>) rounds"

definition loop_stop :: "event_loop \<Rightarrow> event_loop" where
  "loop_stop l = l\<lparr>el_done := True\<rparr>"

text \<open>A loop that is stopped before it runs runs all the same.\<close>

lemma loop_stop_early: "loop_start (loop_stop l) rounds = loop_start l rounds"
  by (simp add: loop_start_def loop_stop_def)

text \<open>It ends in the round whose callbacks stop it, and goes on while there are watchers and nobody does.\<close>

lemma rounds_stop:
  "0 < el_active l \<Longrightarrow> \<not> el_done l \<Longrightarrow>
   \<forall>f\<in>set fs. \<forall>l. el_active (f l) = el_active l \<and> el_done (f l) = el_done l \<Longrightarrow>
   \<not> snd (loop_rounds l fs) \<and> snd (loop_rounds l (fs @ loop_stop # gs))"
  by (induction fs arbitrary: l) (simp_all add: loop_stop_def)

lemma loop_stop_ends:
  assumes "0 < el_active l" "\<forall>f\<in>set fs. \<forall>l. el_active (f l) = el_active l \<and> el_done (f l) = el_done l"
  shows "\<not> snd (loop_start l fs)" "snd (loop_start l (fs @ loop_stop # gs))"
  using rounds_stop [of "l\<lparr>el_done := False\<rparr>" fs gs] assms by (simp_all add: loop_start_def)

section \<open>SensorService\<close>

text \<open>The links by their endpoint; the map's hash and equality depend on the bytes alone.\<close>

record service =
  sv_acceptor :: acceptor
  activeChannels :: "(endpoint \<times> slink) list"

definition emplace :: "endpoint \<Rightarrow> slink \<Rightarrow> (endpoint \<times> slink) list \<Rightarrow> (endpoint \<times> slink) list \<times> bool" where
  "emplace e l m =
     (if \<exists>(e', _) \<in> set m. ep_eq e' e then (m, False) else ((ep_copy e, l) # m, True))"

text \<open>\<open>onDataRead\<close> does nothing; \<open>w\<close> is the memory the new link's watcher is made in.\<close>

definition onDataRead :: callback where
  "onDataRead = Some []"

definition onConnectionAccepted :: "watcher \<Rightarrow> endpoint \<Rightarrow> service \<Rightarrow> service \<times> bool" where
  "onConnectionAccepted w addr s =
     (let link = setReceiving True ((link_new w)\<lparr>onRead := onDataRead\<rparr>);
          (m, inserted) = emplace addr link (activeChannels s)
      in (s\<lparr>activeChannels := m\<rparr>, inserted))"

definition onConnectionEstablished :: "watcher \<Rightarrow> endpoint \<Rightarrow> service \<Rightarrow> service \<times> bool" where
  "onConnectionEstablished w addr s =
     (let link = setReceiving True ((link_new w)\<lparr>onRead := onDataRead\<rparr>);
          (m, inserted) = emplace addr link (activeChannels s)
      in (s\<lparr>activeChannels := m\<rparr>, inserted))"

text \<open>The link the handler returned is the entry at the front.\<close>

definition with_front :: "(slink \<Rightarrow> slink result) \<Rightarrow> service \<Rightarrow> service result" where
  "with_front f s =
     (case activeChannels s of
        [] \<Rightarrow> Inl NullDeref
      | (e, l) # m \<Rightarrow> rbind (f l) (\<lambda>l. Inr (s\<lparr>activeChannels := (e, l) # m\<rparr>)))"

text \<open>
  \<open>TcpAcceptor::onEvent\<close> with the service's handler: \<open>fd\<close> and \<open>saddr\<close> are what \<open>accept\<close>
  gives, \<open>garbage\<close> is the default-constructed address.
\<close>

definition acceptor_onEvent :: "int \<Rightarrow> byte list \<Rightarrow> endpoint \<Rightarrow> watcher \<Rightarrow> service \<Rightarrow> service sys" where
  "acceptor_onEvent fd saddr garbage w s =
     sbind (sock_accept fd saddr garbage) (\<lambda>(sock, address) k.
       let (s, inserted) = onConnectionAccepted w address s in
       (k, if inserted then with_front (\<lambda>l. link_start (link_init sock l)) s else Inr s))"

definition service_new :: "answers \<Rightarrow> endpoint \<Rightarrow> service sys" where
  "service_new a garbage =
     sbind (acceptor_init a (acceptor_new garbage)) (\<lambda>ac.
     sbind (acceptor_start a ac) (\<lambda>ac.
     sreturn \<lparr>sv_acceptor = ac, activeChannels = []\<rparr>))"

text \<open>
  The address to listen on: the device's IPv6 address if the kernel names one, else its IPv4
  address, else none. \<open>r6\<close> and \<open>r4\<close> are the replies; \<open>pad\<close> is what the address held.
\<close>

definition currentAddress :: "string \<Rightarrow> reply \<Rightarrow> reply \<Rightarrow> byte list \<Rightarrow> inet result" where
  "currentAddress device r6 r4 pad =
     rbind (get_current_address AF_INET6 device r6 []) (\<lambda>(ip6, ok6).
       if ok6 then Inr (setAddr6 (inet_unspec pad) ip6)
       else rbind (get_current_address AF_INET device r4 []) (\<lambda>(ip4, ok4).
         Inr (if ok4 then setAddr4 (inet_unspec pad) ip4 else inet_unspec pad)))"

text \<open>\<open>toString\<close>: \<open>inet_ntop\<close> fails for \<open>AF_UNSPEC\<close> and leaves the buffer, which nobody wrote.\<close>

definition inet_toString :: "(inet \<Rightarrow> string) \<Rightarrow> inet \<Rightarrow> string result" where
  "inet_toString ntop addr =
     (if ia_family addr = AF_INET \<or> ia_family addr = AF_INET6 then Inr (ntop addr) else Inl Uninitialised)"

text \<open>
  The constructor: \<open>gai\<close> resolves the text of the address. An exception destroys the acceptor and
  with it the socket, which is still the default one if nothing was assigned to it.
\<close>

definition service_construct ::
  "(inet \<Rightarrow> string) \<Rightarrow> (string \<Rightarrow> byte list option) \<Rightarrow> string \<Rightarrow> reply \<Rightarrow> reply \<Rightarrow> byte list \<Rightarrow> answers \<Rightarrow> endpoint \<Rightarrow>
   service sys" where
  "service_construct ntop gai device r6 r4 pad a garbage k =
     (case rbind (currentAddress device r6 r4 pad) (inet_toString ntop) of
        Inl e \<Rightarrow> (k, Inl e)
      | Inr text \<Rightarrow>
          (case service_new (a\<lparr>a_gai := gai text\<rparr>) garbage k of
             (k, Inl (Thrown m)) \<Rightarrow>
               (socketmain_destroy (if gai text = None then sock_default else a_socket a) k, Inl (Thrown m))
           | r \<Rightarrow> r))"

text \<open>The loop of a service that was made has the acceptor's watcher.\<close>

definition service_loop :: event_loop where
  "service_loop = loop_new\<lparr>el_active := 1\<rparr>"

definition service_start :: "event_loop \<Rightarrow> (event_loop \<Rightarrow> event_loop) list \<Rightarrow> event_loop \<times> bool" where
  "service_start eventLoop rounds = loop_start eventLoop rounds"

definition service_stop :: "event_loop \<Rightarrow> event_loop" where
  "service_stop eventLoop = loop_stop eventLoop"

text \<open>\<open>onNodeFound\<close> does nothing with the node.\<close>

definition onNodeFound :: "'n \<Rightarrow> service \<Rightarrow> service" where
  "onNodeFound node s = s"

section \<open>TcpConnector and Timer\<close>

text \<open>The fields of a watcher that a handler reads; \<open>None\<close> where no code has written them.\<close>

record handle =
  h_fd :: "int option"
  h_data :: "nat option"
  h_started :: bool

record connector =
  m_pendingConnections :: "(int \<times> endpoint \<times> handle) list"
  cn_reactor :: bool

definition connector_new :: connector where
  "connector_new = \<lparr>m_pendingConnections = [], cn_reactor = False\<rparr>"

text \<open>
  \<open>connect\<close> is \<open>noexcept\<close>: an exception ends the program. It resolves the address and waits
  for input on the new socket. \<open>emplace\<close> keeps the address of an entry that is there already;
  its handler is initialised anew.
\<close>

definition connector_connect :: "answers \<Rightarrow> connector \<Rightarrow> connector sys" where
  "connector_connect a c =
     sbind (fromText (a_gai a) (a_socket a)) (\<lambda>(fd, e).
     sbind (set_nonblocking (a_getfl a) (a_setfl a) fd True) (\<lambda>r.
     sbind (throw_unless (r = 0) ''fcntl'') (\<lambda>_.
     let h = \<lparr>h_fd = Some fd, h_data = None, h_started = True\<rparr>;
         m = m_pendingConnections c
     in sreturn (c\<lparr>m_pendingConnections :=
          (if fd \<in> set (map fst m) then map (\<lambda>(fd', e', h'). if fd' = fd then (fd', e', h) else (fd', e', h')) m
           else (fd, e, h) # m)\<rparr>))))"

text \<open>
  The handler finds its connector through \<open>data\<close>, and the entry by the descriptor. \<open>cb\<close> is
  the continuation, which may give a link; it is started on the connector's \<open>reactor\<close>.
\<close>

definition connector_onEvent ::
  "(endpoint \<Rightarrow> slink option) \<Rightarrow> handle \<Rightarrow> connector \<Rightarrow> (connector \<times> slink option) result" where
  "connector_onEvent cb h c =
     (case (h_data h, h_fd h) of
        (Some _, Some fd) \<Rightarrow>
          (case map_of (m_pendingConnections c) fd of
             None \<Rightarrow> Inr (c, None)
           | Some (addr, _) \<Rightarrow>
               (let c' = c\<lparr>m_pendingConnections := filter (\<lambda>(fd', _). fd' \<noteq> fd) (m_pendingConnections c)\<rparr> in
                case cb addr of
                  None \<Rightarrow> Inr (c', None)
                | Some l \<Rightarrow>
                    if cn_reactor c then
                      rbind (link_start (link_init_ev \<lparr>w_fd = fd, w_events = EV_READ, w_active = False\<rparr> l))
                        (\<lambda>l. Inr (c', Some l))
                    else Inl Uninitialised))
      | _ \<Rightarrow> Inl Uninitialised)"

record timer =
  t_handle :: handle
  t_cb :: bool

definition timer_setCallback :: "timer \<Rightarrow> timer" where
  "timer_setCallback t = t\<lparr>t_cb := True\<rparr>"

text \<open>\<open>ev_timer_init\<close> leaves \<open>data\<close> alone.\<close>

definition timer_shedule :: "timer \<Rightarrow> timer" where
  "timer_shedule t = t\<lparr>t_handle := (t_handle t)\<lparr>h_started := True\<rparr>\<rparr>"

definition timer_stop :: "timer \<Rightarrow> timer" where
  "timer_stop t = t\<lparr>t_handle := (t_handle t)\<lparr>h_started := False\<rparr>\<rparr>"

definition timerCallback :: "timer \<Rightarrow> timer result" where
  "timerCallback t =
     (case h_data (t_handle t) of
        None \<Rightarrow> Inl Uninitialised
      | Some _ \<Rightarrow> if t_cb t then Inr t else Inl NullDeref)"

section \<open>Lemmas\<close>

lemma assign_closes:
  assumes "a_socket a \<notin> set (k_open k)"
  shows "assign_from_text a ac k =
    (case a_gai a of
       None \<Rightarrow> (k, Inl (Thrown ''getaddrinfo failed''))
     | Some addr \<Rightarrow>
         (case ep_sockaddr addr of
            Inl e \<Rightarrow> (k_socket k (a_socket a), Inl e)
          | Inr e \<Rightarrow> (k, Inr (ac\<lparr>ac_address := e, ac_sock := a_socket a\<rparr>))))"
  using assms
  by (auto simp: assign_from_text_def sbind_def fromText_def close_new split: option.splits sum.splits prod.splits)

lemma acceptor_init_fails:
  assumes "a_socket a \<notin> set (k_open k)"
  shows "acceptor_init a ac k =
    (case a_gai a of
       None \<Rightarrow> (k, Inl (Thrown ''getaddrinfo failed''))
     | Some addr \<Rightarrow>
         (case ep_sockaddr addr of
            Inl e \<Rightarrow> (k_socket k (a_socket a), Inl e)
          | Inr _ \<Rightarrow> (k, Inl (Thrown ''fcntl''))))"
proof (cases "a_gai a")
  case None
  then have "assign_from_text a ac k = (k, Inl (Thrown ''getaddrinfo failed''))"
    by (simp add: assign_closes [OF assms])
  then show ?thesis using None by (simp add: acceptor_init_def sbind_fault)
next
  case (Some addr)
  show ?thesis
  proof (cases "ep_sockaddr addr")
    case (Inl e)
    then have "assign_from_text a ac k = (k_socket k (a_socket a), Inl e)"
      using Some by (simp add: assign_closes [OF assms])
    then show ?thesis using Some Inl by (simp add: acceptor_init_def sbind_fault)
  next
    case (Inr e)
    then have "assign_from_text a ac k = (k, Inr (ac\<lparr>ac_address := e, ac_sock := a_socket a\<rparr>))"
      using Some by (simp add: assign_closes [OF assms])
    then show ?thesis
      using Some Inr assms by (simp add: acceptor_init_def sbind_value sbind_value [OF nonblocking_closed])
  qed
qed

lemma service_new_outcome:
  assumes "a_socket a \<notin> set (k_open k)"
  shows "service_new a garbage k =
    (case a_gai a of
       None \<Rightarrow> (k, Inl (Thrown ''getaddrinfo failed''))
     | Some addr \<Rightarrow>
         (case ep_sockaddr addr of
            Inl e \<Rightarrow> (k_socket k (a_socket a), Inl e)
          | Inr _ \<Rightarrow> (k, Inl (Thrown ''fcntl''))))"
proof -
  have "service_new a garbage k = (k', Inl e)" if "acceptor_init a (acceptor_new garbage) k = (k', Inl e)" for k' e
    using that by (simp add: service_new_def sbind_fault)
  then show ?thesis
    using acceptor_init_fails [OF assms, of "acceptor_new garbage"]
    by (cases "a_gai a"; cases "ep_sockaddr (the (a_gai a))") simp_all
qed

text \<open>With an address to listen on the constructor ends in the acceptor's exception, without one
  it reads a buffer nobody wrote.\<close>

lemma service_construct_fails:
  assumes "a_socket a \<notin> set (k_open k)"
  shows "\<exists>e. snd (service_construct ntop gai device r6 r4 pad a garbage k) = Inl e \<and>
    (\<forall>addr. currentAddress device r6 r4 pad = Inr addr \<longrightarrow>
       (if ia_family addr = AF_INET \<or> ia_family addr = AF_INET6
        then \<forall>bs ep. gai (ntop addr) = Some bs \<longrightarrow> ep_sockaddr bs = Inr ep \<longrightarrow> e = Thrown ''fcntl''
        else e = Uninitialised))"
proof (cases "rbind (currentAddress device r6 r4 pad) (inet_toString ntop)")
  case (Inl e)
  then show ?thesis by (auto simp: service_construct_def inet_toString_def split: if_splits)
next
  case (Inr t)
  then obtain addr where addr: "currentAddress device r6 r4 pad = Inr addr" "t = ntop addr"
    "ia_family addr = AF_INET \<or> ia_family addr = AF_INET6"
    by (auto simp: rbind_eq_Inr_iff inet_toString_def split: if_splits)
  have "a_socket (a\<lparr>a_gai := gai t\<rparr>) \<notin> set (k_open k)" using assms by simp
  from service_new_outcome [OF this, of garbage] Inr addr show ?thesis
    by (auto simp: service_construct_def split: option.splits sum.splits fault.splits)
qed

text \<open>When the address does not resolve, the exception closes descriptor 0, the standard input.\<close>

lemma service_closes_stdin:
  assumes "currentAddress device r6 r4 pad = Inr addr" "ia_family addr = AF_INET \<or> ia_family addr = AF_INET6"
    "gai (ntop addr) = None"
  shows "service_construct ntop gai device r6 r4 pad a garbage k =
    (k_close k 0, Inl (Thrown ''getaddrinfo failed''))"
  using assms
  by (auto simp: service_construct_def inet_toString_def service_new_def acceptor_init_def assign_from_text_def
      fromText_def sbind_def sock_default_def)

section \<open>Properties\<close>

text \<open>The service is never constructed. \<open>TcpAcceptor::init\<close> takes its descriptor out of a
  temporary \<open>SocketMain\<close>, whose destructor closes it, so that the next call on it fails and
  the constructor of \<open>SensorService\<close> throws, whatever address was found and whatever the
  kernel answers on open descriptors.\<close>

theorem service_never_constructed:
  assumes "a_socket a \<notin> set (k_open k)"
  shows "service_new a garbage k =
    (case a_gai a of
       None \<Rightarrow> (k, Inl (Thrown ''getaddrinfo failed''))
     | Some addr \<Rightarrow>
         (case ep_sockaddr addr of
            Inl e \<Rightarrow> (k_socket k (a_socket a), Inl e)
          | Inr _ \<Rightarrow> (k, Inl (Thrown ''fcntl''))))"
  by (rule service_new_outcome [OF assms])

definition answers_ok :: answers where
  "answers_ok = \<lparr>a_gai = Some (2 # replicate 15 0), a_socket = 3, a_getfl = 2, a_setfl = (\<lambda>_. 0), a_reuse = 0,
     a_bind = 0, a_listen = 0\<rparr>"

theorem service_never_constructed_witness:
  "service_new answers_ok [] \<lparr>k_open = [0, 1, 2]\<rparr> = (\<lparr>k_open = [0, 1, 2]\<rparr>, Inl (Thrown ''fcntl''))"
proof -
  have "le_word16 [2, 0] = 2" by (simp add: le_word16_def)
  then have "\<exists>e. ep_sockaddr (2 # replicate 15 0) = Inr e"
    by (simp add: ep_sockaddr_def mem_read_def AF_INET_def)
  then show ?thesis
    using service_never_constructed [of answers_ok "\<lparr>k_open = [0, 1, 2]\<rparr>" "[]"]
    by (auto simp: answers_ok_def)
qed

text \<open>The link a service makes for an accepted socket.\<close>

definition accepted_link :: "watcher \<Rightarrow> int \<Rightarrow> slink" where
  "accepted_link w fd = (link_new w)\<lparr>onRead := onDataRead, m_receive := True, m_sock := fd, m_reactor := True,
     m_handler := \<lparr>w_fd = w_fd w, w_events = 0, w_active = True\<rparr>, l_trace := [EvStart (w_fd w) 0]\<rparr>"

lemma start_accepted:
  "link_start (link_init fd (setReceiving True ((link_new w)\<lparr>onRead := onDataRead\<rparr>))) = Inr (accepted_link w fd)"
  by (simp add: link_start_def link_init_def setReceiving_def link_new_def prepareEvents_def wanted_events_def
      isSending_def nb_pending_def nb_new_def set_io_events_def ev_io_start_def log_def accepted_link_def Let_def)

lemma accepted_fields:
  "w_active (m_handler (accepted_link w fd))" "m_reactor (accepted_link w fd)" "nb_ok (m_in (accepted_link w fd))"
  "onDispose (accepted_link w fd) = None"
  using nb_new_ok [of 2048] by (simp_all add: accepted_link_def link_new_def)

lemma accept_new:
  assumes "ep_sockaddr saddr = Inr e" "fd \<noteq> - 1"
  shows "acceptor_onEvent fd saddr garbage w s k =
    (k_socket k fd,
     if \<exists>(e', _) \<in> set (activeChannels s). ep_eq e' e then Inr s
     else Inr (s\<lparr>activeChannels := (ep_copy e, accepted_link w fd) # activeChannels s\<rparr>))"
proof -
  have "sock_accept fd saddr garbage k = (k_socket k fd, Inr (fd, e))"
    using assms by (simp add: sock_accept_def)
  then show ?thesis
    by (auto simp: acceptor_onEvent_def sbind_value onConnectionAccepted_def emplace_def with_front_def
        start_accepted Let_def)
qed

text \<open>What becomes of an accepted connection. From a new endpoint it gets a link, which waits
  for no event on whatever descriptor its memory held; from an endpoint that has a link
  already, the new descriptor is left open and nothing refers to it.\<close>

theorem accept_outcome:
  assumes "ep_sockaddr saddr = Inr e" and "fd \<noteq> - 1"
  shows "acceptor_onEvent fd saddr garbage w s k =
    (k\<lparr>k_open := fd # k_open k\<rparr>,
     if \<exists>(e', _) \<in> set (activeChannels s). ep_eq e' e then Inr s
     else Inr (s\<lparr>activeChannels := (ep_copy e, accepted_link w fd) # activeChannels s\<rparr>)) \<and>
    l_trace (accepted_link w fd) = [EvStart (w_fd w) 0]"
  using accept_new [OF assms] assms(2) by (simp add: k_socket_def accepted_link_def)

definition peer :: "byte list" where
  "peer = 2 # replicate 15 0"

definition service_example :: service where
  "service_example = \<lparr>sv_acceptor = acceptor_new [], activeChannels = []\<rparr>"

lemma peer_endpoint: "ep_sockaddr peer = Inr (splice (replicate 128 0) 0 peer)"
proof -
  have "le_word16 [2, 0] = 2" by (simp add: le_word16_def)
  then show ?thesis by (simp add: ep_sockaddr_def mem_read_def AF_INET_def peer_def)
qed

theorem accept_outcome_witness:
  "\<exists>s'. acceptor_onEvent 8 peer [] \<lparr>w_fd = 99, w_events = 0, w_active = False\<rparr> service_example \<lparr>k_open = [4]\<rparr> =
     (\<lparr>k_open = [8, 4]\<rparr>, Inr s') \<and> map (l_trace \<circ> snd) (activeChannels s') = [[EvStart 99 0]]"
  using accept_outcome [OF peer_endpoint, of 8 "[]" "\<lparr>w_fd = 99, w_events = 0, w_active = False\<rparr>"
      service_example "\<lparr>k_open = [4]\<rparr>"]
  by (simp add: service_example_def)

text \<open>The service sets no \<open>onDispose\<close>: the first event in which the peer of an accepted link
  has closed the connection calls a null function.\<close>

theorem service_crashes_on_disconnect:
  assumes "recv 6144 = SysOk []"
  shows "onEvent recv send (accepted_link w fd) = Inl NullDeref"
proof -
  have "unat (nb_writable (m_in (accepted_link w fd))) + 4096 = 6144"
    using nb_writable_ok [of "m_in (accepted_link w fd)"] accepted_fields(3) [of w fd]
    by (simp add: accepted_link_def link_new_def nb_new_def nb_size_def)
  then show ?thesis
    using onEvent_disconnect [of "accepted_link w fd" recv send, OF accepted_fields(1-3)] accepted_fields(4) [of w fd] assms
    by (simp add: invoke_def)
qed

theorem service_crashes_on_disconnect_witness:
  "onEvent (\<lambda>_. SysOk []) (\<lambda>bs. SysOk (length bs)) (accepted_link \<lparr>w_fd = 8, w_events = 1, w_active = False\<rparr> 8) = Inl NullDeref"
  by (rule service_crashes_on_disconnect) simp

fun connects :: "answers list \<Rightarrow> connector \<Rightarrow> connector sys" where
  "connects [] c = sreturn c"
| "connects (a # as) c = sbind (connector_connect a c) (connects as)"

definition no_data :: "connector \<Rightarrow> bool" where
  "no_data c \<longleftrightarrow> (\<forall>(fd, e, h) \<in> set (m_pendingConnections c). h_data h = None)"

lemma connect_no_data:
  assumes "connector_connect a c k = (k', Inr c')" "no_data c"
  shows "no_data c'"
proof -
  obtain fd k1 e where "fromText (a_gai a) (a_socket a) k = (k1, Inr (fd, e))"
    using assms(1) by (cases "fromText (a_gai a) (a_socket a) k"; cases "snd (fromText (a_gai a) (a_socket a) k)")
      (auto simp: connector_connect_def sbind_def)
  then show ?thesis
    using assms
    by (auto simp: connector_connect_def sbind_value set_nonblocking_def sbind_def throw_unless_def sreturn_def
        no_data_def Let_def split: if_splits) fastforce+
qed

lemma connects_no_data: "connects as c k = (k', Inr c') \<Longrightarrow> no_data c \<Longrightarrow> no_data c'"
proof (induction as arbitrary: c k)
  case (Cons a as)
  then show ?case
    by (cases "connector_connect a c k"; cases "snd (connector_connect a c k)")
      (auto simp: sbind_def dest: connect_no_data)
qed (simp add: sreturn_def)

text \<open>No outgoing connection is ever completed: \<open>connect\<close> never sets the handler's \<open>data\<close>, so
  whichever connections have been asked for, the event of each of them follows an
  uninitialised pointer.\<close>

theorem connector_never_completes:
  assumes "connects as connector_new k = (k', Inr c)" and "(fd, e, h) \<in> set (m_pendingConnections c)"
  shows "connector_onEvent cb h c = Inl Uninitialised"
proof -
  have "h_data h = None"
    using connects_no_data [OF assms(1)] assms(2) by (fastforce simp: no_data_def connector_new_def)
  then show ?thesis by (simp add: connector_onEvent_def)
qed

theorem connector_never_completes_witness:
  "\<exists>c h. connects [answers_ok\<lparr>a_gai := Some peer\<rparr>] connector_new \<lparr>k_open = []\<rparr> = (\<lparr>k_open = [3]\<rparr>, Inr c) \<and>
     m_pendingConnections c = [(3, splice (replicate 128 0) 0 peer, h)] \<and>
     connector_onEvent (\<lambda>_. None) h c = Inl Uninitialised"
proof -
  let ?h = "\<lparr>h_fd = Some 3, h_data = None, h_started = True\<rparr>"
  let ?c = "\<lparr>m_pendingConnections = [(3, splice (replicate 128 0) 0 peer, ?h)], cn_reactor = False\<rparr>"
  have c: "connects [answers_ok\<lparr>a_gai := Some peer\<rparr>] connector_new \<lparr>k_open = []\<rparr> = (\<lparr>k_open = [3]\<rparr>, Inr ?c)"
    by (simp add: connector_connect_def sbind_def fromText_def answers_ok_def peer_endpoint set_nonblocking_def
        k_call_def k_socket_def throw_unless_def sreturn_def connector_new_def Let_def)
  show ?thesis using connector_never_completes [OF c, of 3 _ ?h] c by auto
qed

text \<open>What a timer's owner does.\<close>

datatype timer_op = TSetCallback | TShedule | TStop

fun timer_run :: "timer_op list \<Rightarrow> timer \<Rightarrow> timer" where
  "timer_run [] t = t"
| "timer_run (TSetCallback # ops) t = timer_run ops (timer_setCallback t)"
| "timer_run (TShedule # ops) t = timer_run ops (timer_shedule t)"
| "timer_run (TStop # ops) t = timer_run ops (timer_stop t)"

text \<open>A timer's callback is never called either: no operation sets \<open>data\<close>.\<close>

lemma timer_never_calls:
  "h_data (t_handle t) = None \<Longrightarrow> timerCallback (timer_run ops t) = Inl Uninitialised"
proof (induction ops arbitrary: t)
  case (Cons p ops)
  then show ?case by (cases p) (simp_all add: timer_setCallback_def timer_shedule_def timer_stop_def)
qed (simp add: timerCallback_def)

end
