(* ===== verification/SocketUtils.thy ===== *)
theory SocketUtils
  imports NetInfo
begin

text \<open>
  \<open>net/socket_utils.c\<close>. The results of the system calls are parameters; every function returns
  with its result the calls it made on descriptors, so that it can be said which descriptors
  are left open.
\<close>

section \<open>Calls on descriptors\<close>

datatype fd_call =
    CSocket int
  | CNonblock int
  | CBind int
  | CConnect int
  | CShutdown int
  | CClose int

text \<open>The descriptors that were opened and not closed.\<close>

fun left_open :: "fd_call list \<Rightarrow> int list \<Rightarrow> int list" where
  "left_open [] fds = fds"
| "left_open (CSocket fd # cs) fds = left_open cs (if fd = - 1 then fds else fd # fds)"
| "left_open (CClose fd # cs) fds = left_open cs (removeAll fd fds)"
| "left_open (_ # cs) fds = left_open cs fds"

definition close_socket :: "int \<Rightarrow> int \<Rightarrow> int \<times> fd_call list" where
  "close_socket close_result socket = (close_result, [CShutdown socket, CClose socket])"

section \<open>Interface flags and timeouts\<close>

text \<open>\<open>IFF_PROMISC\<close> in the 16-bit flags; \<open>None\<close> where the reading request fails.\<close>

definition IFF_PROMISC :: u16 where "IFF_PROMISC = 0x100"

definition promisc_flags :: "bool \<Rightarrow> u16 \<Rightarrow> u16" where
  "promisc_flags state flags = (if state then flags OR IFF_PROMISC else flags AND NOT IFF_PROMISC)"

text \<open>\<open>put\<close> answers the writing request; the flags written are returned with the result.\<close>

definition set_iface_promiscuous :: "string \<Rightarrow> bool \<Rightarrow> u16 option \<Rightarrow> (u16 \<Rightarrow> int) \<Rightarrow> (int \<times> u16 option) result" where
  "set_iface_promiscuous name state get put =
     rbind (ifr_name name) (\<lambda>_.
       case get of
         None \<Rightarrow> Inr (1, None)
       | Some flags \<Rightarrow>
           (let flags = promisc_flags state flags in
            if put flags = - 1 then Inr (1, Some flags) else Inr (0, Some flags)))"

text \<open>The two fields of \<open>timeval\<close> that are passed to \<open>setsockopt\<close>.\<close>

definition set_socket_timeout :: "(int \<times> int \<Rightarrow> int) \<Rightarrow> int \<Rightarrow> int" where
  "set_socket_timeout setsockopt seconds = setsockopt (seconds, 0)"

definition set_fd_nonblocking :: "int \<Rightarrow> (u32 \<Rightarrow> int) \<Rightarrow> int" where
  "set_fd_nonblocking getfl setfl =
     (let flags = (if getfl = - 1 then 0 else of_int getfl) in setfl (flags OR 0x800))"

text \<open>\<open>ifindex\<close> is what the kernel answers for the name.\<close>

definition bind_raw_socket_to_interface :: "string \<Rightarrow> int option \<Rightarrow> (int \<Rightarrow> int) \<Rightarrow> int result" where
  "bind_raw_socket_to_interface name ifindex bind =
     rbind (ifr_name name) (\<lambda>_.
       case ifindex of
         None \<Rightarrow> Inr 1
       | Some i \<Rightarrow> if bind i = - 1 then Inr 1 else Inr 0)"

section \<open>Sockets\<close>

text \<open>
  The loop runs once. The \<open>sock\<close> of its body is a new variable, and the one that is returned
  is never assigned. Where \<open>getaddrinfo\<close> fails, \<open>freeaddrinfo\<close> reads \<open>result\<close> uninitialised.
\<close>

definition create_socket_server :: "int \<Rightarrow> int \<Rightarrow> int \<Rightarrow> (int \<times> fd_call list) result" where
  "create_socket_server gai socket_result bind_result =
     (let sock = - 1 in
      if gai \<noteq> 0 then Inl Uninitialised
      else
        let calls = (let sock = socket_result in
            if sock = - 1 then [CSocket sock]
            else [CSocket sock, CBind sock] @ (if bind_result \<noteq> 1 then [CClose sock] else []))
        in Inr (sock, calls))"

text \<open>\<open>EINTR\<close> is 4, \<open>EINPROGRESS\<close> 115; \<open>err\<close> is \<open>errno\<close> when it is read.\<close>

definition pending_error :: "nat \<Rightarrow> bool \<Rightarrow> bool" where
  "pending_error err is_nonblock \<longleftrightarrow> (err = 115 \<and> is_nonblock) \<or> err = 4"

definition connect_calls :: "int \<Rightarrow> bool \<Rightarrow> int \<Rightarrow> nat \<Rightarrow> int \<times> fd_call list" where
  "connect_calls sock is_nonblock rc err =
     (if rc \<noteq> 1 \<and> \<not> pending_error err is_nonblock
      then (- 1, [CSocket sock] @ (if is_nonblock then [CNonblock sock] else []) @ [CConnect sock, CClose sock])
      else (sock, [CSocket sock] @ (if is_nonblock then [CNonblock sock] else []) @ [CConnect sock]))"

definition create_tcp_connect :: "int \<Rightarrow> int \<Rightarrow> bool \<Rightarrow> int \<Rightarrow> nat \<Rightarrow> (int \<times> fd_call list) result" where
  "create_tcp_connect gai socket_result is_nonblock rc err =
     (let sock = - 1 in
      if gai \<noteq> 0 then Inl Uninitialised
      else
        let calls = (let sock = socket_result in
            if sock = - 1 then [CSocket sock] else snd (connect_calls sock is_nonblock rc err))
        in Inr (sock, calls))"

text \<open>The length of the address passed to \<open>connect\<close>, by its family.\<close>

definition saddr_len :: "u16 \<Rightarrow> nat" where
  "saddr_len family = (if family = AF_INET then 16 else if family = AF_INET6 then 28 else 0)"

definition create_inet_connect :: "u16 \<Rightarrow> int \<Rightarrow> bool \<Rightarrow> (nat \<Rightarrow> int) \<Rightarrow> nat \<Rightarrow> int \<times> fd_call list" where
  "create_inet_connect family socket_result is_nonblock connect err =
     (let len = saddr_len family; sock = socket_result in
      if sock = - 1 then (sock, [CSocket sock])
      else connect_calls sock is_nonblock (connect len) err)"

section \<open>Properties\<close>

text \<open>A server socket is never handed out: whatever the system calls answer,
  \<open>create_socket_server\<close> returns \<open>-1\<close> when it returns, and it has closed the socket it bound,
  since \<open>bind\<close> never returns 1.\<close>

theorem server_socket_lost:
  assumes "gai = 0" and "bind_result = 0 \<or> bind_result = - 1"
  shows "\<exists>calls. create_socket_server gai fd bind_result = Inr (- 1, calls) \<and>
    (fd = - 1 \<or> CBind fd \<in> set calls) \<and> left_open calls [] = []"
  using assms by (auto simp: create_socket_server_def Let_def)

theorem server_socket_lost_witness:
  "\<exists>calls. create_socket_server 0 5 0 = Inr (- 1, calls) \<and> CBind 5 \<in> set calls \<and> left_open calls [] = []"
  using server_socket_lost [of 0 0 5] by simp

text \<open>\<open>create_tcp_connect\<close> returns \<open>-1\<close> whenever it returns. The connection it made is closed
  when \<open>errno\<close>, which a successful \<open>connect\<close> does not set, happens not to be a pending error,
  and otherwise it stays open with nobody knowing its descriptor.\<close>

theorem tcp_connect_lost:
  assumes "gai = 0" and "fd \<noteq> - 1" and "rc = 0 \<or> rc = - 1"
  shows "\<exists>calls. create_tcp_connect gai fd is_nonblock rc err = Inr (- 1, calls) \<and>
    CConnect fd \<in> set calls \<and> left_open calls [] = (if pending_error err is_nonblock then [fd] else [])"
  using assms by (auto simp: create_tcp_connect_def connect_calls_def Let_def)

theorem tcp_connect_lost_witness:
  "(\<exists>calls. create_tcp_connect 0 5 True (- 1) 115 = Inr (- 1, calls) \<and> left_open calls [] = [5]) \<and>
   (\<exists>calls. create_tcp_connect 0 5 False 0 0 = Inr (- 1, calls) \<and> left_open calls [] = [])"
  using tcp_connect_lost [of 0 5 "- 1" True 115] tcp_connect_lost [of 0 5 0 False 0]
  by (auto simp: pending_error_def)

text \<open>\<open>create_inet_connect\<close> does return its socket, but after a successful \<open>connect\<close> only if
  \<open>errno\<close> happens to be a pending error; whatever it does not return is closed.\<close>

lemma inet_connect_outcome:
  assumes "fd \<noteq> - 1" "connect (saddr_len family) = 0 \<or> connect (saddr_len family) = - 1"
  shows "\<exists>calls. create_inet_connect family fd is_nonblock connect err =
      (if pending_error err is_nonblock then fd else - 1, calls) \<and>
    left_open calls [] = (if pending_error err is_nonblock then [fd] else [])"
  using assms by (auto simp: create_inet_connect_def connect_calls_def Let_def)

lemma promisc_flags_bit: "bit (promisc_flags state flags) n \<longleftrightarrow> (if n = 8 then state else bit flags n)"
proof -
  have p: "bit IFF_PROMISC n \<longleftrightarrow> n = 8" for n
  proof -
    have "bit (2 ^ 8 :: u16) n \<longleftrightarrow> n = 8" by (simp only: bit_exp_iff) (auto simp: possible_bit_word)
    then show ?thesis by (simp add: IFF_PROMISC_def)
  qed
  show ?thesis
  proof (cases "n < 16")
    case True
    then show ?thesis by (auto simp: promisc_flags_def bit_simps p)
  next
    case False
    then show ?thesis using bit_imp_le_length [of flags n] by (auto simp: promisc_flags_def bit_simps p)
  qed
qed

text \<open>Setting the promiscuous mode writes the interface's flags with exactly that flag set or
  cleared as asked, every other flag as it was read, and reports 0 only if both requests
  succeeded; setting it and resetting what was off before restores the flags.\<close>

theorem promiscuous_flag:
  assumes "length name < 16"
  shows "set_iface_promiscuous name state (Some flags) put =
      Inr (if put (promisc_flags state flags) = - 1 then 1 else 0, Some (promisc_flags state flags)) \<and>
    (\<forall>n. bit (promisc_flags state flags) n \<longleftrightarrow> (if n = 8 then state else bit flags n)) \<and>
    promisc_flags (bit flags 8) (promisc_flags state flags) = flags \<and>
    set_iface_promiscuous name state None put = Inr (1, None)"
proof -
  have "promisc_flags (bit flags 8) (promisc_flags state flags) = flags"
    by (rule bit_word_eqI) (simp add: promisc_flags_bit)
  then show ?thesis
    using assms by (simp add: set_iface_promiscuous_def ifr_name_def promisc_flags_bit Let_def)
qed

theorem promiscuous_flag_witness:
  "set_iface_promiscuous ''eth0'' True (Some 0x1043) (\<lambda>_. 0) = Inr (0, Some 0x1143)"
proof -
  have "promisc_flags True 0x1043 = 0x1143" by (simp add: promisc_flags_def IFF_PROMISC_def)
  then show ?thesis using promiscuous_flag [of "''eth0''" True "0x1043" "\<lambda>_. 0"] by simp
qed

end
