(* ===== verification/Pgm.thy ===== *)
theory Pgm
  imports Address
begin

text \<open>
  \<open>net/pgm_socket_utils.c\<close>: multicast sockets of the OpenPGM library. The library is a
  parameter: a record of what its functions answer. Each function returns with its result the
  calls it made, in order; a chain of checked calls stops at the first that fails.
\<close>

section \<open>Calls\<close>

datatype pgm_option =
    PGM_UDP_ENCAP_UCAST_PORT | PGM_UDP_ENCAP_MCAST_PORT | PGM_JOIN_GROUP | PGM_SEND_GROUP
  | PGM_MULTICAST_LOOP | PGM_MULTICAST_HOPS | PGM_TOS | PGM_NOBLOCK
  | PGM_SEND_ONLY | PGM_MTU | PGM_TXW_SQNS | PGM_TXW_MAX_RTE | PGM_AMBIENT_SPM | PGM_HEARTBEAT_SPM
  | PGM_RECV_ONLY | PGM_PASSIVE | PGM_RXW_SQNS | PGM_PEER_EXPIRY | PGM_SPMR_EXPIRY
  | PGM_NAK_BO_IVL | PGM_NAK_RPT_IVL | PGM_NAK_RDATA_IVL | PGM_NAK_DATA_RETRIES | PGM_NAK_NCF_RETRIES

datatype pgm_call =
    PGetaddrinfo string
  | PSocket u16 bool
  | PSet pgm_option "int list"
  | PGsi
  | PBind nat
  | PConnect
  | PErrorFree
  | PFreeaddrinfo
  | PClose

text \<open>The first of the addresses: the family, the scope and the number of groups to join.\<close>

record pgm_addr =
  pa_family :: u16
  pa_scope :: nat
  pa_groups :: nat

record pgm =
  p_addr :: "string \<Rightarrow> pgm_addr option"
  p_socket :: bool
  p_set :: "pgm_option \<Rightarrow> int list \<Rightarrow> bool"
  p_gsi :: bool
  p_bind :: bool
  p_connect :: bool

fun run_steps :: "(pgm_call \<times> bool) list \<Rightarrow> pgm_call list \<times> bool" where
  "run_steps [] = ([], True)"
| "run_steps ((c, ok) # ss) =
     (if ok then let (cs, r) = run_steps ss in (c # cs, r) else ([c], False))"

definition pset :: "pgm \<Rightarrow> pgm_option \<Rightarrow> int list \<Rightarrow> pgm_call \<times> bool" where
  "pset p opt val = (PSet opt val, p_set p opt val)"

text \<open>A call whose result is not looked at.\<close>

definition ignored :: "pgm_call \<times> bool \<Rightarrow> pgm_call \<times> bool" where
  "ignored s = (fst s, True)"

section \<open>Creating a socket\<close>

text \<open>The \<open>break\<close> of a failed join leaves the loop over the groups only.\<close>

fun join_groups :: "pgm \<Rightarrow> nat \<Rightarrow> nat \<Rightarrow> (pgm_call \<times> bool) list" where
  "join_groups p i 0 = []"
| "join_groups p i (Suc n) =
     (let s = pset p PGM_JOIN_GROUP [int i] in
      if snd s then ignored s # join_groups p (i + 1) n else [ignored s])"

definition setup_steps :: "pgm \<Rightarrow> u16 \<Rightarrow> bool \<Rightarrow> pgm_addr \<Rightarrow> (pgm_call \<times> bool) list" where
  "setup_steps p port encap a =
     (if encap then [pset p PGM_UDP_ENCAP_UCAST_PORT [uint port], pset p PGM_UDP_ENCAP_MCAST_PORT [uint port]] else [])
     @ [(PGsi, p_gsi p), (PBind (if pa_family a = AF_INET6 then pa_scope a else 0), p_bind p)]
     @ join_groups p 0 (pa_groups a)
     @ [pset p PGM_SEND_GROUP [0]]
     @ map ignored
         ([pset p PGM_MULTICAST_LOOP [0], pset p PGM_MULTICAST_HOPS [16]]
          @ (if pa_family a \<noteq> AF_INET6 then [pset p PGM_TOS [0xB8]] else [])
          @ [pset p PGM_NOBLOCK [0]])
     @ [(PConnect, p_connect p)]"

text \<open>The calls that report through \<open>pgm_error\<close> when they fail.\<close>

fun sets_error :: "pgm_call \<Rightarrow> bool" where
  "sets_error (PGetaddrinfo _) = True"
| "sets_error (PSocket _ _) = True"
| "sets_error (PBind _) = True"
| "sets_error PConnect = True"
| "sets_error _ = False"

text \<open>\<open>snprintf\<close> into 256 bytes; the result tells whether a socket is returned or \<open>NULL\<close>.\<close>

definition create_pgm_socket :: "pgm \<Rightarrow> string \<Rightarrow> string \<Rightarrow> u16 \<Rightarrow> bool \<Rightarrow> pgm_call list \<times> bool" where
  "create_pgm_socket p iface multicastaddr port encap =
     (let network = take 255 (iface @ '';'' @ multicastaddr) in
      case p_addr p network of
        None \<Rightarrow> ([PGetaddrinfo network, PErrorFree], False)
      | Some a \<Rightarrow>
          (let socket = PSocket (pa_family a) encap in
           if \<not> p_socket p then ([PGetaddrinfo network, socket, PErrorFree, PFreeaddrinfo], False)
           else
             let (calls, ok) = run_steps (setup_steps p port encap a);
                 error = (if \<not> ok \<and> sets_error (last calls) then [PErrorFree] else [])
             in ([PGetaddrinfo network, socket] @ calls @ error @ [PFreeaddrinfo]
                   @ (if \<not> ok then [PClose] else []), ok)))"

section \<open>Options\<close>

text \<open>\<open>pgm_secs\<close> and \<open>pgm_msecs\<close> are microseconds.\<close>

definition pgm_secs :: "int \<Rightarrow> int" where "pgm_secs s = s * 1000000"
definition pgm_msecs :: "int \<Rightarrow> int" where "pgm_msecs s = s * 1000"

definition set_pgm_sender :: "pgm \<Rightarrow> pgm_call list \<times> bool" where
  "set_pgm_sender p = run_steps
     [pset p PGM_SEND_ONLY [1], pset p PGM_MTU [1500], pset p PGM_TXW_SQNS [100],
      pset p PGM_TXW_MAX_RTE [400 * 1000], pset p PGM_MULTICAST_HOPS [32], pset p PGM_AMBIENT_SPM [pgm_secs 30],
      pset p PGM_HEARTBEAT_SPM
        [pgm_msecs 100, pgm_msecs 100, pgm_msecs 100, pgm_msecs 100, pgm_msecs 1300, pgm_secs 7, pgm_secs 16,
         pgm_secs 25, pgm_secs 30]]"

definition set_pgm_receiver :: "pgm \<Rightarrow> pgm_call list \<times> bool" where
  "set_pgm_receiver p = run_steps
     [pset p PGM_RECV_ONLY [1], pset p PGM_PASSIVE [0], pset p PGM_MTU [1500], pset p PGM_RXW_SQNS [100],
      pset p PGM_PEER_EXPIRY [pgm_secs 300], pset p PGM_SPMR_EXPIRY [pgm_msecs 250],
      pset p PGM_NAK_BO_IVL [pgm_msecs 50], pset p PGM_NAK_RPT_IVL [pgm_secs 2], pset p PGM_NAK_RDATA_IVL [pgm_secs 2],
      pset p PGM_NAK_DATA_RETRIES [50], pset p PGM_NAK_NCF_RETRIES [50]]"

text \<open>\<open>getsockopt\<close> with the option's value, or \<open>None\<close> where it fails.\<close>

datatype pgm_get =
    PGM_RATE_REMAIN | PGM_TIME_REMAIN | PGM_SEND_SOCK | PGM_RECV_SOCK | PGM_REPAIR_SOCK | PGM_PENDING_SOCK | PGM_MSS

definition get_pgm_time :: "(pgm_get \<Rightarrow> (int \<times> int) option) \<Rightarrow> pgm_get \<Rightarrow> u64 result" where
  "get_pgm_time getsockopt option =
     (case getsockopt option of
        None \<Rightarrow> Inl AssertFailed
      | Some (sec, usec) \<Rightarrow> Inr (word_of_int (sec * 1000 + (sgn usec * (\<bar>usec\<bar> div 1000)))))"

definition get_pgm_rate_timeout :: "(pgm_get \<Rightarrow> (int \<times> int) option) \<Rightarrow> bool \<Rightarrow> u64 result" where
  "get_pgm_rate_timeout getsockopt sock = rbind (rassert sock) (\<lambda>_. get_pgm_time getsockopt PGM_RATE_REMAIN)"

definition get_pgm_timeout :: "(pgm_get \<Rightarrow> (int \<times> int) option) \<Rightarrow> bool \<Rightarrow> u64 result" where
  "get_pgm_timeout getsockopt sock = rbind (rassert sock) (\<lambda>_. get_pgm_time getsockopt PGM_TIME_REMAIN)"

text \<open>The descriptors of a sender and of a receiver, all or none.\<close>

fun get_fds :: "(pgm_get \<Rightarrow> int option) \<Rightarrow> pgm_get list \<Rightarrow> int list option" where
  "get_fds getsockopt [] = Some []"
| "get_fds getsockopt (opt # opts) =
     (case getsockopt opt of
        None \<Rightarrow> None
      | Some fd \<Rightarrow> map_option ((#) fd) (get_fds getsockopt opts))"

definition get_pgm_send_fd :: "(pgm_get \<Rightarrow> int option) \<Rightarrow> int list \<Rightarrow> int list \<times> bool" where
  "get_pgm_send_fd getsockopt send_fds =
     (case get_fds getsockopt [PGM_SEND_SOCK, PGM_RECV_SOCK, PGM_REPAIR_SOCK, PGM_PENDING_SOCK] of
        None \<Rightarrow> (send_fds, False)
      | Some fds \<Rightarrow> (fds, True))"

definition get_pgm_recv_fd :: "(pgm_get \<Rightarrow> int option) \<Rightarrow> int list \<Rightarrow> int list \<times> bool" where
  "get_pgm_recv_fd getsockopt recv_fds =
     (case get_fds getsockopt [PGM_RECV_SOCK, PGM_PENDING_SOCK] of
        None \<Rightarrow> (recv_fds, False)
      | Some fds \<Rightarrow> (fds, True))"

datatype pgm_status = PGM_IO_STATUS_ERROR | PGM_IO_STATUS_TIMER_PENDING | PGM_IO_STATUS_RATE_LIMITED | PGM_IO_STATUS_OTHER

text \<open>\<open>recvmsgv\<close> answers with a status and a length.\<close>

definition pgm_sender_push_fsm ::
  "(pgm_get \<Rightarrow> (int \<times> int) option) \<Rightarrow> bool \<Rightarrow> pgm_status \<times> nat \<Rightarrow> u64 result" where
  "pgm_sender_push_fsm getsockopt sock recvmsgv =
     (let (status, len) = recvmsgv in
      rbind (rassert (status \<noteq> PGM_IO_STATUS_ERROR)) (\<lambda>_.
      rbind (rassert (len = 0)) (\<lambda>_.
        case status of
          PGM_IO_STATUS_TIMER_PENDING \<Rightarrow> get_pgm_timeout getsockopt sock
        | PGM_IO_STATUS_RATE_LIMITED \<Rightarrow> get_pgm_rate_timeout getsockopt sock
        | _ \<Rightarrow> Inr 0)))"

definition pgm_get_max_tsdu :: "(pgm_get \<Rightarrow> int option) \<Rightarrow> u64" where
  "pgm_get_max_tsdu getsockopt = (case getsockopt PGM_MSS of None \<Rightarrow> 0 | Some n \<Rightarrow> word_of_int n)"

section \<open>Lemmas\<close>

lemma run_steps_ok: "snd (run_steps ss) \<longleftrightarrow> (\<forall>s\<in>set ss. snd s)"
  by (induction ss rule: run_steps.induct) (auto simp: case_prod_beta Let_def)

lemma run_steps_calls: "set (fst (run_steps ss)) \<subseteq> fst ` set ss"
  by (induction ss rule: run_steps.induct) (auto simp: case_prod_beta Let_def)

lemma run_steps_all: "snd (run_steps ss) \<Longrightarrow> fst (run_steps ss) = map fst ss"
  by (induction ss rule: run_steps.induct) (auto simp: case_prod_beta Let_def split: if_splits)

lemma join_groups_ok: "s \<in> set (join_groups p i n) \<Longrightarrow> snd s \<and> (\<exists>k. fst s = PSet PGM_JOIN_GROUP [int k])"
  by (induction p i n rule: join_groups.induct) (auto simp: ignored_def pset_def Let_def split: if_splits)

text \<open>The conditions under which all checked calls of the setup succeed.\<close>

definition setup_ok :: "pgm \<Rightarrow> u16 \<Rightarrow> bool \<Rightarrow> bool" where
  "setup_ok p port encap \<longleftrightarrow>
     (encap \<longrightarrow> p_set p PGM_UDP_ENCAP_UCAST_PORT [uint port] \<and> p_set p PGM_UDP_ENCAP_MCAST_PORT [uint port]) \<and>
     p_gsi p \<and> p_bind p \<and> p_set p PGM_SEND_GROUP [0] \<and> p_connect p"

lemma setup_steps_ok: "snd (run_steps (setup_steps p port encap a)) \<longleftrightarrow> setup_ok p port encap"
  using join_groups_ok [of _ p 0 "pa_groups a"]
  by (auto simp: run_steps_ok setup_steps_def setup_ok_def ignored_def pset_def ball_Un)

lemma setup_no_release:
  "c \<in> set (fst (run_steps (setup_steps p port encap a))) \<Longrightarrow> c \<noteq> PClose \<and> c \<noteq> PFreeaddrinfo \<and> c \<noteq> PSocket f e"
  using run_steps_calls [of "setup_steps p port encap a"] join_groups_ok [of _ p 0 "pa_groups a"]
  by (fastforce simp: setup_steps_def ignored_def pset_def split: if_splits)

section \<open>Properties\<close>

lemma count_zero: "x \<notin> set xs \<Longrightarrow> count_list xs x = 0"
  by (simp add: count_list_0_iff)

text \<open>C37. \<open>create_pgm_socket\<close> owns what it makes. It returns a socket exactly when an address was
  found, the socket was made and every checked call on it succeeded, joining the groups not
  among them: a group that cannot be joined is no error. A socket that was made is either
  returned or closed once, and the addresses are freed once if they were found.\<close>

theorem pgm_socket_owned:
  assumes "create_pgm_socket p iface mc port encap = (calls, ok)"
  shows "(ok \<longleftrightarrow> p_addr p (take 255 (iface @ '';'' @ mc)) \<noteq> None \<and> p_socket p \<and> setup_ok p port encap) \<and>
    count_list calls PClose =
      (if p_addr p (take 255 (iface @ '';'' @ mc)) \<noteq> None \<and> p_socket p \<and> \<not> ok then 1 else 0) \<and>
    count_list calls PFreeaddrinfo = (if p_addr p (take 255 (iface @ '';'' @ mc)) \<noteq> None then 1 else 0)"
proof -
  define network where "network = take 255 (iface @ '';'' @ mc)"
  show ?thesis
  proof (cases "p_addr p network")
    case None
    then show ?thesis using assms by (auto simp: create_pgm_socket_def Let_def network_def)
  next
    case (Some a)
    obtain cs r where r: "run_steps (setup_steps p port encap a) = (cs, r)" by fastforce
    have "r \<longleftrightarrow> setup_ok p port encap" using setup_steps_ok [of p port encap a] r by simp
    moreover have "count_list cs PClose = 0" "count_list cs PFreeaddrinfo = 0"
      using setup_no_release [of _ p port encap a] r by (auto intro!: count_zero)
    ultimately show ?thesis
      using assms Some r by (auto simp: create_pgm_socket_def Let_def network_def split: if_splits)
  qed
qed

definition pgm_example :: pgm where
  "pgm_example = \<lparr>p_addr = (\<lambda>_. Some \<lparr>pa_family = AF_INET, pa_scope = 0, pa_groups = 2\<rparr>), p_socket = True,
     p_set = (\<lambda>opt _. opt \<noteq> PGM_JOIN_GROUP), p_gsi = True, p_bind = True, p_connect = True\<rparr>"

theorem pgm_socket_owned_witness:
  "snd (create_pgm_socket pgm_example ''eth0'' ''239.0.0.1'' 7500 False) \<and>
   count_list (fst (create_pgm_socket pgm_example ''eth0'' ''239.0.0.1'' 7500 False)) PClose = 0"
proof -
  obtain calls ok where e: "create_pgm_socket pgm_example ''eth0'' ''239.0.0.1'' 7500 False = (calls, ok)" by fastforce
  have "setup_ok pgm_example 7500 False" by (simp add: setup_ok_def pgm_example_def)
  then show ?thesis using pgm_socket_owned [OF e] e by (simp add: pgm_example_def)
qed

text \<open>The options of a sender and a receiver: all or, at the first that is refused, an error.\<close>

lemma sender_options:
  "snd (set_pgm_sender p) \<Longrightarrow> map (\<lambda>c. case c of PSet opt _ \<Rightarrow> opt) (fst (set_pgm_sender p)) =
    [PGM_SEND_ONLY, PGM_MTU, PGM_TXW_SQNS, PGM_TXW_MAX_RTE, PGM_MULTICAST_HOPS, PGM_AMBIENT_SPM, PGM_HEARTBEAT_SPM]"
  unfolding set_pgm_sender_def by (simp add: run_steps_all pset_def del: run_steps.simps)

lemma send_fds_all: "snd (get_pgm_send_fd g fds) \<Longrightarrow> length (fst (get_pgm_send_fd g fds)) = 4"
  by (auto simp: get_pgm_send_fd_def split: option.splits)

end
