(* ===== verification/Future.thy ===== *)
theory Future
  imports Prelude
begin

text \<open>
  \<open>State\<close> of \<open>msgqueue/cmd/future.hpp\<close>: a result behind a mutex and a condition variable. First
  \<open>wait_for\<close>, then all interleavings of the thread that sets the value with any number of waiting
  threads. Who owns the state is in \<open>Request\<close>.
\<close>

section \<open>Waiting with a time limit\<close>

record 'v state =
  result_of :: "'v option"

definition isReady :: "'v state \<Rightarrow> bool" where
  "isReady s \<longleftrightarrow> result_of s \<noteq> None"

text \<open>
  \<open>State::wait_for\<close> hands \<open>sec\<close> and \<open>nanosec\<close> to \<open>pthread_cond_timedwait\<close>, for which they are
  a time of day. \<open>wakeups\<close> says what the state is when the wait ends before that time.
\<close>

definition timedwait :: "nat \<times> nat \<Rightarrow> nat \<times> nat \<Rightarrow> 'v state \<Rightarrow> 'v state \<Rightarrow> 'v state" where
  "timedwait now deadline p later =
     (if fst deadline < fst now \<or> fst deadline = fst now \<and> snd deadline \<le> snd now then p else later)"

definition wait_for :: "nat \<times> nat \<Rightarrow> nat \<Rightarrow> nat \<Rightarrow> 'v state \<Rightarrow> 'v state \<Rightarrow> bool" where
  "wait_for now sec nanosec p later =
     (if \<not> isReady p then isReady (timedwait now (sec, nanosec) p later) else True)"

section \<open>Threads\<close>

text \<open>
  Where the setting thread is: before its lock, holding it, after the swap, after the unlock,
  and past \<open>notify_all\<close>. A waiting thread: not yet called, before a lock, about to test \<open>isReady\<close>, about to
  call \<open>cond.wait\<close> when the test has failed, asleep, past the loop, about to read \<open>*result\<close>, and returned.
\<close>

datatype set_pc = SLock | SSwap | SUnlock | SNotify | SDone

datatype 'v wait_pc = WIdle | WLock | WTest | WBlock | WSleep | WUnlock | WRead | WDone 'v

datatype owner = Setter | Waiter nat

record 'v shared =
  f_mutex :: "owner option"
  f_result :: "'v option"
  f_set :: set_pc
  f_wait :: "nat \<Rightarrow> 'v wait_pc"

definition shared_init :: "'v shared" where
  "shared_init = \<lparr>f_mutex = None, f_result = None, f_set = SLock, f_wait = (\<lambda>_. WIdle)\<rparr>"

definition goto :: "nat \<Rightarrow> 'v wait_pc \<Rightarrow> 'v shared \<Rightarrow> 'v shared" where
  "goto i pc s = s\<lparr>f_wait := (f_wait s)(i := pc)\<rparr>"

text \<open>\<open>Mutex\<close> and \<open>CondVar\<close> by what pthreads promises of them: a lock waits until the mutex is free;
  \<open>wait\<close> gives it up and sleeps in one step, and has to lock it again; \<open>notify\<close> wakes the sleeping thread
  the system picks, \<open>notify_all\<close> every one.\<close>

definition mutex_free :: "'v shared \<Rightarrow> bool" where
  [simp]: "mutex_free s \<longleftrightarrow> f_mutex s = None"

definition mutex_lock :: "owner \<Rightarrow> 'v shared \<Rightarrow> 'v shared" where
  [simp]: "mutex_lock w s = s\<lparr>f_mutex := Some w\<rparr>"

definition mutex_unlock :: "'v shared \<Rightarrow> 'v shared" where
  [simp]: "mutex_unlock s = s\<lparr>f_mutex := None\<rparr>"

definition cond_wait :: "nat \<Rightarrow> 'v shared \<Rightarrow> 'v shared" where
  [simp]: "cond_wait i s = mutex_unlock (goto i WSleep s)"

definition cond_notify :: "nat \<Rightarrow> 'v shared \<Rightarrow> 'v shared" where
  "cond_notify i s = (if f_wait s i = WSleep then goto i WLock s else s)"

definition notify_all :: "'v shared \<Rightarrow> 'v shared" where
  [simp]: "notify_all s = s\<lparr>f_wait := (\<lambda>i. if f_wait s i = WSleep then WLock else f_wait s i)\<rparr>"

inductive set_step :: "'v \<Rightarrow> 'v shared \<Rightarrow> 'v shared \<Rightarrow> bool" where
  set_lock: "f_set s = SLock \<Longrightarrow> mutex_free s \<Longrightarrow> set_step v s (mutex_lock Setter (s\<lparr>f_set := SSwap\<rparr>))"
| set_swap: "f_set s = SSwap \<Longrightarrow> set_step v s (s\<lparr>f_set := SUnlock, f_result := Some v\<rparr>)"
| set_unlock: "f_set s = SUnlock \<Longrightarrow> set_step v s (mutex_unlock (s\<lparr>f_set := SNotify\<rparr>))"
| set_notify: "f_set s = SNotify \<Longrightarrow> set_step v s (notify_all (s\<lparr>f_set := SDone\<rparr>))"

text \<open>A sleeping thread may also wake up for no reason.\<close>

inductive wait_step :: "nat \<Rightarrow> 'v shared \<Rightarrow> 'v shared \<Rightarrow> bool" for i where
  wait_call: "f_wait s i = WIdle \<Longrightarrow> wait_step i s (goto i WLock s)"
| wait_lock: "f_wait s i = WLock \<Longrightarrow> mutex_free s \<Longrightarrow> wait_step i s (mutex_lock (Waiter i) (goto i WTest s))"
| wait_unready: "f_wait s i = WTest \<Longrightarrow> f_result s = None \<Longrightarrow> wait_step i s (goto i WBlock s)"
| wait_sleep: "f_wait s i = WBlock \<Longrightarrow> wait_step i s (cond_wait i s)"
| wait_ready: "f_wait s i = WTest \<Longrightarrow> f_result s \<noteq> None \<Longrightarrow> wait_step i s (goto i WUnlock s)"
| wait_spurious: "f_wait s i = WSleep \<Longrightarrow> wait_step i s (goto i WLock s)"
| wait_unlock: "f_wait s i = WUnlock \<Longrightarrow> wait_step i s (mutex_unlock (goto i WRead s))"
| wait_read: "f_wait s i = WRead \<Longrightarrow> f_result s = Some w \<Longrightarrow> wait_step i s (goto i (WDone w) s)"

inductive shared_step :: "'v \<Rightarrow> 'v shared \<Rightarrow> 'v shared \<Rightarrow> bool" for v where
  of_setter: "set_step v s s' \<Longrightarrow> shared_step v s s'"
| of_waiter: "wait_step i s s' \<Longrightarrow> shared_step v s s'"

abbreviation shared_steps :: "'v \<Rightarrow> 'v shared \<Rightarrow> 'v shared \<Rightarrow> bool" where
  "shared_steps v \<equiv> (shared_step v)\<^sup>*\<^sup>*"

inductive_cases set_stepE: "set_step v s s'"
inductive_cases wait_stepE: "wait_step i s s'"
inductive_cases shared_stepE: "shared_step v s s'"

section \<open>Invariant\<close>

text \<open>The mutex is held by whoever is between its lock and unlock; the result is there from the
  swap on, and not while a thread that has found none still holds the mutex; nobody sleeps once all have been
  notified.\<close>

definition shared_inv :: "'v \<Rightarrow> 'v shared \<Rightarrow> bool" where
  "shared_inv v s \<longleftrightarrow>
     (f_mutex s = Some Setter \<longleftrightarrow> f_set s = SSwap \<or> f_set s = SUnlock) \<and>
     (\<forall>i. f_mutex s = Some (Waiter i) \<longleftrightarrow> f_wait s i \<in> {WTest, WBlock, WUnlock}) \<and>
     (f_set s = SLock \<or> f_set s = SSwap \<longrightarrow> f_result s = None) \<and>
     (f_set s \<noteq> SLock \<and> f_set s \<noteq> SSwap \<longrightarrow> f_result s = Some v) \<and>
     (\<forall>i. f_wait s i = WUnlock \<or> f_wait s i = WRead \<longrightarrow> f_result s \<noteq> None) \<and>
     (\<forall>i. f_wait s i = WBlock \<longrightarrow> f_result s = None) \<and>
     (\<forall>i w. f_wait s i = WDone w \<longrightarrow> w = v \<and> f_result s \<noteq> None) \<and>
     (\<forall>i. f_set s = SDone \<longrightarrow> f_wait s i \<noteq> WSleep)"

lemma shared_init_inv: "shared_inv v shared_init"
  by (simp add: shared_inv_def shared_init_def)

lemma set_step_inv: "set_step v s s' \<Longrightarrow> shared_inv v s \<Longrightarrow> shared_inv v s'"
  by (erule set_stepE) (auto simp: shared_inv_def)

text \<open>A waiting thread's step keeps the invariant if its new place agrees with the mutex and the result.\<close>

lemma waiter_moves:
  assumes inv: "shared_inv v s"
    and other: "\<And>w. w \<noteq> Waiter i \<Longrightarrow> m = Some w \<longleftrightarrow> f_mutex s = Some w"
    and own: "m = Some (Waiter i) \<longleftrightarrow> pc \<in> {WTest, WBlock, WUnlock}"
    and res: "pc = WUnlock \<or> pc = WRead \<Longrightarrow> f_result s \<noteq> None"
    and fin: "\<And>w. pc = WDone w \<Longrightarrow> w = v \<and> f_result s \<noteq> None"
    and block: "pc = WBlock \<Longrightarrow> f_result s = None"
    and sleep: "pc = WSleep \<Longrightarrow> f_set s \<noteq> SDone"
  shows "shared_inv v (s\<lparr>f_wait := (f_wait s)(i := pc), f_mutex := m\<rparr>)"
proof -
  have setter: "m = Some Setter \<longleftrightarrow> f_mutex s = Some Setter" by (rule other) simp
  have waiters: "m = Some (Waiter j) \<longleftrightarrow> f_mutex s = Some (Waiter j)" if "j \<noteq> i" for j
    using that by (intro other) simp
  have "(m = Some (Waiter j)) = (((f_wait s)(i := pc)) j \<in> {WTest, WBlock, WUnlock})" for j
    using own waiters [of j] inv by (cases "j = i") (simp_all add: shared_inv_def)
  moreover have "f_set s = SDone \<Longrightarrow> pc \<noteq> WSleep" using sleep by blast
  ultimately show ?thesis
    using inv setter res fin block unfolding shared_inv_def by auto
qed

lemma wait_step_inv:
  assumes "wait_step i s s'" and inv: "shared_inv v s"
  shows "shared_inv v s'"
proof -
  have free: "f_mutex s \<noteq> Some (Waiter i)" if "f_wait s i \<notin> {WTest, WBlock, WUnlock}"
    using inv that by (simp add: shared_inv_def)
  have held: "f_mutex s = Some (Waiter i)" if "f_wait s i \<in> {WTest, WBlock, WUnlock}"
    using inv that by (simp add: shared_inv_def)
  have stay: "s\<lparr>f_wait := w\<rparr> = s\<lparr>f_wait := w, f_mutex := f_mutex s\<rparr>" for w by simp
  have res: "f_wait s i = WUnlock \<Longrightarrow> f_result s \<noteq> None" "f_set s = SDone \<Longrightarrow> f_result s \<noteq> None"
    "f_result s = Some w \<Longrightarrow> w = v" "f_wait s i = WBlock \<Longrightarrow> f_result s = None" for w
    using inv by (auto simp: shared_inv_def)
  from assms(1) show ?thesis
  proof (cases rule: wait_step.cases)
    case wait_call
    show ?thesis unfolding wait_call(1) goto_def
      by (subst stay, rule waiter_moves [OF inv]) (use wait_call free in simp_all)
  next
    case wait_lock
    have "shared_inv v (s\<lparr>f_wait := (f_wait s)(i := WTest), f_mutex := Some (Waiter i)\<rparr>)"
      by (rule waiter_moves [OF inv]) (use wait_lock in auto)
    then show ?thesis by (simp add: wait_lock(1) goto_def)
  next
    case wait_unready
    show ?thesis unfolding wait_unready(1) goto_def
      by (subst stay, rule waiter_moves [OF inv]) (use wait_unready held in auto)
  next
    case wait_sleep
    have "shared_inv v (s\<lparr>f_wait := (f_wait s)(i := WSleep), f_mutex := None\<rparr>)"
      by (rule waiter_moves [OF inv]) (use wait_sleep held res in auto)
    then show ?thesis by (simp add: wait_sleep(1) goto_def)
  next
    case wait_ready
    show ?thesis unfolding wait_ready(1) goto_def
      by (subst stay, rule waiter_moves [OF inv]) (use wait_ready held in auto)
  next
    case wait_spurious
    show ?thesis unfolding wait_spurious(1) goto_def
      by (subst stay, rule waiter_moves [OF inv]) (use wait_spurious free in simp_all)
  next
    case wait_unlock
    have "shared_inv v (s\<lparr>f_wait := (f_wait s)(i := WRead), f_mutex := None\<rparr>)"
      by (rule waiter_moves [OF inv]) (use wait_unlock held res in auto)
    then show ?thesis by (simp add: wait_unlock(1) goto_def)
  next
    case (wait_read w)
    show ?thesis unfolding wait_read(1) goto_def
      by (subst stay, rule waiter_moves [OF inv]) (use wait_read free res in auto)
  qed
qed

lemma shared_step_inv: "shared_step v s s' \<Longrightarrow> shared_inv v s \<Longrightarrow> shared_inv v s'"
  by (erule shared_stepE) (auto dest: set_step_inv wait_step_inv)

lemma shared_steps_inv: "shared_steps v s s' \<Longrightarrow> shared_inv v s \<Longrightarrow> shared_inv v s'"
  by (induction rule: rtranclp_induct) (auto dest: shared_step_inv)

section \<open>Waiting ends\<close>

text \<open>A thread that has called \<open>wait\<close> and not returned, and how it goes on by itself.\<close>

lemma wait_run:
  "f_wait s i = WLock \<Longrightarrow> f_mutex s = None \<Longrightarrow> f_result s = Some v \<Longrightarrow>
     \<exists>s'. shared_steps v s s' \<and> f_wait s' i = WDone v"
  "f_wait s i = WTest \<Longrightarrow> f_result s = Some v \<Longrightarrow>
     \<exists>s'. shared_steps v s s' \<and> f_wait s' i = WDone v \<and> f_mutex s' = None \<and> f_result s' = Some v \<and>
       f_set s' = f_set s \<and> (\<forall>j. j \<noteq> i \<longrightarrow> f_wait s' j = f_wait s j)"
  "f_wait s i = WUnlock \<Longrightarrow> f_result s = Some v \<Longrightarrow>
     \<exists>s'. shared_steps v s s' \<and> f_wait s' i = WDone v \<and> f_mutex s' = None \<and> f_result s' = Some v \<and>
       f_set s' = f_set s \<and> (\<forall>j. j \<noteq> i \<longrightarrow> f_wait s' j = f_wait s j)"
proof -
  have read: "shared_steps v s (goto i (WDone v) s)" if "f_wait s i = WRead" "f_result s = Some v" for s
    using of_waiter [OF wait_read [OF that]] by blast
  have unlock: "shared_steps v s (goto i (WDone v) ((goto i WRead s)\<lparr>f_mutex := None\<rparr>))"
    if "f_wait s i = WUnlock" "f_result s = Some v" for s
    using read [of "(goto i WRead s)\<lparr>f_mutex := None\<rparr>"] of_waiter [OF wait_unlock [OF that(1)], of v] that(2)
    by (simp add: goto_def converse_rtranclp_into_rtranclp)
  have test: "shared_steps v s (goto i (WDone v) ((goto i WRead (goto i WUnlock s))\<lparr>f_mutex := None\<rparr>))"
    if "f_wait s i = WTest" "f_result s = Some v" for s
    using unlock [of "goto i WUnlock s"] of_waiter [OF wait_ready [OF that(1)], of v] that(2)
    by (simp add: goto_def converse_rtranclp_into_rtranclp)
  have lock: "shared_step v s ((goto i WTest s)\<lparr>f_mutex := Some (Waiter i)\<rparr>)"
    if "f_wait s i = WLock" "f_mutex s = None" for s
    using of_waiter [OF wait_lock [OF that(1)], of v] that(2) by simp
  show "f_wait s i = WUnlock \<Longrightarrow> f_result s = Some v \<Longrightarrow>
     \<exists>s'. shared_steps v s s' \<and> f_wait s' i = WDone v \<and> f_mutex s' = None \<and> f_result s' = Some v \<and>
       f_set s' = f_set s \<and> (\<forall>j. j \<noteq> i \<longrightarrow> f_wait s' j = f_wait s j)"
    using unlock [of s] by (fastforce simp: goto_def)
  show t: "f_wait s i = WTest \<Longrightarrow> f_result s = Some v \<Longrightarrow>
     \<exists>s'. shared_steps v s s' \<and> f_wait s' i = WDone v \<and> f_mutex s' = None \<and> f_result s' = Some v \<and>
       f_set s' = f_set s \<and> (\<forall>j. j \<noteq> i \<longrightarrow> f_wait s' j = f_wait s j)"
    using test [of s] by (fastforce simp: goto_def)
  show "f_wait s i = WLock \<Longrightarrow> f_mutex s = None \<Longrightarrow> f_result s = Some v \<Longrightarrow>
     \<exists>s'. shared_steps v s s' \<and> f_wait s' i = WDone v"
    using lock [of s] test [of "(goto i WTest s)\<lparr>f_mutex := Some (Waiter i)\<rparr>"]
    by (auto simp: goto_def intro: converse_rtranclp_into_rtranclp)
qed

text \<open>Once everybody has been notified, the mutex comes free.\<close>

lemma mutex_comes_free:
  assumes "shared_inv v s" "f_set s = SDone" "f_wait s i = WLock"
  shows "\<exists>s'. shared_steps v s s' \<and> f_mutex s' = None \<and> f_result s' = Some v \<and> f_wait s' i = WLock"
proof (cases "f_mutex s")
  case None
  then show ?thesis using assms by (auto simp: shared_inv_def)
next
  case (Some w)
  then obtain j where j: "f_mutex s = Some (Waiter j)" using assms by (cases w) (auto simp: shared_inv_def)
  have res: "f_result s = Some v" using assms by (simp add: shared_inv_def)
  have "f_wait s j = WTest \<or> f_wait s j = WUnlock" "j \<noteq> i" using j assms by (auto simp: shared_inv_def)
  then show ?thesis using wait_run(2,3) [of s j v] res assms(3) by metis
qed

lemma waiter_returns:
  assumes inv: "shared_inv v s" and fin: "f_set s = SDone" and i: "f_wait s i \<noteq> WIdle"
  shows "\<exists>s'. shared_steps v s s' \<and> f_wait s' i = WDone v"
proof -
  have res: "f_result s = Some v" using inv fin by (simp add: shared_inv_def)
  have lock: ?thesis if "f_wait s i = WLock"
    using mutex_comes_free [OF inv fin that] wait_run(1) by (metis rtranclp_trans)
  show ?thesis
  proof (cases "f_wait s i")
    case WRead
    then have "shared_step v s (goto i (WDone v) s)" using of_waiter [OF wait_read [OF _ res]] by blast
    moreover have "f_wait (goto i (WDone v) s) i = WDone v" by (simp add: goto_def)
    ultimately show ?thesis by blast
  next
    case (WDone w)
    then show ?thesis using inv by (auto simp: shared_inv_def)
  qed (use lock i res wait_run(2,3) [of s i v] inv fin in \<open>auto simp: shared_inv_def\<close>)
qed

section \<open>Properties\<close>

text \<open>C9. Whatever the interleaving, a thread that returns from \<open>wait\<close> has the value that was set;
  when the setting thread is through, no thread sleeps, and each that has called \<open>wait\<close> can
  return with the value whatever the others have done.\<close>

theorem future_delivers:
  assumes "shared_steps v shared_init s"
  shows "(\<forall>i w. f_wait s i = WDone w \<longrightarrow> w = v) \<and>
    (f_set s = SDone \<longrightarrow> (\<forall>i. f_wait s i \<noteq> WSleep) \<and>
       (\<forall>i. f_wait s i \<noteq> WIdle \<longrightarrow> (\<exists>s'. shared_steps v s s' \<and> f_wait s' i = WDone v)))"
proof -
  have inv: "shared_inv v s" by (rule shared_steps_inv [OF assms shared_init_inv])
  then show ?thesis using waiter_returns [OF inv] by (auto simp: shared_inv_def)
qed

theorem future_delivers_witness:
  "\<exists>s. shared_steps (7::nat) shared_init s \<and> f_set s = SDone \<and> f_wait s 3 = WLock \<and>
     (\<exists>s'. shared_steps 7 s s' \<and> f_wait s' 3 = WDone 7)"
proof -
  let ?s1 = "(shared_init :: nat shared)\<lparr>f_set := SSwap, f_mutex := Some Setter\<rparr>"
  let ?s2 = "?s1\<lparr>f_set := SUnlock, f_result := Some 7\<rparr>"
  let ?s3 = "?s2\<lparr>f_set := SNotify, f_mutex := None\<rparr>"
  let ?s4 = "?s3\<lparr>f_set := SDone, f_wait := (\<lambda>i. if f_wait ?s3 i = WSleep then WLock else f_wait ?s3 i)\<rparr>"
  have "shared_step 7 shared_init ?s1" using of_setter [OF set_lock [of shared_init 7]] by (simp add: shared_init_def)
  moreover have "shared_step 7 ?s1 ?s2" using of_setter [OF set_swap [of ?s1 7]] by simp
  moreover have "shared_step 7 ?s2 ?s3" using of_setter [OF set_unlock [of ?s2 7]] by simp
  moreover have "shared_step 7 ?s3 ?s4" using of_setter [OF set_notify [of ?s3 7]] by (simp add: shared_init_def)
  moreover have "shared_step 7 ?s4 (goto 3 WLock ?s4)"
    by (intro of_waiter [of 3] wait_call) (simp add: shared_init_def)
  moreover define s5 where "s5 = goto 3 WLock ?s4"
  ultimately have r: "shared_steps 7 shared_init s5"
    by (meson rtranclp.rtrancl_refl rtranclp.rtrancl_into_rtrancl)
  have s5: "f_set s5 = SDone" "f_wait s5 3 = WLock" by (simp_all add: s5_def goto_def)
  have "\<exists>s'. shared_steps 7 s5 s' \<and> f_wait s' 3 = WDone 7"
    using future_delivers [OF r] s5 by simp
  then show ?thesis using r s5 by blast
qed

text \<open>\<open>wait_for\<close> with any duration that is in the past as a time of day returns at once with what
  is there.\<close>

lemma wait_for_expired: "sec < fst now \<Longrightarrow> wait_for now sec nanosec p later = isReady p"
  by (simp add: wait_for_def timedwait_def)

end
