(* ===== verification/Support.thy ===== *)
theory Support
  imports Prelude
begin

text \<open>
  The small files every part uses: \<open>base/clock.c\<close>, \<open>base/random.c\<close>, \<open>base/debug.c\<close>, and the timers
  of \<open>sensor_main.cpp\<close>. What the C library answers is a parameter.
\<close>

section \<open>Clock and timers\<close>

definition timespec_to_usec :: "u64 \<times> u64 \<Rightarrow> u64" where
  "timespec_to_usec time = fst time * 1000000 + snd time div 1000"

text \<open>\<open>rc\<close> and \<open>ts\<close> are the result of \<open>clock_gettime\<close>; it writes \<open>ts\<close> if \<open>rc\<close> is 0.\<close>

definition get_now_usec :: "int \<Rightarrow> u64 \<times> u64 \<Rightarrow> u64 result" where
  "get_now_usec rc ts =
     rbind (rassert (rc \<noteq> 0)) (\<lambda>_. if rc = 0 then Inr (timespec_to_usec ts) else Inl Uninitialised)"

record stimer =
  tm_last :: u64
  tm_period :: u64

definition timer_check :: "stimer \<Rightarrow> u64 \<Rightarrow> bool" where
  "timer_check t now \<longleftrightarrow> now - tm_last t > tm_period t"

definition timer_ping_r :: "stimer \<Rightarrow> u64 \<Rightarrow> stimer" where
  "timer_ping_r t now = t\<lparr>tm_last := now\<rparr>"

definition timer_ping :: "int \<Rightarrow> u64 \<times> u64 \<Rightarrow> stimer \<Rightarrow> stimer result" where
  "timer_ping rc ts t = rbind (get_now_usec rc ts) (\<lambda>now. Inr (timer_ping_r t now))"

section \<open>Random numbers\<close>

text \<open>\<open>rand\<close> gives numbers up to \<open>RAND_MAX = 2^31 - 1\<close>: \<open>r\<close> are those it gives next.\<close>

definition random_seed :: "u32 \<Rightarrow> int \<Rightarrow> u64 \<times> u64 \<Rightarrow> u32 result" where
  "random_seed pid rc ts = rbind (get_now_usec rc ts) (\<lambda>now. Inr (ucast (scast pid * now)))"

definition random_get16 :: "u32 \<Rightarrow> u16" where
  "random_get16 r = ucast r"

definition random_get32 :: "u32 \<Rightarrow> u32" where
  "random_get32 r = r"

definition random_get64 :: "u32 \<Rightarrow> u32 \<Rightarrow> u64" where
  "random_get64 r0 r1 = ucast r0 OR push_bit 32 (ucast r1)"

definition random_getbuf :: "(nat \<Rightarrow> u32) \<Rightarrow> byte list \<Rightarrow> byte list" where
  "random_getbuf r buf = map (\<lambda>i. ucast (r i)) [0..<length buf]"

section \<open>Debug output\<close>

definition debug_set_level :: "int \<Rightarrow> int" where
  "debug_set_level lvl = (if lvl > 3 then 3 else lvl)"

definition level_name :: "int \<Rightarrow> string" where
  "level_name level =
     (if level = 0 then ''ERROR'' else if level = 1 then ''WARNING'' else if level = 2 then ''NOTIFY''
      else ''INFO'')"

text \<open>
  \<open>debug\<close>: the time, the process and the message are put together in 512 bytes without a look
  at their length. The result is the line that is handed to \<open>printf\<close> as its format; \<open>stamp\<close>,
  \<open>pid\<close> and \<open>message\<close> are the formatted pieces.
\<close>

definition line_append :: "string \<Rightarrow> string \<Rightarrow> string result" where
  "line_append l s = (if length (l @ s) < 512 then Inr (l @ s) else Inl OutOfBounds)"

definition debug_line :: "int \<Rightarrow> string \<Rightarrow> string \<Rightarrow> int \<Rightarrow> string \<Rightarrow> string \<Rightarrow> string option result" where
  "debug_line rvr_debug stamp pid level function message =
     (if rvr_debug < level then Inr None
      else
        rbind (line_append [] stamp) (\<lambda>l.
        rbind (line_append l (''['' @ pid @ '','' @ function @ ''] '' @ level_name level @ '': '')) (\<lambda>l.
        rbind (line_append l message) (\<lambda>l. Inr (Some l)))))"

definition debug_append_line :: "int \<Rightarrow> int \<Rightarrow> string \<Rightarrow> string option result" where
  "debug_append_line rvr_debug level message =
     (if rvr_debug < level then Inr None else rbind (line_append [] message) (\<lambda>l. Inr (Some l)))"

section \<open>Properties\<close>

text \<open>The clock is never read: \<open>get_now_usec\<close> asserts that \<open>clock_gettime\<close> failed. It aborts
  when the time was read, and otherwise converts a time nobody wrote; so do the timer's ping
  and the seeding of the random numbers.\<close>

theorem clock_never_read:
  "get_now_usec rc ts = Inl (if rc = 0 then AssertFailed else Uninitialised) \<and>
   timer_ping rc ts t = Inl (if rc = 0 then AssertFailed else Uninitialised) \<and>
   random_seed pid rc ts = Inl (if rc = 0 then AssertFailed else Uninitialised)"
  by (simp add: get_now_usec_def timer_ping_def random_seed_def)

text \<open>A timer is due once more than its period has passed, also across the wrap-around of time.\<close>

lemma timer_due:
  "timer_check (timer_ping_r t now) (now + elapsed) \<longleftrightarrow> unat elapsed > unat (tm_period t)"
  by (simp add: timer_check_def timer_ping_r_def word_less_nat_alt)

text \<open>A 64-bit random number never has its bits 31 and 63 set.\<close>

lemma random_get64_bits:
  assumes "r0 < 2 ^ 31" "r1 < 2 ^ 31"
  shows "\<not> bit (random_get64 r0 r1) 31" "\<not> bit (random_get64 r0 r1) 63"
proof -
  have "\<not> bit r 31" if "r < 2 ^ 31" for r :: u32
  proof
    assume "bit r 31"
    then have "odd (drop_bit 31 r)" by (simp add: bit_iff_odd_drop_bit)
    moreover have "drop_bit 31 r = 0"
      using that by (simp add: drop_bit_eq_div word_unat_eq_iff unat_div word_less_nat_alt)
    ultimately show False by simp
  qed
  then show "\<not> bit (random_get64 r0 r1) 31" "\<not> bit (random_get64 r0 r1) 63"
    using assms bit_imp_le_length [of r0 63] by (auto simp: random_get64_def bit_simps)
qed

lemma debug_silent: "rvr_debug < level \<Longrightarrow> debug_line rvr_debug st pid level f m = Inr None"
  by (simp add: debug_line_def)

end
