(* ===== verification/SensorCore.thy ===== *)
theory SensorCore
  imports Support SocketUtils Reactor MessageQueue Arp Frontend
begin

text \<open>
  \<open>sensor_main.cpp\<close>, \<open>raw_packet_handler.cpp\<close> and \<open>traffic_capture.cpp\<close>: the sensor's
  configuration, its packet handle, its capture thread, and the main function that puts the
  parts together. The answers of libpcap are a parameter.
\<close>

section \<open>RawPacketHandler\<close>

datatype pcap_call = PcapBreak | PcapCreate | PcapPromisc bool | PcapBuffer nat | PcapDirection | PcapActivate | PcapClosed | PcapGeterr

record pcap =
  pc_created :: bool
  pc_promisc :: int
  pc_buffer :: int
  pc_direction :: int
  pc_activate :: int

record raw_handler =
  m_handle :: bool
  rh_calls :: "pcap_call list"

definition handler_new :: raw_handler where
  "handler_new = \<lparr>m_handle = False, rh_calls = []\<rparr>"

text \<open>A null handle crashes in the first call on it. On failure, \<open>pcap_geterr\<close> is called on the
  handle that has just been closed.\<close>

definition handler_init :: "pcap \<Rightarrow> nat \<Rightarrow> bool \<Rightarrow> raw_handler \<Rightarrow> raw_handler \<times> bool result" where
  "handler_init p bufferSize promiscuous h =
     (if \<not> pc_created p then (h\<lparr>rh_calls := rh_calls h @ [PcapCreate]\<rparr>, Inl NullDeref)
      else
        let success = (pc_promisc p = 0);
            calls = [PcapCreate, PcapPromisc promiscuous] @ (if success then [PcapBuffer bufferSize] else []);
            success = (success \<and> pc_buffer p = 0);
            calls = calls @ [PcapDirection] @ (if success then [PcapActivate] else []);
            success = (success \<and> pc_activate p = 0)
        in if success then (h\<lparr>m_handle := True, rh_calls := rh_calls h @ calls\<rparr>, Inr True)
           else (h\<lparr>rh_calls := rh_calls h @ calls @ [PcapClosed, PcapGeterr]\<rparr>, Inl UseAfterFree))"

definition isInitialized :: "raw_handler \<Rightarrow> bool" where
  "isInitialized h = m_handle h"

definition handler_close :: "raw_handler \<Rightarrow> raw_handler" where
  "handler_close h = (if isInitialized h then h\<lparr>rh_calls := rh_calls h @ [PcapClosed]\<rparr> else h)"

definition inject :: "raw_handler \<Rightarrow> int \<Rightarrow> int result" where
  "inject h res = (if m_handle h then Inr res else Inl NullDeref)"

definition handler_stop :: "raw_handler \<Rightarrow> raw_handler result" where
  "handler_stop h = (if m_handle h then Inr (h\<lparr>rh_calls := rh_calls h @ [PcapBreak]\<rparr>) else Inl NullDeref)"

text \<open>\<open>pcap_dispatch\<close> hands over the packets of one buffer, \<open>batch\<close>, and returns.\<close>

fun handler_start :: "('p \<Rightarrow> 'r result) \<Rightarrow> 'p list \<Rightarrow> 'r list result" where
  "handler_start callback [] = Inr []"
| "handler_start callback (p # batch) =
     rbind (callback p) (\<lambda>r. rbind (handler_start callback batch) (\<lambda>rs. Inr (r # rs)))"

section \<open>TrafficCapture\<close>

text \<open>A packet is its length on the wire and the bytes captured.\<close>

record capture =
  tc_active :: bool
  tc_hw :: hw_address

definition handle_packet_callback :: "capture \<Rightarrow> nat \<times> byte list \<Rightarrow> (u32 \<times> byte list) option result" where
  "handle_packet_callback t packet = (let (len, data) = packet in handlePacket (tc_hw t) len data)"

definition capture_start ::
  "capture \<Rightarrow> (nat \<times> byte list) list \<Rightarrow> 'c async \<Rightarrow> (capture \<times> (u32 \<times> byte list) option list \<times> 'c async) result" where
  "capture_start t batch queue =
     (let t = t\<lparr>tc_active := True\<rparr> in
      rbind (handler_start (handle_packet_callback t) batch) (\<lambda>replies.
        let t = t\<lparr>tc_active := False\<rparr> in Inr (t, replies, async_nullmsg queue)))"

definition capture_stop :: "raw_handler \<Rightarrow> raw_handler result" where
  "capture_stop rawHandler = handler_stop rawHandler"

definition isRunning :: "capture \<Rightarrow> bool" where
  "isRunning t = tc_active t"

section \<open>The sensor\<close>

definition SENSOR_SUCCESS :: int where "SENSOR_SUCCESS = 0"
definition SENSOR_ALREADY_ACTIVATED :: int where "SENSOR_ALREADY_ACTIVATED = 1"
definition SENSOR_CREATE_SOCKET :: int where "SENSOR_CREATE_SOCKET = 2"

datatype persist = EmptyPersist | Persist nat

record sensor =
  activated :: bool
  sn_sock :: int
  captureInterface :: "interface_info option"
  sn_opt :: "sensor_options option"
  persist_function :: persist

text \<open>The options are copied from a variable that was never written.\<close>

definition sensor_init :: sensor where
  "sensor_init = \<lparr>activated = False, sn_sock = 0, captureInterface = None, sn_opt = None,
     persist_function = EmptyPersist\<rparr>"

definition sensor_set_options :: "sensor \<Rightarrow> sensor_options \<Rightarrow> sensor \<times> int" where
  "sensor_set_options config options =
     (if activated config then (config, SENSOR_ALREADY_ACTIVATED)
      else (config\<lparr>sn_opt := Some options\<rparr>, SENSOR_SUCCESS))"

definition sensor_set_persist_callback :: "sensor \<Rightarrow> nat option \<Rightarrow> sensor \<times> int" where
  "sensor_set_persist_callback config callback =
     (if activated config then (config, SENSOR_ALREADY_ACTIVATED)
      else
        (case callback of
           Some f \<Rightarrow> (config\<lparr>persist_function := Persist f\<rparr>, SENSOR_SUCCESS)
         | None \<Rightarrow> (config\<lparr>persist_function := EmptyPersist\<rparr>, SENSOR_SUCCESS)))"

definition sensor_breakloop :: "sensor \<Rightarrow> sensor" where
  "sensor_breakloop config = config\<lparr>activated := False\<rparr>"

text \<open>A device name is an array of 16 characters, read up to its terminator.\<close>

definition device_string :: "string \<Rightarrow> string result" where
  "device_string name =
     (if CHR 0x00 \<in> set name then Inr (takeWhile (\<lambda>c. c \<noteq> CHR 0x00) name) else Inl OutOfBounds)"

definition opts_of :: "sensor \<Rightarrow> sensor_options result" where
  "opts_of config = (case sn_opt config of None \<Rightarrow> Inl Uninitialised | Some o' \<Rightarrow> Inr o')"

definition capture_interface :: "replies \<Rightarrow> interface_info \<Rightarrow> sensor \<Rightarrow> sensor result" where
  "capture_interface r info config =
     rbind (opts_of config) (\<lambda>opts.
     rbind (device_string (oc_device (so_capture opts))) (\<lambda>name.
     rbind (read_interface_info name r info) (\<lambda>(info, _).
       Inr (config\<lparr>captureInterface := Some info\<rparr>))))"

text \<open>
  \<open>commit_config\<close>: \<open>sock\<close> is what \<open>socket\<close> returned, \<open>promisc\<close> and \<open>put\<close> answer the flag
  requests, \<open>timeout_result\<close> the timeout's. The result of the binding is not looked at.
\<close>

definition commit_config ::
  "int \<Rightarrow> u16 option \<Rightarrow> (u16 \<Rightarrow> int) \<Rightarrow> int option \<Rightarrow> (int \<Rightarrow> int) \<Rightarrow> (int \<times> int \<Rightarrow> int) \<Rightarrow> replies \<Rightarrow> interface_info \<Rightarrow>
   sensor \<Rightarrow> (sensor \<times> int) result" where
  "commit_config sock promisc put ifindex bind setsockopt r info config =
     (let config = config\<lparr>sn_sock := sock\<rparr> in
      if sn_sock config = 0 then Inr (config, SENSOR_CREATE_SOCKET)
      else
        rbind (opts_of config) (\<lambda>opts.
        rbind (device_string (oc_device (so_capture opts))) (\<lambda>name.
        rbind (if oc_promiscuous (so_capture opts)
               then rbind (set_iface_promiscuous name True promisc put) (\<lambda>(res, _). Inr res)
               else Inr 0) (\<lambda>res.
        if res \<noteq> 0 then Inr (config, res)
        else
          rbind (bind_raw_socket_to_interface name ifindex bind) (\<lambda>_.
          let res = (if oc_timeout (so_capture opts) \<noteq> 0
                     then set_socket_timeout setsockopt (sint (oc_timeout (so_capture opts))) else 0) in
          if res \<noteq> 0 then Inr (config, res)
          else
            rbind (read_interface_info name r info) (\<lambda>(info, _).
              Inr (config\<lparr>captureInterface := Some info\<rparr>, 0)))))))"

text \<open>\<open>init_captured\<close> copies \<open>len\<close> bytes behind a new header.\<close>

record captured =
  cp_ts :: "u64 \<times> u64"
  cp_caplen :: u32
  cp_len :: u32
  cp_buffer :: "byte list"

definition init_captured :: "u64 \<times> u64 \<Rightarrow> byte list option \<Rightarrow> nat \<Rightarrow> captured result" where
  "init_captured ts buffer len =
     (case buffer of
        None \<Rightarrow> Inl AssertFailed
      | Some bs \<Rightarrow>
          rbind (mem_read bs 0 len) (\<lambda>content.
            Inr \<lparr>cp_ts = ts, cp_caplen = of_nat len, cp_len = of_nat len, cp_buffer = content\<rparr>))"

text \<open>\<open>sensor_notify\<close> prints its counter and returns the next value; the result is the counter, what is printed and what is returned.\<close>

definition sensor_notify :: "int \<Rightarrow> int \<times> int \<times> int" where
  "sensor_notify i = (let printed = i; i = i + 1 in (i, printed, i))"

section \<open>The main function\<close>

text \<open>
  The environment of a run: the replies about the interface, libpcap, how the service's socket calls
  end, what is done to the poluter's queue while the threads run, and what the callbacks do to the event loop, round by round.
\<close>

record world =
  wd_replies :: replies
  wd_pcap :: pcap
  wd_ntop :: "inet \<Rightarrow> string"
  wd_gai :: "string \<Rightarrow> byte list option"
  wd_addr6 :: reply
  wd_addr4 :: reply
  wd_answers :: answers
  wd_kernel :: kernel
  wd_poluter :: "nat mop list"
  wd_rounds :: "(event_loop \<Rightarrow> event_loop) list"

text \<open>The service is made for the device of the balancing options.\<close>

definition make_service :: "world \<Rightarrow> byte list \<Rightarrow> endpoint \<Rightarrow> sensor_options \<Rightarrow> service result" where
  "make_service w pad garbage opts =
     rbind (device_string (ob_device (so_balancing opts))) (\<lambda>device.
       snd (service_construct (wd_ntop w) (wd_gai w) device (wd_addr6 w) (wd_addr4 w) pad (wd_answers w) garbage (wd_kernel w)))"

datatype main_event = InterfaceRead | HandlerReady | ServiceReady | Activated | ThreadsStarted | LoopLeft | HandlerClosed

text \<open>\<open>Poluter::start\<close> is \<open>run\<close> of its queue. \<open>sensor_main\<close> sends it a null message and joins its thread:
  whether that ends.\<close>

definition poluter_start :: "nat mqueue \<Rightarrow> (nat mqueue, unit) blocking option" where
  "poluter_start q = mq_run q"

definition poluter_joined :: "nat mop list \<Rightarrow> bool" where
  "poluter_joined ops =
     (case poluter_start (mq_nullmsg (foldl mq_op mq_new ops)) of Some (Returned _ _) \<Rightarrow> True | _ \<Rightarrow> False)"

text \<open>The steps done, and the result; \<open>None\<close> where it does not return. The capture thread ends by itself.\<close>

definition sensor_main ::
  "world \<Rightarrow> interface_info \<Rightarrow> byte list \<Rightarrow> endpoint \<Rightarrow> sensor \<Rightarrow> main_event list \<times> (sensor \<times> int) result option" where
  "sensor_main w info pad garbage config =
     (case capture_interface (wd_replies w) info config of
        Inl e \<Rightarrow> ([], Some (Inl e))
      | Inr config \<Rightarrow>
          (case opts_of config of
             Inl e \<Rightarrow> ([InterfaceRead], Some (Inl e))
           | Inr opts \<Rightarrow>
               (case snd (handler_init (wd_pcap w) (unat (oc_buffersize (so_capture opts)))
                       (oc_promiscuous (so_capture opts)) handler_new) of
                  Inl e \<Rightarrow> ([InterfaceRead], Some (Inl e))
                | Inr _ \<Rightarrow>
                    (case make_service w pad garbage opts of
                       Inl e \<Rightarrow> ([InterfaceRead, HandlerReady], Some (Inl e))
                     | Inr _ \<Rightarrow>
                         let config = config\<lparr>activated := True\<rparr>;
                             run = [InterfaceRead, HandlerReady, ServiceReady, Activated, ThreadsStarted]
                         in if \<not> snd (service_start service_loop (wd_rounds w)) then (run, None)
                            else if \<not> poluter_joined (wd_poluter w) then (run @ [LoopLeft], None)
                            else (run @ [LoopLeft, HandlerClosed], Some (Inr (config, 0)))))))"

section \<open>Properties\<close>

lemma make_service_fails:
  assumes "a_socket (wd_answers w) \<notin> set (k_open (wd_kernel w))"
  shows "\<exists>e. make_service w pad garbage opts = Inl e \<and>
    (\<forall>device addr bs ep. device_string (ob_device (so_balancing opts)) = Inr device \<longrightarrow>
       currentAddress device (wd_addr6 w) (wd_addr4 w) pad = Inr addr \<longrightarrow>
       ia_family addr = AF_INET \<or> ia_family addr = AF_INET6 \<longrightarrow>
       wd_gai w (wd_ntop w addr) = Some bs \<longrightarrow> ep_sockaddr bs = Inr ep \<longrightarrow> e = Thrown ''fcntl'')"
proof (cases "device_string (ob_device (so_balancing opts))")
  case (Inr device)
  obtain e where "snd (service_construct (wd_ntop w) (wd_gai w) device (wd_addr6 w) (wd_addr4 w) pad (wd_answers w)
        garbage (wd_kernel w)) = Inl e"
    and "\<forall>addr. currentAddress device (wd_addr6 w) (wd_addr4 w) pad = Inr addr \<longrightarrow>
       (if ia_family addr = AF_INET \<or> ia_family addr = AF_INET6
        then \<forall>bs ep. wd_gai w (wd_ntop w addr) = Some bs \<longrightarrow> ep_sockaddr bs = Inr ep \<longrightarrow> e = Thrown ''fcntl''
        else e = Uninitialised)"
    using service_construct_fails [OF assms] by blast
  then show ?thesis using Inr by (auto simp: make_service_def)
qed (simp add: make_service_def)

text \<open>C27. The sensor never starts. With any options, any replies of the network interface and of
  libpcap, and any answer about the address to listen on, \<open>sensor_main\<close> ends in a fault or an
  exception before the configuration is activated and a thread is created; if all else goes
  well, it is the exception of the acceptor's \<open>fcntl\<close> on the descriptor it has closed.\<close>

theorem sensor_never_starts:
  assumes "a_socket (wd_answers w) \<notin> set (k_open (wd_kernel w))"
  shows "\<exists>e. snd (sensor_main w info pad garbage config) = Some (Inl e) \<and>
    Activated \<notin> set (fst (sensor_main w info pad garbage config)) \<and>
    (HandlerReady \<in> set (fst (sensor_main w info pad garbage config)) \<longrightarrow>
      (\<forall>opts device addr bs ep. sn_opt config = Some opts \<longrightarrow>
         device_string (ob_device (so_balancing opts)) = Inr device \<longrightarrow>
         currentAddress device (wd_addr6 w) (wd_addr4 w) pad = Inr addr \<longrightarrow>
         ia_family addr = AF_INET \<or> ia_family addr = AF_INET6 \<longrightarrow>
         wd_gai w (wd_ntop w addr) = Some bs \<longrightarrow> ep_sockaddr bs = Inr ep \<longrightarrow> e = Thrown ''fcntl''))"
proof (cases "capture_interface (wd_replies w) info config")
  case (Inr config')
  then have opt: "sn_opt config' = sn_opt config"
    by (auto simp: capture_interface_def rbind_eq_Inr_iff)
  show ?thesis
  proof (cases "sn_opt config")
    case (Some opts)
    show ?thesis
      using Inr opt Some make_service_fails [OF assms, of pad garbage opts]
      by (auto simp: sensor_main_def opts_of_def split: sum.splits)
  qed (use Inr opt in \<open>simp add: sensor_main_def opts_of_def\<close>)
qed (simp add: sensor_main_def)

definition device_eth0 :: string where
  "device_eth0 = strncpy 16 ''eth0''"

definition options_example :: sensor_options where
  "options_example = \<lparr>so_capture = \<lparr>oc_device = device_eth0, oc_promiscuous = True, oc_buffersize = 65536,
      oc_timeout = 5\<rparr>, so_persist = 10,
     so_nodes = \<lparr>os_survey = 10, os_initial = 10, os_disconnect = 60, os_redirect = True, os_modify = True,
       os_modify_timeout = 10\<rparr>,
     so_balancing = \<lparr>ob_device = device_eth0, ob_timeout = 10, ob_initial = 10, ob_info = 10, ob_session = 120,
       ob_count = 5, ob_interval = 10\<rparr>\<rparr>"

definition world_example :: world where
  "world_example =
     \<lparr>wd_replies = \<lparr>rp_hw = None, rp_addr4 = None, rp_mask4 = None, rp_route = Some (print_routes ''Iface'' routes_example), rp_addr6 = None, rp_mask6 = None\<rparr>,
      wd_pcap = \<lparr>pc_created = True, pc_promisc = 0, pc_buffer = 0, pc_direction = 0, pc_activate = 0\<rparr>,
      wd_ntop = (\<lambda>_. ''192.168.1.2''), wd_gai = (\<lambda>_. Some peer), wd_addr6 = None,
      wd_addr4 = Some (replicate 24 0), wd_answers = answers_ok\<lparr>a_gai := Some peer\<rparr>, wd_kernel = \<lparr>k_open = [0, 1, 2]\<rparr>,
      wd_poluter = [], wd_rounds = [service_stop]\<rparr>"

definition info_example :: interface_info where
  "info_example = \<lparr>ii_hw = replicate 6 0, ii_ip4 = \<lparr>ip_local = replicate 4 0, ip_netmask = replicate 4 0\<rparr>,
     ii_gateway4 = 0, ii_ip6 = \<lparr>ip_local = replicate 16 0, ip_netmask = replicate 16 0\<rparr>\<rparr>"

lemma routes_example_gateway: "\<exists>gw. read_default_gateway name (Some (print_routes ''Iface'' routes_example)) = Inr gw"
  using read_gateway_print [OF routes_example_ok, of "''Iface''" name] by simp

lemma device_eth0_string: "device_string device_eth0 = Inr ''eth0''"
  by (simp add: device_eth0_def strncpy_def device_string_def numeral_eq_Suc)

theorem sensor_never_starts_witness:
  "sensor_main world_example info_example [0, 0] [] (fst (sensor_set_options sensor_init options_example)) =
     ([InterfaceRead, HandlerReady], Some (Inl (Thrown ''fcntl'')))"
proof -
  let ?config = "fst (sensor_set_options sensor_init options_example)"
  let ?r = "sensor_main world_example info_example [0, 0] [] ?config"
  have sock: "a_socket (wd_answers world_example) \<notin> set (k_open (wd_kernel world_example))"
    by (simp add: world_example_def answers_ok_def)
  have opts: "sn_opt ?config = Some options_example" "device_string (ob_device (so_balancing options_example)) = Inr ''eth0''"
    by (simp_all add: sensor_set_options_def sensor_init_def options_example_def device_eth0_string)
  have "get_current_address AF_INET6 ''eth0'' None [] = Inr ([], False)"
    "get_current_address AF_INET ''eth0'' (Some (replicate 24 0)) [] = Inr (replicate 4 0, True)"
    by (simp_all add: get_current_address_def ifr_name_def ifr_address_def mem_read_def)
  then have addr: "currentAddress ''eth0'' (wd_addr6 world_example) (wd_addr4 world_example) [0, 0] =
      Inr (setAddr4 (inet_unspec [0, 0]) (replicate 4 0))"
    by (simp add: currentAddress_def world_example_def)
  have fam: "ia_family (setAddr4 (inet_unspec [0, 0]) (replicate 4 0)) = AF_INET" by (simp add: setAddr4_def)
  have gai: "wd_gai world_example (wd_ntop world_example a) = Some peer" for a by (simp add: world_example_def)
  obtain e where e: "snd ?r = Some (Inl e)" and hr: "HandlerReady \<in> set (fst ?r) \<longrightarrow> e = Thrown ''fcntl''"
    using sensor_never_starts [OF sock, of info_example "[0, 0]" "[]" ?config] opts addr fam gai peer_endpoint by blast
  obtain gw where "read_default_gateway ''eth0'' (Some (print_routes ''Iface'' routes_example)) = Inr gw"
    using routes_example_gateway by blast
  then have "\<exists>config. capture_interface (wd_replies world_example) info_example ?config = Inr config \<and> sn_opt config = Some options_example"
    by (simp add: capture_interface_def opts_of_def options_example_def device_eth0_string interface_info_unchecked
        world_example_def sensor_set_options_def sensor_init_def)
  then have "fst ?r = [InterfaceRead, HandlerReady]"
    using e by (auto simp: sensor_main_def opts_of_def handler_init_def world_example_def Let_def split: sum.splits if_splits)
  then show ?thesis using e hr by (metis list.set_intros(1,2) prod.collapse)
qed

text \<open>Nor would it end. Whatever the sockets answered and the threads did, \<open>sensor_main\<close> never returns a
  status: the null message meant for the poluter is not delivered, and its thread is never joined.\<close>

lemma poluter_never_joined: "\<not> poluter_joined ops"
  using mqueue_sleeps [of "ops @ [MNull]"] by (auto simp: poluter_joined_def poluter_start_def)

theorem sensor_never_ends:
  "snd (sensor_main w info pad garbage config) \<noteq> Some (Inr r) \<and> HandlerClosed \<notin> set (fst (sensor_main w info pad garbage config))"
  by (auto simp: sensor_main_def poluter_never_joined Let_def split: sum.splits)

text \<open>What can be done to a configuration from outside.\<close>

datatype config_op = SetOptions sensor_options | SetPersist "nat option"

fun config_run :: "config_op list \<Rightarrow> sensor \<Rightarrow> sensor \<times> int list" where
  "config_run [] c = (c, [])"
| "config_run (SetOptions opts # ops) c =
     (let (c, r) = sensor_set_options c opts; (c, rs) = config_run ops c in (c, r # rs))"
| "config_run (SetPersist f # ops) c =
     (let (c, r) = sensor_set_persist_callback c f; (c, rs) = config_run ops c in (c, r # rs))"

fun last_options :: "config_op list \<Rightarrow> sensor_options option \<Rightarrow> sensor_options option" where
  "last_options [] opts = opts"
| "last_options (SetOptions opts' # ops) opts = last_options ops (Some opts')"
| "last_options (SetPersist f # ops) opts = last_options ops opts"

fun last_persist :: "config_op list \<Rightarrow> persist \<Rightarrow> persist" where
  "last_persist [] p = p"
| "last_persist (SetOptions opts # ops) p = last_persist ops p"
| "last_persist (SetPersist f # ops) p = last_persist ops (case f of None \<Rightarrow> EmptyPersist | Some n \<Rightarrow> Persist n)"

text \<open>C39. The configuration is frozen while it is active: every call is refused and changes
  nothing. Before that every call succeeds, the last options and the last callback set are
  kept, and no callback means the empty one.\<close>

theorem config_frozen:
  "config_run ops c =
     (if activated c then (c, replicate (length ops) SENSOR_ALREADY_ACTIVATED)
      else (c\<lparr>sn_opt := last_options ops (sn_opt c), persist_function := last_persist ops (persist_function c)\<rparr>,
        replicate (length ops) SENSOR_SUCCESS))"
  by (induction ops c rule: config_run.induct)
    (auto simp: sensor_set_options_def sensor_set_persist_callback_def split: option.splits)

text \<open>\<open>RawPacketHandler::init\<close> has a handle exactly if libpcap created one and accepted the mode,
  the buffer size and the activation, whatever it said to the direction. Otherwise it never
  reports the failure it found: it uses the null handle, or the one it has just closed.\<close>

theorem handler_init_outcome:
  "snd (handler_init p size' promisc h) =
     (if \<not> pc_created p then Inl NullDeref
      else if pc_promisc p = 0 \<and> pc_buffer p = 0 \<and> pc_activate p = 0 then Inr True
      else Inl UseAfterFree) \<and>
   (isInitialized (fst (handler_init p size' promisc handler_new)) \<longleftrightarrow>
      snd (handler_init p size' promisc h) = Inr True) \<and>
   (snd (handler_init p size' promisc h) = Inl UseAfterFree \<longrightarrow>
      (\<exists>calls. rh_calls (fst (handler_init p size' promisc h)) = rh_calls h @ calls @ [PcapClosed, PcapGeterr]))"
  by (simp add: handler_init_def isInitialized_def handler_new_def Let_def)

lemma handler_start_total:
  "(\<And>p. p \<in> set batch \<Longrightarrow> \<exists>r. f p = Inr r) \<Longrightarrow> \<exists>rs. handler_start f batch = Inr rs \<and> map f batch = map Inr rs"
proof (induction batch)
  case (Cons p batch)
  then obtain r rs where "f p = Inr r" "handler_start f batch = Inr rs" "map f batch = map Inr rs" by fastforce
  then show ?case by auto
qed simp

text \<open>The capture thread ends after one buffer of packets. Each packet of it that was captured
  whole is handled, the thread is no longer running, and the null message it leaves behind is
  queued without a signal to the event loop.\<close>

theorem capture_ends:
  assumes "\<forall>(len, data)\<in>set batch. len = length data"
  shows "\<exists>replies. capture_start t batch queue = Inr (t\<lparr>tc_active := False\<rparr>, replies, async_nullmsg queue) \<and>
    map (\<lambda>(len, data). handlePacket (tc_hw t) len data) batch = map Inr replies \<and>
    \<not> isRunning (t\<lparr>tc_active := False\<rparr>) \<and> aq_calls (async_nullmsg queue) = aq_calls queue"
proof -
  let ?f = "\<lambda>(len, data). handlePacket (tc_hw t) len data"
  have cb: "handle_packet_callback (t\<lparr>tc_active := True\<rparr>) = ?f"
    by (simp add: handle_packet_callback_def fun_eq_iff)
  have "\<exists>r. ?f p = Inr r" if "p \<in> set batch" for p
  proof -
    obtain len data where p: "p = (len, data)" by (cases p)
    have "len = length data" using bspec [OF assms that] by (simp add: p)
    then have "len < ARP_IP4_SIZE \<or> 38 \<le> length data" by linarith
    then show ?thesis using arp_is_reply_safe [of len data] p by (simp add: handlePacket_def)
  qed
  from handler_start_total [of batch ?f, OF this] obtain rs
    where "handler_start ?f batch = Inr rs" "map ?f batch = map Inr rs" by blast
  then show ?thesis
    by (auto simp: capture_start_def cb isRunning_def async_nullmsg_def Let_def case_prod_beta)
qed

theorem capture_ends_witness:
  "\<exists>replies. capture_start \<lparr>tc_active = False, tc_hw = hw_zero\<rparr> [(2, [1, 2]), (0, [])] (async_new :: nat async) =
     Inr (\<lparr>tc_active = False, tc_hw = hw_zero\<rparr>, replies, async_nullmsg async_new) \<and> length replies = 2"
proof -
  obtain replies where
    "capture_start \<lparr>tc_active = False, tc_hw = hw_zero\<rparr> [(2, [1, 2]), (0, [])] (async_new :: nat async) =
       Inr (\<lparr>tc_active = False, tc_hw = hw_zero\<rparr>, replies, async_nullmsg async_new)"
    and m: "map (\<lambda>(len, data). handlePacket hw_zero len data) [(2, [1, 2]), (0, [])] = map Inr replies"
    using capture_ends [of "[(2, [1, 2]), (0, [])]" "\<lparr>tc_active = False, tc_hw = hw_zero\<rparr>" "async_new :: nat async"]
    by auto
  moreover have "length replies = 2" using arg_cong [OF m, of length] by simp
  ultimately show ?thesis by blast
qed

text \<open>A raw socket that could not be made goes unnoticed: only descriptor 0 counts as an error.\<close>

lemma commit_ignores_socket:
  assumes "sn_opt config = Some opts" "device_string (oc_device (so_capture opts)) = Inr name" "length name < 16"
    "\<not> oc_promiscuous (so_capture opts)" "oc_timeout (so_capture opts) = 0"
    "read_interface_info name r info = Inr (info', b)"
  shows "commit_config (- 1) promisc put ifindex bind setsockopt r info config =
    Inr (config\<lparr>sn_sock := - 1, captureInterface := Some info'\<rparr>, 0)"
  using assms
  by (auto simp: commit_config_def opts_of_def bind_raw_socket_to_interface_def ifr_name_def Let_def split: option.splits)

lemma captured_copy: "len \<le> length bs \<Longrightarrow> len < 2 ^ 32 \<Longrightarrow>
   \<exists>c. init_captured ts (Some bs) len = Inr c \<and> unat (cp_caplen c) = len \<and> cp_buffer c = take len bs"
  by (simp add: init_captured_def mem_read_def unat_of_nat take_bit_nat_eq_self)

end
