(* ===== verification/Request.thy ===== *)
theory Request
  imports AsyncQueue
begin

text \<open>
  \<open>msgqueue/cmd\<close> behind \<open>AsyncQueue::request\<close>: who owns a command, its promise, the \<open>State\<close> that
  promise and futures share, and the \<open>Result\<close> in it, and when each is deleted. Objects are
  entries of a heap, one address space for each class; following a pointer to an entry that is
  gone is a fault. Waiting across threads is in \<open>Future\<close>; here \<open>get\<close> says whether it waits.
\<close>

section \<open>Arguments\<close>

text \<open>The indices of an argument pack, and a call with the elements of the tuple they name.\<close>

fun make_indices_impl :: "nat \<Rightarrow> nat list \<Rightarrow> 'a list \<Rightarrow> nat list" where
  "make_indices_impl N Indices (Type # Types) = make_indices_impl (N + 1) (Indices @ [N]) Types"
| "make_indices_impl N Indices [] = Indices"

definition make_indices :: "'a list \<Rightarrow> nat list" where
  "make_indices Types = make_indices_impl 0 [] Types"

definition functor_expand :: "('a list \<Rightarrow> 'b) \<Rightarrow> 'a list \<Rightarrow> 'b" where
  "functor_expand func args = func (map (\<lambda>i. args ! i) (make_indices args))"

lemma make_indices_impl_eq: "make_indices_impl n is ts = is @ [n..<n + length ts]"
  by (induction n "is" ts rule: make_indices_impl.induct) (simp_all add: upt_rec)

lemma functor_expand_eq [simp]: "functor_expand func args = func args"
  by (simp add: functor_expand_def make_indices_def make_indices_impl_eq map_nth)

section \<open>Results and states\<close>

text \<open>A \<open>Result\<close> is raw storage with a flag: \<open>Some None\<close> is an object that holds no value yet. A
  \<open>State\<close> has the count of the \<open>shared_ptr\<close>s to it.\<close>

record state_obj =
  st_refs :: nat
  st_result :: "nat option"

record 'v heap =
  rs_obj :: "nat \<Rightarrow> 'v option option"
  st_obj :: "nat \<Rightarrow> state_obj option"

definition heap_empty :: "'v heap" where
  "heap_empty = \<lparr>rs_obj = (\<lambda>_. None), st_obj = (\<lambda>_. None)\<rparr>"

text \<open>\<open>new\<close> answers with the address \<open>a\<close>.\<close>

definition result_new :: "nat \<Rightarrow> 'v heap \<Rightarrow> 'v heap" where
  "result_new a h = h\<lparr>rs_obj := (rs_obj h)(a := Some None)\<rparr>"

definition result_delete :: "'v heap \<Rightarrow> nat \<Rightarrow> 'v heap result" where
  "result_delete h r =
     (case rs_obj h r of None \<Rightarrow> Inl UseAfterFree | Some _ \<Rightarrow> Inr (h\<lparr>rs_obj := (rs_obj h)(r := None)\<rparr>))"

definition result_set :: "'v heap \<Rightarrow> nat \<Rightarrow> 'v \<Rightarrow> 'v heap result" where
  "result_set h r v =
     (case rs_obj h r of None \<Rightarrow> Inl UseAfterFree
      | Some _ \<Rightarrow> Inr (h\<lparr>rs_obj := (rs_obj h)(r := Some (Some v))\<rparr>))"

definition result_value :: "'v heap \<Rightarrow> nat \<Rightarrow> 'v result" where
  "result_value h r =
     (case rs_obj h r of None \<Rightarrow> Inl UseAfterFree | Some None \<Rightarrow> Inl Uninitialised | Some (Some v) \<Rightarrow> Inr v)"

text \<open>A \<open>unique_ptr\<close> deletes what it holds.\<close>

definition unique_reset :: "'v heap \<Rightarrow> nat option \<Rightarrow> 'v heap result" where
  "unique_reset h p = (case p of None \<Rightarrow> Inr h | Some r \<Rightarrow> result_delete h r)"

definition make_state :: "nat \<Rightarrow> 'v heap \<Rightarrow> 'v heap" where
  "make_state a h = h\<lparr>st_obj := (st_obj h)(a := Some \<lparr>st_refs = 1, st_result = None\<rparr>)\<rparr>"

definition with_state :: "'v heap \<Rightarrow> nat option \<Rightarrow> (nat \<Rightarrow> state_obj \<Rightarrow> 'b result) \<Rightarrow> 'b result" where
  "with_state h p f =
     (case p of None \<Rightarrow> Inl NullDeref
      | Some s \<Rightarrow> (case st_obj h s of None \<Rightarrow> Inl UseAfterFree | Some ob \<Rightarrow> f s ob))"

definition put_state :: "'v heap \<Rightarrow> nat \<Rightarrow> state_obj option \<Rightarrow> 'v heap" where
  "put_state h s ob = h\<lparr>st_obj := (st_obj h)(s := ob)\<rparr>"

text \<open>Copying and destroying a \<open>shared_ptr\<close>; the last one destroys the state and its result.\<close>

definition shared_copy :: "'v heap \<Rightarrow> nat option \<Rightarrow> 'v heap result" where
  "shared_copy h p =
     (if p = None then Inr h
      else with_state h p (\<lambda>s ob. Inr (put_state h s (Some (ob\<lparr>st_refs := Suc (st_refs ob)\<rparr>)))))"

definition shared_release :: "'v heap \<Rightarrow> nat option \<Rightarrow> 'v heap result" where
  "shared_release h p =
     (if p = None then Inr h
      else with_state h p (\<lambda>s ob.
        if st_refs ob = 1 then unique_reset (put_state h s None) (st_result ob)
        else Inr (put_state h s (Some (ob\<lparr>st_refs := st_refs ob - 1\<rparr>)))))"

text \<open>\<open>set_result\<close> swaps the new result in and deletes the old one; \<open>wait\<close> returns the result when
  there is one, and \<open>None\<close> where it waits.\<close>

definition state_set_result :: "'v heap \<Rightarrow> nat option \<Rightarrow> nat option \<Rightarrow> 'v heap result" where
  "state_set_result h p r =
     with_state h p (\<lambda>s ob. unique_reset (put_state h s (Some (ob\<lparr>st_result := r\<rparr>))) (st_result ob))"

definition state_wait :: "'v heap \<Rightarrow> nat option \<Rightarrow> nat option result" where
  "state_wait h p = with_state h p (\<lambda>s ob. Inr (st_result ob))"

section \<open>Promise, future and command\<close>

record promise =
  pm_state :: "nat option"
  pm_storage :: "nat option"

definition promise_new :: "nat \<Rightarrow> 'v heap \<Rightarrow> 'v heap \<times> promise" where
  "promise_new a h = (result_new a (make_state a h), \<lparr>pm_state = Some a, pm_storage = Some a\<rparr>)"

text \<open>A future is its \<open>shared_ptr\<close>.\<close>

definition get_future :: "'v heap \<Rightarrow> promise \<Rightarrow> ('v heap \<times> nat option) result" where
  "get_future h p = rbind (shared_copy h (pm_state p)) (\<lambda>h. Inr (h, pm_state p))"

definition set_value :: "'v heap \<Rightarrow> promise \<Rightarrow> 'v \<Rightarrow> ('v heap \<times> promise) result" where
  "set_value h p v =
     (case pm_storage p of None \<Rightarrow> Inl NullDeref
      | Some r \<Rightarrow>
          rbind (result_set h r v) (\<lambda>h.
          rbind (state_set_result h (pm_state p) (Some r)) (\<lambda>h. Inr (h, p\<lparr>pm_storage := None\<rparr>))))"

definition promise_destroy :: "'v heap \<Rightarrow> promise \<Rightarrow> 'v heap result" where
  "promise_destroy h p = rbind (unique_reset h (pm_storage p)) (\<lambda>h. shared_release h (pm_state p))"

text \<open>\<open>get\<close> moves the value out of the result, where it leaves \<open>moved v\<close>.\<close>

definition future_get :: "('v \<Rightarrow> 'v) \<Rightarrow> 'v heap \<Rightarrow> nat option \<Rightarrow> ('v heap \<times> 'v option) result" where
  "future_get moved h f =
     rbind (state_wait h f) (\<lambda>res.
       case res of None \<Rightarrow> Inr (h, None)
       | Some r \<Rightarrow> rbind (result_value h r) (\<lambda>v. rbind (result_set h r (moved v)) (\<lambda>h. Inr (h, Some v))))"

text \<open>\<open>promise<void>\<close> and \<open>future<void>\<close>: the result is an object without a value, and its being there says
  that the function was called. \<open>set_value\<close> releases it without a look whether it is there; \<open>get\<close>
  returns (\<open>True\<close>) or waits.\<close>

definition void_set_value :: "'v heap \<Rightarrow> promise \<Rightarrow> ('v heap \<times> promise) result" where
  "void_set_value h p =
     (let tmp = pm_storage p; p = p\<lparr>pm_storage := None\<rparr> in
      rbind (state_set_result h (pm_state p) tmp) (\<lambda>h. Inr (h, p)))"

definition void_get :: "'v heap \<Rightarrow> nat option \<Rightarrow> bool result" where
  "void_get h f = rbind (state_wait h f) (\<lambda>res. Inr (res \<noteq> None))"

definition void_apply :: "'v heap \<Rightarrow> promise \<Rightarrow> ('a list \<Rightarrow> unit result) \<Rightarrow> 'a list \<Rightarrow> ('v heap \<times> promise) result" where
  "void_apply h p f args = rbind (functor_expand f args) (\<lambda>_. void_set_value h p)"

text \<open>The life of a request for a function without a value: its future waits until the call, returns
  from then on, also when the promise is gone, and leaves nothing behind.\<close>

lemma void_request_life:
  assumes fresh: "rs_obj h a = None" "st_obj h a = None" and call: "f args = Inr ()"
  shows "\<exists>h1 p h2 h3 q h4. promise_new a h = (h1, p) \<and> get_future h1 p = Inr (h2, Some a) \<and>
    void_get h2 (Some a) = Inr False \<and> void_apply h2 p f args = Inr (h3, q) \<and> void_get h3 (Some a) = Inr True \<and>
    promise_destroy h3 q = Inr h4 \<and> void_get h4 (Some a) = Inr True \<and> shared_release h4 (Some a) = Inr h"
  using assms
  by (simp add: promise_new_def make_state_def result_new_def get_future_def shared_copy_def with_state_def
      put_state_def void_get_def state_wait_def void_apply_def void_set_value_def state_set_result_def
      unique_reset_def promise_destroy_def shared_release_def result_delete_def Let_def fun_upd_idem)

text \<open>A promise without a value that is set again takes its result away, and a \<open>get\<close> then waits.\<close>

lemma void_set_again:
  assumes "void_set_value h p = Inr (h', q)" "void_set_value h' q = Inr (h'', r)"
  shows "void_get h'' (pm_state p) = Inr False"
  using assms
  by (auto simp: void_set_value_def state_set_result_def with_state_def put_state_def unique_reset_def
      result_delete_def void_get_def state_wait_def Let_def rbind_eq_Inr_iff split: option.splits if_splits)

text \<open>\<open>Command\<close> drops the value of its function; \<open>RequestCommand\<close> has a promise for it, and
  \<open>PromiseApplier\<close> puts it there. Deleting a command destroys its promise.\<close>

record ('a, 'v) command =
  cm_caller :: "'a list \<Rightarrow> 'v result"
  cm_argument :: "'a list"
  cm_prms :: "promise option"

definition plain_call :: "('a list \<Rightarrow> 'v result) \<Rightarrow> 'a list \<Rightarrow> unit result" where
  "plain_call caller argument = rbind (functor_expand caller argument) (\<lambda>_. Inr ())"

definition apply_promise ::
  "'v heap \<Rightarrow> promise \<Rightarrow> ('a list \<Rightarrow> 'v result) \<Rightarrow> 'a list \<Rightarrow> ('v heap \<times> promise) result" where
  "apply_promise h p f args = rbind (functor_expand f args) (\<lambda>v. set_value h p v)"

definition command_call :: "'v heap \<Rightarrow> ('a, 'v) command \<Rightarrow> ('v heap \<times> ('a, 'v) command) result" where
  "command_call h c =
     (case cm_prms c of
        None \<Rightarrow> rbind (plain_call (cm_caller c) (cm_argument c)) (\<lambda>_. Inr (h, c))
      | Some p \<Rightarrow>
          rbind (apply_promise h p (cm_caller c) (cm_argument c)) (\<lambda>(h, p). Inr (h, c\<lparr>cm_prms := Some p\<rparr>)))"

definition command_delete :: "'v heap \<Rightarrow> ('a, 'v) command \<Rightarrow> 'v heap result" where
  "command_delete h c = (case cm_prms c of None \<Rightarrow> Inr h | Some p \<Rightarrow> promise_destroy h p)"

section \<open>Requests through a queue\<close>

text \<open>The queue hands out addresses of commands, which are numbered as they are made; what a command
  allocates is at addresses with its number. \<open>rq_futs\<close> are the client's futures, the one a
  request returned under the request's number; \<open>rq_log\<close> and \<open>rq_got\<close> record the functions
  requested and the states a \<open>get\<close> has returned from.\<close>

record ('a, 'v) requests =
  rq_queue :: "nat async"
  rq_heap :: "'v heap"
  rq_cmds :: "nat \<Rightarrow> ('a, 'v) command option"
  rq_next :: nat
  rq_futs :: "nat \<Rightarrow> nat option"
  rq_log :: "'v result list"
  rq_got :: "nat list"

definition requests_new :: "nat async \<Rightarrow> ('a, 'v) requests" where
  "requests_new q = \<lparr>rq_queue = q, rq_heap = heap_empty, rq_cmds = (\<lambda>_. None), rq_next = 0,
     rq_futs = (\<lambda>_. None), rq_log = [], rq_got = []\<rparr>"

definition request :: "('a list \<Rightarrow> 'v result) \<Rightarrow> 'a list \<Rightarrow> ('a, 'v) requests \<Rightarrow> ('a, 'v) requests result" where
  "request func arg s =
     (let mes = rq_next s;
          (h, p) = promise_new mes (rq_heap s);
          cmd = \<lparr>cm_caller = func, cm_argument = arg, cm_prms = Some p\<rparr>
      in rbind (get_future h p) (\<lambda>(h, future).
         rbind (async_send (rq_queue s) mes) (\<lambda>q.
           Inr (s\<lparr>rq_queue := q, rq_heap := h, rq_cmds := (rq_cmds s)(mes := Some cmd), rq_next := Suc mes,
                  rq_futs := (rq_futs s)(mes := future), rq_log := rq_log s @ [func arg]\<rparr>))))"

definition send :: "('a list \<Rightarrow> 'v result) \<Rightarrow> 'a list \<Rightarrow> ('a, 'v) requests \<Rightarrow> ('a, 'v) requests result" where
  "send func arg s =
     (let mes = rq_next s;
          cmd = \<lparr>cm_caller = func, cm_argument = arg, cm_prms = None\<rparr>
      in rbind (async_send (rq_queue s) mes) (\<lambda>q.
           Inr (s\<lparr>rq_queue := q, rq_cmds := (rq_cmds s)(mes := Some cmd), rq_next := Suc mes,
                  rq_log := rq_log s @ [func arg]\<rparr>)))"

text \<open>\<open>receive\<close>, for the command the queue has handed out: it is called and deleted.\<close>

definition run_command :: "nat \<Rightarrow> ('a, 'v) requests \<Rightarrow> ('a, 'v) requests result" where
  "run_command c s =
     (case rq_cmds s c of None \<Rightarrow> Inl UseAfterFree
      | Some cmd \<Rightarrow>
          rbind (command_call (rq_heap s) cmd) (\<lambda>(h, cmd).
          rbind (command_delete h cmd) (\<lambda>h.
            Inr (s\<lparr>rq_heap := h, rq_cmds := (rq_cmds s)(c := None)\<rparr>))))"

definition request_callback :: "('a, 'v) requests \<Rightarrow> ('a, 'v) requests result" where
  "request_callback s =
     (let (q, ok) = async_receive (rq_queue s) in
      if ok then run_command (last (aq_ran q)) (s\<lparr>rq_queue := q\<rparr>)
      else rbind (async_stop q) (\<lambda>q. Inr (s\<lparr>rq_queue := q\<rparr>)))"

text \<open>\<open>future = std::move(other)\<close>: the old state of \<open>i\<close> goes away with the temporary.\<close>

definition future_assign :: "nat \<Rightarrow> nat \<Rightarrow> ('a, 'v) requests \<Rightarrow> ('a, 'v) requests result" where
  "future_assign i j s =
     (let tmp = rq_futs s j;
          futs = (rq_futs s)(j := None);
          old = futs i;
          futs = futs(i := tmp)
      in rbind (shared_release (rq_heap s) old) (\<lambda>h. Inr (s\<lparr>rq_heap := h, rq_futs := futs\<rparr>)))"

definition future_destroy :: "nat \<Rightarrow> ('a, 'v) requests \<Rightarrow> ('a, 'v) requests result" where
  "future_destroy i s =
     rbind (shared_release (rq_heap s) (rq_futs s i)) (\<lambda>h.
       Inr (s\<lparr>rq_heap := h, rq_futs := (rq_futs s)(i := None)\<rparr>))"

datatype ('a, 'v) rop =
    RRequest "'a list \<Rightarrow> 'v result" "'a list"
  | RSend "'a list \<Rightarrow> 'v result" "'a list"
  | RNull
  | RCallback
  | RGet nat
  | RAssign nat nat
  | RDestroy nat

datatype 'v reply = Quiet | Waits | Value 'v

fun rq_op :: "('v \<Rightarrow> 'v) \<Rightarrow> ('a, 'v) requests \<Rightarrow> ('a, 'v) rop \<Rightarrow> (('a, 'v) requests \<times> 'v reply) result" where
  "rq_op moved s (RRequest func arg) = rbind (request func arg s) (\<lambda>s. Inr (s, Quiet))"
| "rq_op moved s (RSend func arg) = rbind (send func arg s) (\<lambda>s. Inr (s, Quiet))"
| "rq_op moved s RNull = Inr (s\<lparr>rq_queue := async_nullmsg (rq_queue s)\<rparr>, Quiet)"
| "rq_op moved s RCallback = rbind (request_callback s) (\<lambda>s. Inr (s, Quiet))"
| "rq_op moved s (RGet i) =
     rbind (future_get moved (rq_heap s) (rq_futs s i)) (\<lambda>(h, v).
       Inr (case v of None \<Rightarrow> (s\<lparr>rq_heap := h\<rparr>, Waits)
                    | Some v \<Rightarrow> (s\<lparr>rq_heap := h, rq_got := the (rq_futs s i) # rq_got s\<rparr>, Value v)))"
| "rq_op moved s (RAssign i j) = rbind (future_assign i j s) (\<lambda>s. Inr (s, Quiet))"
| "rq_op moved s (RDestroy i) = rbind (future_destroy i s) (\<lambda>s. Inr (s, Quiet))"

text \<open>What a client may do: functions that do not throw, and no \<open>get\<close> on a future that was moved
  from or destroyed, nor an assignment to a future that no request has returned.\<close>

fun rq_allowed :: "('a, 'v) requests \<Rightarrow> ('a, 'v) rop \<Rightarrow> bool" where
  "rq_allowed s (RRequest func arg) = (case func arg of Inl _ \<Rightarrow> False | Inr _ \<Rightarrow> True)"
| "rq_allowed s (RSend func arg) = (case func arg of Inl _ \<Rightarrow> False | Inr _ \<Rightarrow> True)"
| "rq_allowed s (RGet i) = (rq_futs s i \<noteq> None)"
| "rq_allowed s (RAssign i j) = (i < rq_next s)"
| "rq_allowed s x = True"

inductive rq_reach :: "('v \<Rightarrow> 'v) \<Rightarrow> ('a, 'v) requests \<Rightarrow> bool" for moved where
  reach_start: "async_start async_new l = Inr q \<Longrightarrow> rq_reach moved (requests_new q)"
| reach_op: "rq_reach moved s \<Longrightarrow> rq_allowed s x \<Longrightarrow> rq_op moved s x = Inr (s', r) \<Longrightarrow> rq_reach moved s'"

section \<open>Ownership\<close>

text \<open>How many futures share a state.\<close>

definition refs :: "(nat \<Rightarrow> nat option) \<Rightarrow> nat \<Rightarrow> nat" where
  "refs f n = card {i. f i = Some n}"

abbreviation one_if :: "bool \<Rightarrow> nat" where
  "one_if b \<equiv> (if b then 1 else 0)"

lemma refs_upd:
  assumes "finite {i. f i = Some n}"
  shows "refs (f(i := x)) n + one_if (f i = Some n) = refs f n + one_if (x = Some n)"
proof -
  have "{j. (f(i := x)) j = Some n} = (if x = Some n then insert i else id) ({j. f j = Some n} - {i})"
    by auto
  then show ?thesis
    using assms card_Suc_Diff1 [OF assms, of i] by (auto simp: refs_def card_insert_if)
qed

text \<open>What belongs to command \<open>n\<close>: nothing, if it was sent; for a request, while the command is in the queue, its promise owns the
  empty result, and the state is held by it and the futures; then the state owns the result, and
  lives as long as a future holds it.\<close>

definition cell :: "('v \<Rightarrow> 'v) \<Rightarrow> 'v heap \<Rightarrow> ('a, 'v) command option \<Rightarrow> 'v result \<Rightarrow> nat \<Rightarrow> nat \<Rightarrow> nat \<Rightarrow> bool" where
  "cell moved h c answer got k n \<longleftrightarrow>
     (case c of
        Some c \<Rightarrow> cm_caller c (cm_argument c) = answer \<and> \<not> isl answer \<and> got = 0 \<and>
          (if cm_prms c = None then k = 0 \<and> rs_obj h n = None \<and> st_obj h n = None
           else cm_prms c = Some \<lparr>pm_state = Some n, pm_storage = Some n\<rparr> \<and>
             rs_obj h n = Some None \<and> st_obj h n = Some \<lparr>st_refs = Suc k, st_result = None\<rparr>)
      | None \<Rightarrow>
          if k = 0 then rs_obj h n = None \<and> st_obj h n = None
          else \<not> isl answer \<and> rs_obj h n = Some (Some ((moved ^^ got) (projr answer))) \<and>
            st_obj h n = Some \<lparr>st_refs = k, st_result = Some n\<rparr>)"

lemma cell_heap:
  "rs_obj h' n = rs_obj h n \<Longrightarrow> st_obj h' n = st_obj h n \<Longrightarrow> cell moved h' c a g k n = cell moved h c a g k n"
  by (cases c) (simp_all add: cell_def)

definition cells ::
  "('v \<Rightarrow> 'v) \<Rightarrow> 'v heap \<Rightarrow> (nat \<Rightarrow> ('a, 'v) command option) \<Rightarrow> 'v result list \<Rightarrow> nat list \<Rightarrow> (nat \<Rightarrow> nat) \<Rightarrow> bool" where
  "cells moved h cmds log got k \<longleftrightarrow>
     set got \<subseteq> {..<length log} \<and>
     (\<forall>n. cell moved h (cmds n) (log ! n) (count_list got n) (k n) n) \<and>
     (\<forall>n \<ge> length log. cmds n = None \<and> k n = 0)"

lemma cellsD:
  assumes "cells moved h cmds log got k"
  shows "cell moved h (cmds n) (log ! n) (count_list got n) (k n) n"
  using assms by (simp add: cells_def)

text \<open>A step that touches one cell.\<close>

lemma cells_upd:
  assumes "cells moved h cmds log got k"
    and "n < length log"
    and "\<And>m. m \<noteq> n \<Longrightarrow> rs_obj h' m = rs_obj h m \<and> st_obj h' m = st_obj h m \<and> cmds' m = cmds m \<and> k' m = k m"
    and "set got' \<subseteq> {..<length log}" "\<And>m. m \<noteq> n \<Longrightarrow> count_list got' m = count_list got m"
    and "cell moved h' (cmds' n) (log ! n) (count_list got' n) (k' n) n"
  shows "cells moved h' cmds' log got' k'"
proof -
  have "cell moved h' (cmds' m) (log ! m) (count_list got' m) (k' m) m" for m
    using assms(3,5) [of m] assms(6) cellsD [OF assms(1), of m] by (cases "m = n") (simp_all add: cell_heap [of h' m h])
  moreover have "cmds' m = None \<and> k' m = 0" if "length log \<le> m" for m
    using assms(1) assms(3) [of m] assms(2) that by (simp add: cells_def)
  ultimately show ?thesis using assms(4) by (simp add: cells_def)
qed

lemma release_cells:
  assumes "cells moved h cmds log got k" "\<And>n. p = Some n \<Longrightarrow> 0 < k n"
  shows "\<exists>h'. shared_release h p = Inr h' \<and> cells moved h' cmds log got (\<lambda>m. k m - one_if (p = Some m))"
proof (cases p)
  case None
  then show ?thesis using assms(1) by (auto simp: shared_release_def)
next
  case (Some n)
  have n: "n < length log"
  proof (rule ccontr)
    assume "\<not> n < length log"
    then have "k n = 0" using assms(1) by (simp add: cells_def)
    then show False using assms(2) [OF Some] by simp
  qed
  have c: "cell moved h (cmds n) (log ! n) (count_list got n) (k n) n" "0 < k n"
    using cellsD [OF assms(1)] assms(2) Some by simp_all
  have got: "set got \<subseteq> {..<length log}" using assms(1) by (simp add: cells_def)
  have "\<exists>h'. shared_release h (Some n) = Inr h' \<and>
      (\<forall>m. m \<noteq> n \<longrightarrow> rs_obj h' m = rs_obj h m \<and> st_obj h' m = st_obj h m) \<and>
      cell moved h' (cmds n) (log ! n) (count_list got n) (k n - 1) n"
    using c by (cases "cmds n")
      (auto simp: cell_def shared_release_def with_state_def put_state_def unique_reset_def result_delete_def
        split: if_splits)
  then obtain h' where h': "shared_release h (Some n) = Inr h'"
      "\<And>m. m \<noteq> n \<Longrightarrow> rs_obj h' m = rs_obj h m \<and> st_obj h' m = st_obj h m"
      "cell moved h' (cmds n) (log ! n) (count_list got n) (k n - 1) n"
    by blast
  have "cells moved h' cmds log got (\<lambda>m. k m - one_if (p = Some m))"
    by (rule cells_upd [OF assms(1) n]) (use h' Some got in auto)
  then show ?thesis using h'(1) Some by blast
qed

text \<open>The queue holds the commands that exist, each once.\<close>

definition queued :: "nat async \<Rightarrow> (nat \<Rightarrow> 'c option) \<Rightarrow> bool" where
  "queued q cmds \<longleftrightarrow>
     (\<exists>xs. async_pending q xs \<and> distinct (commands xs) \<and> set (commands xs) = {n. cmds n \<noteq> None})"

definition rq_inv :: "('v \<Rightarrow> 'v) \<Rightarrow> ('a, 'v) requests \<Rightarrow> bool" where
  "rq_inv moved s \<longleftrightarrow>
     cells moved (rq_heap s) (rq_cmds s) (rq_log s) (rq_got s) (refs (rq_futs s)) \<and>
     rq_next s = length (rq_log s) \<and> (\<forall>i \<ge> rq_next s. rq_futs s i = None) \<and> queued (rq_queue s) (rq_cmds s)"

lemma rq_inv_finite: "rq_inv moved s \<Longrightarrow> finite {i. rq_futs s i = Some n}"
  by (rule finite_subset [of _ "{..<rq_next s}"]) (auto simp: rq_inv_def not_less [symmetric])

lemma rq_inv_refs: "rq_inv moved s \<Longrightarrow> rq_futs s i = Some n \<Longrightarrow> 0 < refs (rq_futs s) n"
  using rq_inv_finite [of moved s n] by (auto simp: refs_def card_gt_0_iff)

lemma rq_start:
  assumes "async_start async_new l = Inr q"
  shows "rq_inv moved (requests_new q)"
proof -
  obtain a :: "nat async" where "async_start async_new l = Inr a" "async_pending a []"
    using async_started by blast
  with assms have "async_pending q []" by simp
  then have "queued q (\<lambda>_. None)" by (auto simp: queued_def intro!: exI [of _ "[]"])
  then show ?thesis
    by (simp add: rq_inv_def requests_new_def cells_def cell_def heap_empty_def refs_def)
qed

section \<open>Every operation keeps it\<close>

lemma future_destroy_ok:
  assumes inv: "rq_inv moved s"
  shows "\<exists>s'. future_destroy i s = Inr s' \<and> rq_inv moved s'"
proof -
  have cells: "cells moved (rq_heap s) (rq_cmds s) (rq_log s) (rq_got s) (refs (rq_futs s))"
    using inv by (simp add: rq_inv_def)
  obtain h where h: "shared_release (rq_heap s) (rq_futs s i) = Inr h"
    "cells moved h (rq_cmds s) (rq_log s) (rq_got s) (\<lambda>m. refs (rq_futs s) m - one_if (rq_futs s i = Some m))"
    using release_cells [OF cells] rq_inv_refs [OF inv] by blast
  have "refs (rq_futs s) m - one_if (rq_futs s i = Some m) = refs ((rq_futs s)(i := None)) m" for m
    using refs_upd [OF rq_inv_finite [OF inv], of i None m] by (simp split: if_splits)
  then show ?thesis using h inv by (simp add: future_destroy_def rq_inv_def)
qed

lemma future_assign_ok:
  assumes inv: "rq_inv moved s" and i: "i < rq_next s"
  shows "\<exists>s'. future_assign i j s = Inr s' \<and> rq_inv moved s'"
proof -
  let ?f = "(rq_futs s)(j := None)"
  have cells: "cells moved (rq_heap s) (rq_cmds s) (rq_log s) (rq_got s) (refs (rq_futs s))"
    using inv by (simp add: rq_inv_def)
  have "0 < refs (rq_futs s) n" if "?f i = Some n" for n
    using that rq_inv_refs [OF inv, of i n] by (simp split: if_splits)
  from release_cells [OF cells, of "?f i", OF this] obtain h where h: "shared_release (rq_heap s) (?f i) = Inr h"
    "cells moved h (rq_cmds s) (rq_log s) (rq_got s) (\<lambda>m. refs (rq_futs s) m - one_if (?f i = Some m))"
    by blast
  have "refs (rq_futs s) m - one_if (?f i = Some m) = refs (?f(i := rq_futs s j)) m" for m
  proof -
    have fin: "finite {i. rq_futs s i = Some m}" by (rule rq_inv_finite [OF inv])
    have "finite {i. ?f i = Some m}" by (rule finite_subset [OF _ fin]) auto
    from refs_upd [OF this, of i "rq_futs s j"] refs_upd [OF fin, of j None]
    show ?thesis by (simp del: fun_upd_apply split: if_splits)
  qed
  then have "cells moved h (rq_cmds s) (rq_log s) (rq_got s) (refs (?f(i := rq_futs s j)))"
    using h(2) by (simp del: fun_upd_apply)
  moreover have "\<forall>m\<ge>rq_next s. (?f(i := rq_futs s j)) m = None"
    using inv i by (auto simp: rq_inv_def)
  ultimately show ?thesis
    using h(1) inv by (simp add: future_assign_def Let_def rq_inv_def del: fun_upd_apply)
qed

lemma future_get_ok:
  assumes inv: "rq_inv moved s" and i: "rq_futs s i = Some n"
  shows "rq_cmds s n \<noteq> None \<Longrightarrow> rq_op moved s (RGet i) = Inr (s, Waits)"
    and "rq_cmds s n = None \<Longrightarrow> \<exists>v s'. rq_log s ! n = Inr v \<and> rq_inv moved s' \<and>
      rq_op moved s (RGet i) = Inr (s', Value ((moved ^^ count_list (rq_got s) n) v))"
proof -
  have cells: "cells moved (rq_heap s) (rq_cmds s) (rq_log s) (rq_got s) (refs (rq_futs s))"
    using inv by (simp add: rq_inv_def)
  have n: "n < length (rq_log s)" "refs (rq_futs s) n \<noteq> 0" "set (rq_got s) \<subseteq> {..<length (rq_log s)}"
    using rq_inv_refs [OF inv i] cells by (auto simp: cells_def not_less [symmetric])
  note c = cellsD [OF cells, of n]
  show "rq_cmds s n \<noteq> None \<Longrightarrow> rq_op moved s (RGet i) = Inr (s, Waits)"
    using c i n(2) by (auto simp: cell_def future_get_def state_wait_def with_state_def split: if_splits)
  assume no: "rq_cmds s n = None"
  define w where "w = (moved ^^ count_list (rq_got s) n) (projr (rq_log s ! n))"
  define h where "h = (rq_heap s)\<lparr>rs_obj := (rs_obj (rq_heap s))(n := Some (Some (moved w)))\<rparr>"
  have "rq_op moved s (RGet i) = Inr (s\<lparr>rq_heap := h, rq_got := n # rq_got s\<rparr>, Value w)"
    using c i no n by (auto simp: cell_def future_get_def state_wait_def with_state_def result_value_def
        result_set_def w_def h_def)
  moreover have "cells moved h (rq_cmds s) (rq_log s) (n # rq_got s) (refs (rq_futs s))"
    by (rule cells_upd [OF cells n(1)]) (use c no n in \<open>auto simp: h_def w_def cell_def\<close>)
  moreover have "rq_log s ! n = Inr (projr (rq_log s ! n))"
    using c no n by (auto simp: cell_def)
  ultimately show "\<exists>v s'. rq_log s ! n = Inr v \<and> rq_inv moved s' \<and>
      rq_op moved s (RGet i) = Inr (s', Value ((moved ^^ count_list (rq_got s) n) v))"
    using inv by (intro exI [of _ "projr (rq_log s ! n)"] exI [of _ "s\<lparr>rq_heap := h, rq_got := n # rq_got s\<rparr>"])
      (simp add: rq_inv_def w_def)
qed

lemma null_ok: "rq_inv moved s \<Longrightarrow> rq_inv moved (s\<lparr>rq_queue := async_nullmsg (rq_queue s)\<rparr>)"
  using async_null_pending [of "rq_queue s"] by (fastforce simp: rq_inv_def queued_def)

lemma async_receive_pending:
  assumes "async_pending q xs"
  shows "\<exists>q'. async_receive q = (q', commands (take 1 xs) \<noteq> []) \<and> async_pending q' (tl xs) \<and>
    aq_ran q' = aq_ran q @ commands (take 1 xs)"
proof (cases xs)
  case Nil
  then show ?thesis
    using assms messages.rep_pop_Nil [of "aq_msgs q"]
    by (auto simp: async_receive_def async_pending_def case_prod_beta Let_def)
next
  case (Cons x ys)
  then show ?thesis
    using assms messages.rep_pop_Cons [of "aq_msgs q" x ys]
    by (cases x) (auto simp: async_receive_def async_pending_def case_prod_beta Let_def)
qed

lemma async_stop_pending: "async_pending q xs \<Longrightarrow> \<exists>q'. async_stop q = Inr q' \<and> async_pending q' xs"
  by (auto simp: async_stop_def with_loop_def async_pending_def)

text \<open>Calling a command moves its result into the state; deleting it gives up its share.\<close>

lemma run_command_ok:
  assumes cells: "cells moved (rq_heap s) (rq_cmds s) (rq_log s) (rq_got s) k" and c: "rq_cmds s n \<noteq> None"
  shows "\<exists>h. run_command n s = Inr (s\<lparr>rq_heap := h, rq_cmds := (rq_cmds s)(n := None)\<rparr>) \<and>
    cells moved h ((rq_cmds s)(n := None)) (rq_log s) (rq_got s) k"
proof -
  obtain cmd where cmd: "rq_cmds s n = Some cmd" using c by blast
  have n: "n < length (rq_log s)" "set (rq_got s) \<subseteq> {..<length (rq_log s)}"
    using cells cmd by (auto simp: cells_def intro: ccontr)
  obtain v where v: "cm_caller cmd (cm_argument cmd) = Inr v" "rq_log s ! n = Inr v" "count_list (rq_got s) n = 0"
    using cellsD [OF cells, of n] cmd by (cases "rq_log s ! n") (auto simp: cell_def)
  show ?thesis
  proof (cases "cm_prms cmd")
    case None
    have "run_command n s = Inr (s\<lparr>rq_heap := rq_heap s, rq_cmds := (rq_cmds s)(n := None)\<rparr>)"
      using cmd v None by (simp add: run_command_def command_call_def plain_call_def command_delete_def)
    moreover have "cells moved (rq_heap s) ((rq_cmds s)(n := None)) (rq_log s) (rq_got s) k"
      by (rule cells_upd [OF cells n(1) _ n(2)]) (use cellsD [OF cells, of n] cmd None in \<open>auto simp: cell_def\<close>)
    ultimately show ?thesis by blast
  next
    case (Some p)
    have cell: "p = \<lparr>pm_state = Some n, pm_storage = Some n\<rparr>"
        "rs_obj (rq_heap s) n = Some None" "st_obj (rq_heap s) n = Some \<lparr>st_refs = Suc (k n), st_result = None\<rparr>"
      using cellsD [OF cells, of n] cmd Some by (auto simp: cell_def)
    define h where "h = (if k n = 0 then (rq_heap s)\<lparr>rs_obj := (rs_obj (rq_heap s))(n := None), st_obj := (st_obj (rq_heap s))(n := None)\<rparr>
      else (rq_heap s)\<lparr>rs_obj := (rs_obj (rq_heap s))(n := Some (Some v)),
        st_obj := (st_obj (rq_heap s))(n := Some \<lparr>st_refs = k n, st_result = Some n\<rparr>)\<rparr>)"
    have "run_command n s = Inr (s\<lparr>rq_heap := h, rq_cmds := (rq_cmds s)(n := None)\<rparr>)"
      using cell cmd v Some
      by (auto simp: run_command_def command_call_def apply_promise_def command_delete_def set_value_def result_set_def state_set_result_def
          with_state_def put_state_def unique_reset_def promise_destroy_def shared_release_def result_delete_def h_def)
    moreover have "cells moved h ((rq_cmds s)(n := None)) (rq_log s) (rq_got s) k"
    proof (rule cells_upd [OF cells n(1) _ n(2)])
      show "cell moved h (((rq_cmds s)(n := None)) n) (rq_log s ! n) (count_list (rq_got s) n) (k n) n"
        using cell cmd v by (auto simp: cell_def h_def)
    qed (auto simp: h_def)
    ultimately show ?thesis by blast
  qed
qed

lemma callback_ok:
  assumes inv: "rq_inv moved s"
  shows "\<exists>s'. request_callback s = Inr s' \<and> rq_inv moved s'"
proof -
  obtain xs where xs: "async_pending (rq_queue s) xs" "distinct (commands xs)"
    "set (commands xs) = {n. rq_cmds s n \<noteq> None}"
    using inv by (auto simp: rq_inv_def queued_def)
  obtain q where q: "async_receive (rq_queue s) = (q, commands (take 1 xs) \<noteq> [])" "async_pending q (tl xs)"
    "aq_ran q = aq_ran (rq_queue s) @ commands (take 1 xs)"
    using async_receive_pending [OF xs(1)] by blast
  have split: "commands xs = commands (take 1 xs) @ commands (tl xs)"
    by (metis append_take_drop_id commands_simps(4) drop_Suc drop0 One_nat_def)
  show ?thesis
  proof (cases "commands (take 1 xs)")
    case Nil
    obtain q' where "async_stop q = Inr q'" "async_pending q' (tl xs)"
      using async_stop_pending [OF q(2)] by blast
    moreover have "distinct (commands (tl xs))" "set (commands (tl xs)) = {n. rq_cmds s n \<noteq> None}"
      using xs(2,3) split Nil by simp_all
    ultimately show ?thesis
      using q(1) Nil inv by (auto simp: request_callback_def rq_inv_def queued_def)
  next
    case (Cons n ns)
    then have ns: "ns = []" using length_commands [of "take 1 xs"] by simp
    let ?s = "s\<lparr>rq_queue := q\<rparr>"
    have "n \<in> set (commands xs)" using split Cons by simp
    then have "rq_cmds ?s n \<noteq> None" using xs(3) by simp
    moreover have "cells moved (rq_heap ?s) (rq_cmds ?s) (rq_log ?s) (rq_got ?s) (refs (rq_futs s))"
      using inv by (simp add: rq_inv_def)
    ultimately obtain h where h: "run_command n ?s = Inr (?s\<lparr>rq_heap := h, rq_cmds := (rq_cmds s)(n := None)\<rparr>)"
      "cells moved h ((rq_cmds s)(n := None)) (rq_log s) (rq_got s) (refs (rq_futs s))"
      using run_command_ok [of moved ?s "refs (rq_futs s)" n] by auto
    have "queued q ((rq_cmds s)(n := None))"
      unfolding queued_def using q(2) xs(2,3) split Cons ns by (intro exI [of _ "tl xs"]) auto
    then show ?thesis
      using h q(1,3) Cons ns inv by (simp add: request_callback_def rq_inv_def)
  qed
qed

text \<open>A new command gets the next number.\<close>

lemma new_cells:
  assumes cells: "cells moved h cmds log got k" and n: "n = length log"
    and rest: "\<And>m. m \<noteq> n \<Longrightarrow> rs_obj h' m = rs_obj h m \<and> st_obj h' m = st_obj h m \<and> k' m = k m"
    and new: "cell moved h' (Some c) a 0 (k' n) n"
  shows "cells moved h' (cmds(n := Some c)) (log @ [a]) got k'"
proof -
  have out: "n \<notin> set got" and got: "set got \<subseteq> {..<Suc n}" using cells n by (auto simp: cells_def)
  have "cell moved h' ((cmds(n := Some c)) m) ((log @ [a]) ! m) (count_list got m) (k' m) m" for m
  proof (cases "m = n")
    case True
    then show ?thesis using new n out by (simp add: count_list_0_iff)
  next
    case False
    then have old: "cell moved h' (cmds m) (log ! m) (count_list got m) (k m) m"
      using cellsD [OF cells, of m] rest [OF False] by (simp add: cell_heap [of h' m h])
    show ?thesis
    proof (cases "m < n")
      case True
      then show ?thesis using old False n rest [OF False] by (simp add: nth_append)
    next
      case m: False
      then have "cmds m = None" "k m = 0" using cells n by (simp_all add: cells_def)
      then show ?thesis using old False rest [OF False] by (simp add: cell_def)
    qed
  qed
  moreover have "(cmds(n := Some c)) m = None \<and> k' m = 0" if "Suc n \<le> m" for m
    using that cells n rest [of m] by (simp add: cells_def)
  ultimately show ?thesis using n got by (simp add: cells_def)
qed

lemma queued_send:
  assumes "queued q cmds" "cmds n = None"
  shows "\<exists>q'. async_send q n = Inr q' \<and> queued q' (cmds(n := Some c))"
proof -
  obtain xs where xs: "async_pending q xs" "distinct (commands xs)" "set (commands xs) = {n. cmds n \<noteq> None}"
    using assms(1) by (auto simp: queued_def)
  obtain q' where q': "async_send q n = Inr q'" "async_pending q' (xs @ [Some n])"
    using async_send_pending [OF xs(1)] by blast
  then have "queued q' (cmds(n := Some c))"
    unfolding queued_def using xs(2,3) assms(2) by (intro exI [of _ "xs @ [Some n]"]) auto
  then show ?thesis using q'(1) by blast
qed

lemma rq_inv_next:
  assumes "rq_inv moved s"
  shows "rq_next s = length (rq_log s)" "rq_cmds s (rq_next s) = None" "refs (rq_futs s) (rq_next s) = 0"
    "rq_futs s (rq_next s) = None"
  using assms by (simp_all add: rq_inv_def cells_def)

lemma request_ok:
  assumes inv: "rq_inv moved s" and v: "func arg = Inr v"
  shows "\<exists>s'. request func arg s = Inr s' \<and> rq_inv moved s'"
proof -
  let ?n = "rq_next s" and ?hp = "rq_heap s"
  let ?p = "\<lparr>pm_state = Some ?n, pm_storage = Some ?n\<rparr>"
  let ?cmd = "\<lparr>cm_caller = func, cm_argument = arg, cm_prms = Some ?p\<rparr>"
  let ?futs = "(rq_futs s)(?n := Some ?n)"
  note new = rq_inv_next [OF inv]
  obtain q where q: "async_send (rq_queue s) ?n = Inr q" "queued q ((rq_cmds s)(?n := Some ?cmd))"
    using queued_send [of "rq_queue s" "rq_cmds s" ?n ?cmd] new(2) inv by (auto simp: rq_inv_def)
  define h where "h = ?hp\<lparr>rs_obj := (rs_obj ?hp)(?n := Some None),
    st_obj := (st_obj ?hp)(?n := Some \<lparr>st_refs = 2, st_result = None\<rparr>)\<rparr>"
  have "request func arg s = Inr (s\<lparr>rq_queue := q, rq_heap := h, rq_cmds := (rq_cmds s)(?n := Some ?cmd),
      rq_next := Suc ?n, rq_futs := ?futs, rq_log := rq_log s @ [Inr v]\<rparr>)"
    using q(1) v by (simp add: request_def promise_new_def make_state_def result_new_def get_future_def
        shared_copy_def with_state_def put_state_def h_def Let_def numeral_2_eq_2)
  moreover have refs: "refs ?futs m = (if m = ?n then 1 else refs (rq_futs s) m)" for m
    using refs_upd [OF rq_inv_finite [OF inv], of ?n "Some ?n" m] new by auto
  have "cells moved h ((rq_cmds s)(?n := Some ?cmd)) (rq_log s @ [Inr v]) (rq_got s) (refs ?futs)"
  proof (rule new_cells [OF _ new(1)])
    show "cells moved ?hp (rq_cmds s) (rq_log s) (rq_got s) (refs (rq_futs s))" using inv by (simp add: rq_inv_def)
    show "cell moved h (Some ?cmd) (Inr v) 0 (refs ?futs ?n) ?n"
      using v refs [of ?n] by (simp add: cell_def h_def numeral_2_eq_2)
  qed (simp add: refs h_def)
  ultimately show ?thesis using q(2) inv by (simp add: rq_inv_def)
qed

lemma send_ok:
  assumes inv: "rq_inv moved s" and v: "func arg = Inr v"
  shows "\<exists>s'. send func arg s = Inr s' \<and> rq_inv moved s'"
proof -
  let ?n = "rq_next s" and ?cmd = "\<lparr>cm_caller = func, cm_argument = arg, cm_prms = None\<rparr>"
  note new = rq_inv_next [OF inv]
  have cells: "cells moved (rq_heap s) (rq_cmds s) (rq_log s) (rq_got s) (refs (rq_futs s))"
    using inv by (simp add: rq_inv_def)
  obtain q where q: "async_send (rq_queue s) ?n = Inr q" "queued q ((rq_cmds s)(?n := Some ?cmd))"
    using queued_send [of "rq_queue s" "rq_cmds s" ?n ?cmd] new(2) inv by (auto simp: rq_inv_def)
  have "cells moved (rq_heap s) ((rq_cmds s)(?n := Some ?cmd)) (rq_log s @ [Inr v]) (rq_got s) (refs (rq_futs s))"
    using cellsD [OF cells, of ?n] new v by (intro new_cells [OF cells new(1)]) (simp_all add: cell_def)
  then show ?thesis using q inv v by (simp add: send_def Let_def rq_inv_def)
qed

lemma rq_op_ok:
  assumes inv: "rq_inv moved s" and x: "rq_allowed s x"
  shows "\<exists>s' r. rq_op moved s x = Inr (s', r) \<and> rq_inv moved s'"
proof (cases x)
  case (RRequest func arg)
  then obtain v where "func arg = Inr v" using x by (cases "func arg") auto
  from request_ok [OF inv, of func arg, OF this] RRequest show ?thesis by auto
next
  case (RSend func arg)
  then obtain v where "func arg = Inr v" using x by (cases "func arg") auto
  from send_ok [OF inv, of func arg, OF this] RSend show ?thesis by auto
next
  case (RGet i)
  then obtain n where "rq_futs s i = Some n" using x by auto
  from future_get_ok [OF inv this] RGet inv show ?thesis by (cases "rq_cmds s n = None") blast+
next
  case (RAssign i j)
  with future_assign_ok [OF inv, of i j] x show ?thesis by auto
next
  case (RDestroy i)
  with future_destroy_ok [OF inv, of i] show ?thesis by auto
qed (use null_ok [OF inv] callback_ok [OF inv] in auto)

lemma rq_reach_inv: "rq_reach moved s \<Longrightarrow> rq_inv moved s"
proof (induction rule: rq_reach.induct)
  case (reach_start l q)
  then show ?case by (rule rq_start)
next
  case (reach_op s x s' r)
  with rq_op_ok [OF reach_op.IH, of x] show ?case by simp
qed

text \<open>Playing a list of allowed operations.\<close>

fun rq_play :: "('v \<Rightarrow> 'v) \<Rightarrow> ('a, 'v) requests \<Rightarrow> ('a, 'v) rop list \<Rightarrow> ('a, 'v) requests option" where
  "rq_play moved s [] = Some s"
| "rq_play moved s (x # xs) =
     (if rq_allowed s x then (case rq_op moved s x of Inl _ \<Rightarrow> None | Inr (s, r) \<Rightarrow> rq_play moved s xs) else None)"

lemma rq_play_reach: "rq_play moved s xs = Some s' \<Longrightarrow> rq_reach moved s \<Longrightarrow> rq_reach moved s'"
proof (induction xs arbitrary: s)
  case (Cons x xs)
  then show ?case by (auto split: if_splits sum.splits dest: reach_op)
qed simp

definition rq_example :: "(nat, nat) rop list \<Rightarrow> (nat, nat) requests option" where
  "rq_example xs =
     (case async_start async_new 1 of Inl _ \<Rightarrow> None | Inr q \<Rightarrow> rq_play (\<lambda>_. 0) (requests_new q) xs)"

lemma rq_example_reach: "rq_example xs = Some s \<Longrightarrow> rq_reach (\<lambda>_. 0) s"
  by (auto simp: rq_example_def split: sum.splits dest: rq_play_reach intro: reach_start)

section \<open>Properties\<close>

text \<open>C10. Requests own their memory. However requests, sent commands, callbacks, null messages, \<open>get\<close>s, moves and
  destructions follow each other, the next operation the client may do never follows a null or
  dead pointer, deletes nothing twice and reads no empty result; and once no command is pending and no
  future is left, every \<open>State\<close> and \<open>Result\<close> has been deleted.\<close>

theorem request_memory_safe:
  assumes "rq_reach moved s" and "rq_allowed s x"
  shows "(\<exists>s' r. rq_op moved s x = Inr (s', r)) \<and>
    ((\<forall>n. rq_cmds s n = None) \<longrightarrow> (\<forall>i. rq_futs s i = None) \<longrightarrow>
       (\<forall>n. rs_obj (rq_heap s) n = None \<and> st_obj (rq_heap s) n = None))"
proof -
  have inv: "rq_inv moved s" by (rule rq_reach_inv [OF assms(1)])
  have "rs_obj (rq_heap s) n = None \<and> st_obj (rq_heap s) n = None"
    if "\<forall>n. rq_cmds s n = None" "\<forall>i. rq_futs s i = None" for n
  proof -
    have "cell moved (rq_heap s) (rq_cmds s n) (rq_log s ! n) (count_list (rq_got s) n) (refs (rq_futs s) n) n"
      using inv by (simp add: rq_inv_def cells_def)
    then show ?thesis using that by (simp add: cell_def refs_def)
  qed
  then show ?thesis using rq_op_ok [OF inv assms(2)] by blast
qed

theorem request_memory_safe_witness:
  "\<exists>s. rq_example [RSend (\<lambda>_. Inr 1) [4], RRequest (\<lambda>xs. Inr (sum_list xs)) [2, 3], RCallback, RCallback] = Some s \<and>
     (\<exists>s' r. rq_op (\<lambda>_. 0) s (RDestroy 1) = Inr (s', r))"
proof -
  let ?r = "rq_example [RSend (\<lambda>_. Inr 1) [4], RRequest (\<lambda>xs. Inr (sum_list xs)) [2, 3], RCallback, RCallback]"
  have "\<not> Option.is_none ?r" by code_simp
  then obtain s where s: "?r = Some s" by (auto simp: Option.is_none_def)
  have "rq_allowed s (RDestroy 1)" by simp
  from request_memory_safe [OF rq_example_reach [OF s] this] s show ?thesis by blast
qed

text \<open>C11. A future answers its request. \<open>get\<close> waits while the command is in the queue; after it
  has run, \<open>get\<close> returns what the requested function gives on its arguments, whichever futures were
  moved or destroyed in the meantime; every later \<open>get\<close> of the same state has the value that was
  moved from once more.\<close>

theorem request_answers:
  assumes "rq_reach moved s" and "rq_futs s i = Some n"
  shows "if rq_cmds s n \<noteq> None then rq_op moved s (RGet i) = Inr (s, Waits)
    else \<exists>v s'. rq_log s ! n = Inr v \<and>
      rq_op moved s (RGet i) = Inr (s', Value ((moved ^^ count_list (rq_got s) n) v))"
  using future_get_ok [OF rq_reach_inv [OF assms(1)] assms(2)] by auto

theorem request_answers_witness:
  "\<exists>s s'. rq_example [RRequest (\<lambda>xs. Inr (sum_list xs)) [2, 3], RCallback] = Some s \<and>
     rq_op (\<lambda>_. 0) s (RGet 0) = Inr (s', Value 5)"
proof -
  let ?r = "rq_example [RRequest (\<lambda>xs. Inr (sum_list xs)) [2, 3], RCallback]"
  have "(case ?r of None \<Rightarrow> False | Some s \<Rightarrow> rq_futs s 0 = Some 0 \<and> Option.is_none (rq_cmds s 0) \<and>
      rq_log s = [Inr 5] \<and> rq_got s = [])"
    by code_simp
  then obtain s where s: "?r = Some s" "rq_futs s 0 = Some 0" "rq_cmds s 0 = None" "rq_log s = [Inr 5]" "rq_got s = []"
    by (auto simp: Option.is_none_def split: option.splits)
  show ?thesis using request_answers [OF rq_example_reach [OF s(1)] s(2)] s by auto
qed

end
