(* ===== verification/Callback.thy ===== *)
theory Callback
  imports Prelude
begin

text \<open>
  Bound functions: \<open>reactor/callback.hpp\<close>, an object pointer with a wrapper, and \<open>msgqueue/cmd/caller.hpp\<close>,
  an object pointer with a member function. A member function takes the address of its object.
\<close>

record ('a, 'r) bound =
  m_obj :: "nat option"
  m_func :: "(nat option \<Rightarrow> 'a \<Rightarrow> 'r result) option"

definition callback_null :: "('a, 'r) bound" where
  "callback_null = \<lparr>m_obj = None, m_func = None\<rparr>"

definition callback_new :: "nat option \<Rightarrow> (nat option \<Rightarrow> 'a \<Rightarrow> 'r result) \<Rightarrow> ('a, 'r) bound" where
  "callback_new obj fn = \<lparr>m_obj = obj, m_func = Some fn\<rparr>"

definition callback_copy :: "('a, 'r) bound \<Rightarrow> ('a, 'r) bound" where
  "callback_copy c = \<lparr>m_obj = m_obj c, m_func = m_func c\<rparr>"

definition callback_assign :: "('a, 'r) bound \<Rightarrow> ('a, 'r) bound \<Rightarrow> ('a, 'r) bound" where
  "callback_assign c other = c\<lparr>m_obj := m_obj other, m_func := m_func other\<rparr>"

text \<open>\<open>operator bool\<close> and \<open>operator()\<close>.\<close>

definition callback_bool :: "('a, 'r) bound \<Rightarrow> bool" where
  "callback_bool c = (if m_func c \<noteq> None then m_obj c \<noteq> None else False)"

definition callback_call :: "('a, 'r) bound \<Rightarrow> 'a \<Rightarrow> 'r result" where
  "callback_call c args = (case m_func c of None \<Rightarrow> Inl NullDeref | Some f \<Rightarrow> f (m_obj c) args)"

definition member_call :: "(nat \<Rightarrow> 'a \<Rightarrow> 'r result) \<Rightarrow> nat option \<Rightarrow> 'a \<Rightarrow> 'r result" where
  "member_call member obj args = (case obj of None \<Rightarrow> Inl NullDeref | Some t \<Rightarrow> member t args)"

definition bind_member :: "(nat \<Rightarrow> 'a \<Rightarrow> 'r result) \<Rightarrow> nat option \<Rightarrow> ('a, 'r) bound" where
  "bind_member member t = callback_new t (member_call member)"

text \<open>A const member function has a factory of its own, with the same wrapper: \<open>bind\<close> takes a \<open>T *\<close> and a
  function that is not const.\<close>

definition bind_const_member :: "(nat \<Rightarrow> 'a \<Rightarrow> 'r result) \<Rightarrow> nat option \<Rightarrow> ('a, 'r) bound" where
  "bind_const_member member t = callback_new t (member_call member)"

definition bind_free :: "('a \<Rightarrow> 'r result) \<Rightarrow> ('a, 'r) bound" where
  "bind_free free = callback_new None (\<lambda>obj args. free args)"

record ('a, 'r) caller =
  worker :: "nat option"
  func :: "nat \<Rightarrow> 'a \<Rightarrow> 'r result"

definition caller_call :: "('a, 'r) caller \<Rightarrow> 'a \<Rightarrow> 'r result" where
  "caller_call c args = member_call (func c) (worker c) args"

text \<open>A member bound either way is called on its object.\<close>

lemma bound_member_call: "callback_call (bind_member member t) args = caller_call \<lparr>worker = t, func = member\<rparr> args"
  by (simp add: callback_call_def bind_member_def callback_new_def caller_call_def)

text \<open>A copy, made or assigned, calls the same function on the same object.\<close>

lemma callback_copies [simp]: "callback_copy c = c" "callback_assign c other = other"
  by (simp_all add: callback_copy_def callback_assign_def)

text \<open>A callback that is true can be called; one bound to a free function can be called as well,
  but is false, as if nothing were bound.\<close>

lemma callback_truth:
  "callback_bool (bind_member member (Some t))"
  "callback_call (bind_member member (Some t)) args = member t args"
  "\<not> callback_bool (bind_free free)" "callback_call (bind_free free) args = free args"
  "\<not> callback_bool callback_null" "callback_call callback_null args = Inl NullDeref"
  by (simp_all add: callback_bool_def callback_call_def bind_member_def bind_free_def callback_new_def
      member_call_def callback_null_def)

end
