(* ===== verification/Daemon.thy ===== *)
theory Daemon
  imports SensorCore
begin

text \<open>
  The \<open>main\<close> of \<open>frontend/source/sensord.c\<close> over the library: detaching from the terminal, the
  supervisor that forks the sensor, its settings, and \<open>sensor_main\<close>. A process is its
  descriptors, signal dispositions and \<open>umask\<close>; what \<open>fork\<close> and \<open>setsid\<close> return is a parameter.
\<close>

section \<open>Descriptors\<close>

type_synonym descriptors = "nat \<Rightarrow> string option"

text \<open>\<open>open\<close> without \<open>O_CREAT\<close> takes the lowest free descriptor, for a file that exists.\<close>

definition fd_open :: "(string \<Rightarrow> bool) \<Rightarrow> string \<Rightarrow> descriptors \<Rightarrow> descriptors \<times> int" where
  "fd_open exists name t =
     (if exists name
      then (case find (\<lambda>n. Option.is_none (t n)) [0..<1024] of None \<Rightarrow> (t, -1) | Some n \<Rightarrow> (t(n := Some name), int n))
      else (t, -1))"

definition fd_close :: "nat \<Rightarrow> descriptors \<Rightarrow> descriptors" where
  "fd_close n t = t(n := None)"

definition fd_dup2 :: "int \<Rightarrow> nat \<Rightarrow> descriptors \<Rightarrow> descriptors" where
  "fd_dup2 old new t = (if old < 0 \<or> Option.is_none (t (nat old)) then t else t(new := t (nat old)))"

section \<open>Processes\<close>

datatype sig = SIGHUP | SIGINT | SIGTERM | SIGQUIT

datatype disposition = SIG_DFL | SIG_IGN | break_loop

record process =
  ps_fds :: descriptors
  ps_signals :: "sig \<Rightarrow> disposition"
  ps_umask :: "nat option"

text \<open>\<open>None\<close> is the mask the process was started with. The child of the fork goes on.\<close>

definition detach :: "fork_result \<Rightarrow> int \<Rightarrow> (string \<Rightarrow> bool) \<Rightarrow> process \<Rightarrow> process \<times> fork_outcome" where
  "detach pid setsid exists p =
     (case pid of
        ForkFailed \<Rightarrow> (p, ExitFailure)
      | InParent _ \<Rightarrow> (p, ExitSuccess)
      | InChild \<Rightarrow>
          let p = p\<lparr>ps_umask := Some 0\<rparr> in
          if setsid < 0 then (p, ExitFailure)
          else
            let fds = fd_close 0 (fd_close 2 (fd_close 1 (ps_fds p)));
                (fds, devnull) = fd_open exists ''log.txt'' fds
            in (p\<lparr>ps_fds := fd_dup2 devnull 1 fds\<rparr>, RunChild))"

definition forking_process :: "fork_result list \<Rightarrow> process \<Rightarrow> process \<times> fork_outcome" where
  "forking_process rs p = (p\<lparr>ps_signals := (\<lambda>_. SIG_IGN)\<rparr>, forking rs)"

definition child_signals :: "process \<Rightarrow> process" where
  "child_signals p = p\<lparr>ps_signals := (\<lambda>s. case s of SIGHUP \<Rightarrow> SIG_DFL | _ \<Rightarrow> break_loop)\<rparr>"

section \<open>The main function\<close>

text \<open>Where a sensor runs: the world of \<open>sensor_main\<close> and what its memory holds.\<close>

record host =
  ho_world :: world
  ho_info :: interface_info
  ho_pad :: "byte list"
  ho_garbage :: endpoint

definition sensor_destroy :: "sensor option \<Rightarrow> unit result" where
  "sensor_destroy config = rassert (config \<noteq> None)"

text \<open>From \<open>sensor_init\<close> on; \<open>persist_callback\<close> is the function 0. \<open>None\<close> where it does not return.\<close>

definition run_sensor :: "host \<Rightarrow> arguments \<Rightarrow> unit result option" where
  "run_sensor h a =
     (let sensor = sensor_init;
          options = get_flag a EnablePersistance (\<lambda>enable_persistance.
            let sensor = fst (sensor_set_persist_callback sensor (if enable_persistance then Some 0 else None)) in
            rbind (main_options a) (\<lambda>opts. Inr (fst (sensor_set_options sensor opts))))
      in case options of
           Inl e \<Rightarrow> Some (Inl e)
         | Inr sensor \<Rightarrow>
             map_option (\<lambda>r. rbind r (\<lambda>(sensor, _). sensor_destroy (Some sensor)))
               (snd (sensor_main (ho_world h) (ho_info h) (ho_pad h) (ho_garbage h) sensor)))"

definition daemon_main ::
  "u64 \<Rightarrow> (opt_key \<times> string) list \<Rightarrow> (string \<Rightarrow> string option) \<Rightarrow> fork_result \<Rightarrow> int \<Rightarrow> fork_result list \<Rightarrow> host \<Rightarrow>
   process \<Rightarrow> (process \<times> fork_outcome) result option" where
  "daemon_main addr argv open_file pid setsid forks h p =
     (let start =
        rbind (main_arguments addr argv open_file) (\<lambda>a.
        get_flag a EnableBackground (\<lambda>background.
        let (p, r) = (if background then detach pid setsid (\<lambda>f. open_file f \<noteq> None) p else (p, RunChild)) in
        if r \<noteq> RunChild then Inr (a, p, r)
        else
          get_flag a EnableFork (\<lambda>enable_fork.
          let (p, r) = (if enable_fork then forking_process forks p else (p, RunChild)) in
          Inr (a, p, r))))
      in case start of
           Inl e \<Rightarrow> Some (Inl e)
         | Inr (a, p, r) \<Rightarrow>
             if r \<noteq> RunChild then Some (Inr (p, r))
             else let p = child_signals p in map_option (\<lambda>x. rbind x (\<lambda>_. Inr (p, ExitSuccess))) (run_sensor h a))"

section \<open>How a sensor ends\<close>

text \<open>An interface, libpcap and an address that work.\<close>

definition address_found :: "host \<Rightarrow> sensor_options \<Rightarrow> bool" where
  "address_found h opts =
     (case device_string (ob_device (so_balancing opts)) of
        Inl _ \<Rightarrow> False
      | Inr device \<Rightarrow>
          (case currentAddress device (wd_addr6 (ho_world h)) (wd_addr4 (ho_world h)) (ho_pad h) of
             Inl _ \<Rightarrow> False
           | Inr addr \<Rightarrow>
               (ia_family addr = AF_INET \<or> ia_family addr = AF_INET6) \<and>
               (case wd_gai (ho_world h) (wd_ntop (ho_world h) addr) of
                  None \<Rightarrow> False
                | Some bs \<Rightarrow> \<not> isl (ep_sockaddr bs))))"

definition equipped :: "host \<Rightarrow> sensor_options \<Rightarrow> bool" where
  "equipped h opts \<longleftrightarrow>
     a_socket (wd_answers (ho_world h)) \<notin> set (k_open (wd_kernel (ho_world h))) \<and>
     \<not> isl (capture_interface (wd_replies (ho_world h)) (ho_info h) (fst (sensor_set_options sensor_init opts))) \<and>
     pc_created (wd_pcap (ho_world h)) \<and> pc_promisc (wd_pcap (ho_world h)) = 0 \<and> pc_buffer (wd_pcap (ho_world h)) = 0 \<and>
     pc_activate (wd_pcap (ho_world h)) = 0 \<and> address_found h opts"

lemma not_isl: "\<not> isl x \<longleftrightarrow> (\<exists>y. x = Inr y)"
  by (cases x) simp_all

lemma make_service_throws:
  assumes "equipped h opts"
  shows "make_service (ho_world h) (ho_pad h) (ho_garbage h) opts = Inl (Thrown ''fcntl'')"
proof -
  have "a_socket (wd_answers (ho_world h)) \<notin> set (k_open (wd_kernel (ho_world h)))"
    using assms by (simp add: equipped_def)
  from make_service_fails [OF this, of "ho_pad h" "ho_garbage h" opts] show ?thesis
    using assms by (auto simp: equipped_def address_found_def not_isl split: sum.splits option.splits)
qed

lemma sensor_main_throws:
  assumes eq: "equipped h opts" and opts: "sn_opt config = Some opts"
  shows "snd (sensor_main (ho_world h) (ho_info h) (ho_pad h) (ho_garbage h) config) = Some (Inl (Thrown ''fcntl''))"
proof -
  obtain c where "capture_interface (wd_replies (ho_world h)) (ho_info h) config = Inr c" "sn_opt c = Some opts"
    using eq opts
    by (auto simp: equipped_def not_isl capture_interface_def opts_of_def sensor_set_options_def sensor_init_def
        rbind_eq_Inr_iff)
  then show ?thesis
    using make_service_throws [OF eq] eq
    by (simp add: sensor_main_def opts_of_def handler_init_def equipped_def Let_def)
qed

lemma run_sensor_throws:
  assumes "equipped h opts" "main_options a = Inr opts" "a EnablePersistance = Some (CBool b)"
  shows "run_sensor h a = Some (Inl (Thrown ''fcntl''))"
proof -
  have "sn_opt (fst (sensor_set_options (fst (sensor_set_persist_callback sensor_init f)) opts)) = Some opts" for f
    by (auto simp: sensor_set_options_def sensor_set_persist_callback_def sensor_init_def split: option.splits)
  from sensor_main_throws [OF assms(1) this] show ?thesis
    using assms(2,3) by (simp add: run_sensor_def get_flag_def)
qed

section \<open>Properties\<close>

text \<open>C28. The supervisor never gets to its end. Its options being complete, every sensor it forks on
  a host where interface, libpcap and address are in order ends in the exception of the acceptor, a crash;
  \<open>forking\<close> starts the next one after each and never reaches its \<open>exit\<close>.\<close>

theorem supervisor_restarts:
  assumes "main_options a = Inr opts" and "a EnablePersistance = Some (CBool b)" and "\<forall>h\<in>set hs. equipped h opts"
  shows "(\<forall>h\<in>set hs. run_sensor h a = Some (Inl (Thrown ''fcntl''))) \<and>
    forking (map (\<lambda>h. InParent (run_sensor h a = Some (Inr ()))) hs) = Waiting"
proof -
  have "\<forall>h\<in>set hs. run_sensor h a = Some (Inl (Thrown ''fcntl''))" using run_sensor_throws assms by blast
  then show ?thesis by (induction hs) simp_all
qed

definition arguments_example :: arguments where
  "arguments_example = args_get_default
     (CapturePromiscuous \<mapsto> CBool True, EnablePersistance \<mapsto> CBool False,
      NodesSurveyTimeout \<mapsto> CWord 10, NodesSurveyInitialTimeout \<mapsto> CWord 10, NodesDisconnectTimeout \<mapsto> CWord 60,
      NodesEnableModifyRouting \<mapsto> CBool True, NodesModifyRoutingTimeout \<mapsto> CWord 10, BalancingTimeout \<mapsto> CWord 10,
      BalancingInitialSeekTimeout \<mapsto> CWord 10, BalancingInfoTimeout \<mapsto> CWord 10, BalancingSessionTimeout \<mapsto> CWord 120,
      BalancingLoadCount \<mapsto> CWord 5, BalancingInterval \<mapsto> CWord 10)"

definition host_example :: host where
  "host_example = \<lparr>ho_world = world_example, ho_info = info_example, ho_pad = [0, 0], ho_garbage = []\<rparr>"

lemma arguments_example_options: "main_options arguments_example = Inr options_example"
  by (simp add: main_options_def get_field_defs arguments_example_def args_get_default_def options_example_def
      device_eth0_def)

lemma host_example_equipped: "equipped host_example options_example"
proof -
  obtain gw where "read_default_gateway ''eth0'' (Some (print_routes ''Iface'' routes_example)) = Inr gw"
    using routes_example_gateway by blast
  then have "\<not> isl (capture_interface (wd_replies world_example) info_example (fst (sensor_set_options sensor_init options_example)))"
    by (simp add: capture_interface_def opts_of_def options_example_def device_eth0_string interface_info_unchecked
        world_example_def sensor_set_options_def sensor_init_def)
  moreover have "currentAddress ''eth0'' (wd_addr6 world_example) (wd_addr4 world_example) [0, 0] =
      Inr (setAddr4 (inet_unspec [0, 0]) (replicate 4 0))"
    by (simp add: currentAddress_def world_example_def get_current_address_def ifr_name_def ifr_address_def mem_read_def)
  moreover have "device_string (ob_device (so_balancing options_example)) = Inr ''eth0''"
    by (simp add: options_example_def device_eth0_string)
  ultimately show ?thesis
    using peer_endpoint by (auto simp: equipped_def address_found_def host_example_def setAddr4_def)
      (simp_all add: world_example_def answers_ok_def)
qed

theorem supervisor_restarts_witness:
  "forking (map (\<lambda>h. InParent (run_sensor h arguments_example = Some (Inr ()))) [host_example, host_example]) = Waiting"
  using supervisor_restarts [OF arguments_example_options, of False "[host_example, host_example]"] host_example_equipped
  by (simp add: arguments_example_def)

lemma fd_open_0: "t 0 = None \<Longrightarrow> fd_open exists name t = (if exists name then (t(0 := Some name), 0) else (t, -1))"
  by (simp add: fd_open_def upt_conv_Cons [of 0 1024])

text \<open>What a detached daemon writes to. It is detached only as the child of a fork with a
  session of its own. If \<open>log.txt\<close> is there, it becomes descriptors 0 and 1; otherwise both are
  closed; descriptor 2, the standard error, is closed in any case, and the others stay as they were.\<close>

theorem detach_descriptors:
  "case detach pid setsid exists p of (p', r) \<Rightarrow>
     (r = RunChild \<longleftrightarrow> pid = InChild \<and> 0 \<le> setsid) \<and>
     ps_signals p' = ps_signals p \<and>
     (if r = RunChild
      then ps_fds p' = (\<lambda>n. if n = 0 \<or> n = 1 then (if exists ''log.txt'' then Some ''log.txt'' else None)
                             else if n = 2 then None else ps_fds p n) \<and> ps_umask p' = Some 0
      else ps_fds p' = ps_fds p)"
  by (auto simp: detach_def fd_open_0 fd_close_def fd_dup2_def fun_eq_iff Let_def split: fork_result.split)

end
