(* ===== verification/KvsetMemory.thy ===== *)
theory KvsetMemory
  imports Frontend "HOL-Library.Multiset"
begin

text \<open>
  The memory of \<open>kvset.c\<close>: the blocks that \<open>InitKVS\<close> and \<open>AddKVS\<close> allocate and \<open>DestroyKVS\<close>
  frees. An entry's two blocks are named by its section and its number there, the oldest 0.
\<close>

datatype block =
    SetBlock
  | SectionsBlock
  | ValuesBlock
  | SectionName nat
  | EntryName nat nat
  | EntryBlock nat nat

definition InitKVS_blocks :: "string list option \<Rightarrow> nat \<Rightarrow> block list" where
  "InitKVS_blocks sections cnt =
     (if cnt \<noteq> 0 \<and> sections \<noteq> None
      then [SetBlock, ValuesBlock, SectionsBlock] @ map SectionName [0..<cnt]
      else [SetBlock, ValuesBlock])"

definition entries :: "'p kvset \<Rightarrow> nat \<Rightarrow> nat" where
  "entries self sec = (case kv_values self of None \<Rightarrow> 0 | Some vs \<Rightarrow> length (vs ! sec))"

definition AddKVS_blocks :: "'p kvset \<Rightarrow> nat \<Rightarrow> block list" where
  "AddKVS_blocks self sec = [EntryBlock sec (entries self sec), EntryName sec (entries self sec)]"

fun add_all_blocks :: "(nat \<times> kvs_type \<times> string \<times> 'p) list \<Rightarrow> 'p kvset \<Rightarrow> block list" where
  "add_all_blocks [] kvs = []"
| "add_all_blocks ((sec, type, name, ptr) # xs) kvs =
     AddKVS_blocks kvs sec @
     (case AddKVS kvs sec type name ptr of Inl _ \<Rightarrow> [] | Inr kvs \<Rightarrow> add_all_blocks xs kvs)"

text \<open>What \<open>DestroyKVS\<close> frees, in order; a missing array of sections is followed for the first name.\<close>

fun free_entries :: "nat \<Rightarrow> 'p kv_entry list \<Rightarrow> block list" where
  "free_entries i [] = []"
| "free_entries i (current # next) = EntryName i (length next) # EntryBlock i (length next) # free_entries i next"

fun free_sections :: "nat \<Rightarrow> nat \<Rightarrow> 'p kv_entry list list \<Rightarrow> block list" where
  "free_sections i 0 vs = []"
| "free_sections i (Suc n) vs = SectionName i # free_entries i (vs ! i) @ free_sections (Suc i) n vs"

definition DestroyKVS :: "'p kvset \<Rightarrow> block list result" where
  "DestroyKVS self =
     (if kv_count self = 0 then Inr [ValuesBlock, SetBlock]
      else
        (case (kv_sections self, kv_values self) of
           (Some ss, Some vs) \<Rightarrow> Inr (free_sections 0 (kv_count self) vs @ [SectionsBlock, ValuesBlock, SetBlock])
         | _ \<Rightarrow> Inl NullDeref))"

section \<open>Every block once\<close>

lemma free_sections_mset:
  "mset (free_sections i n vs) = (\<Sum>j\<in>{i..<i + n}. add_mset (SectionName j) (mset (free_entries j (vs ! j))))"
proof (induction n arbitrary: i)
  case (Suc n)
  have "{i..<i + Suc n} = insert i {Suc i..<Suc i + n}" by auto
  then show ?case using Suc [of "Suc i"] by simp
qed simp

lemma free_sections_add:
  assumes "sec < n" "n \<le> length vs"
  shows "mset (free_sections 0 n (vs[sec := e # vs ! sec])) =
    mset (free_sections 0 n vs) + {#EntryName sec (length (vs ! sec)), EntryBlock sec (length (vs ! sec))#}"
proof -
  let ?g = "\<lambda>vs j. add_mset (SectionName j) (mset (free_entries j ((vs :: 'a kv_entry list list) ! j)))"
  have "(\<Sum>j\<in>{0..<n}. ?g vs' j) = ?g vs' sec + (\<Sum>j\<in>{0..<n} - {sec}. ?g vs' j)" for vs'
    using assms(1) by (intro sum.remove) simp_all
  moreover have "(\<Sum>j\<in>{0..<n} - {sec}. ?g (vs[sec := e # vs ! sec]) j) = (\<Sum>j\<in>{0..<n} - {sec}. ?g vs j)"
    by (intro sum.cong) auto
  ultimately show ?thesis using assms by (simp add: free_sections_mset)
qed

text \<open>A set with its arrays, as \<open>InitKVS\<close> makes it for sections.\<close>

definition kvs_arrays :: "'p kvset \<Rightarrow> bool" where
  "kvs_arrays self \<longleftrightarrow> kv_count self \<noteq> 0 \<and> kv_sections self \<noteq> None \<and>
     (\<exists>vs. kv_values self = Some vs \<and> length vs = kv_count self)"

definition freed :: "'p kvset \<Rightarrow> block multiset" where
  "freed self = (case DestroyKVS self of Inl _ \<Rightarrow> {#} | Inr bs \<Rightarrow> mset bs)"

lemma AddKVS_arrays:
  assumes "kvs_arrays self" "AddKVS self sec type name ptr = Inr self'"
  shows "kvs_arrays self'" "freed self' = freed self + mset (AddKVS_blocks self sec)"
proof -
  obtain ss vs where s: "kv_sections self = Some ss" "kv_values self = Some vs" "length vs = kv_count self"
    "kv_count self \<noteq> 0"
    using assms(1) by (auto simp: kvs_arrays_def)
  have sec: "sec < length vs"
    and self': "self' = self\<lparr>kv_values := Some (vs[sec := \<lparr>kv_type = type, kv_name = name, kv_content = ptr\<rparr> # vs ! sec])\<rparr>"
    using assms(2) s by (auto simp: AddKVS_def split: if_splits)
  show "kvs_arrays self'" using s self' by (simp add: kvs_arrays_def)
  show "freed self' = freed self + mset (AddKVS_blocks self sec)"
    using s sec by (simp add: self' freed_def DestroyKVS_def AddKVS_blocks_def entries_def free_sections_add)
qed

lemma add_all_freed:
  "kvs_arrays self \<Longrightarrow> add_all xs self = Inr self' \<Longrightarrow>
   kvs_arrays self' \<and> freed self' = freed self + mset (add_all_blocks xs self)"
proof (induction xs self rule: add_all.induct)
  case (2 sec type name ptr xs kvs)
  then obtain kvs1 where "AddKVS kvs sec type name ptr = Inr kvs1" "add_all xs kvs1 = Inr self'"
    by (auto simp: rbind_eq_Inr_iff)
  with 2 AddKVS_arrays [of kvs sec type name ptr kvs1] show ?case by (simp add: ac_simps)
qed simp


lemma InitKVS_arrays:
  assumes "ss \<noteq> []"
  shows "kvs_arrays (InitKVS (Some ss) (length ss))"
    "freed (InitKVS (Some ss) (length ss) :: 'p kvset) = mset (InitKVS_blocks (Some ss) (length ss))"
proof -
  have "free_sections i n (replicate m ([] :: 'p kv_entry list)) = map SectionName [i..<i + n]" if "i + n \<le> m" for i n m
    using that by (induction n arbitrary: i) (simp_all add: upt_conv_Cons)
  from this [of 0 "length ss" "length ss"] show
    "freed (InitKVS (Some ss) (length ss) :: 'p kvset) = mset (InitKVS_blocks (Some ss) (length ss))"
    using assms by (simp add: freed_def DestroyKVS_def InitKVS_def InitKVS_blocks_def)
  show "kvs_arrays (InitKVS (Some ss) (length ss))"
    using assms by (simp add: kvs_arrays_def InitKVS_def)
qed

lemma free_entries_blocks:
  "distinct (free_entries i es)"
  "b \<in> set (free_entries i es) \<longleftrightarrow> (\<exists>k < length es. b = EntryName i k \<or> b = EntryBlock i k)"
proof -
  have blocks: "b \<in> set (free_entries i es) \<longleftrightarrow> (\<exists>k < length es. b = EntryName i k \<or> b = EntryBlock i k)" for b es
    by (induction es) (auto simp: less_Suc_eq)
  show "b \<in> set (free_entries i es) \<longleftrightarrow> (\<exists>k < length es. b = EntryName i k \<or> b = EntryBlock i k)" by (rule blocks)
  show "distinct (free_entries i es)"
  proof (induction es)
    case (Cons e es)
    then show ?case by (simp add: blocks)
  qed simp
qed

lemma free_sections_distinct:
  "distinct (free_sections i n vs) \<and>
   (\<forall>b\<in>set (free_sections i n vs). \<exists>j k. i \<le> j \<and> (b = SectionName j \<or> b = EntryName j k \<or> b = EntryBlock j k))"
proof (induction n arbitrary: i)
  case (Suc n)
  have later: "\<exists>j k. Suc i \<le> j \<and> (b = SectionName j \<or> b = EntryName j k \<or> b = EntryBlock j k)"
    if "b \<in> set (free_sections (Suc i) n vs)" for b
    using Suc [of "Suc i"] that by blast
  have "SectionName i \<notin> set (free_sections (Suc i) n vs)"
    "set (free_entries i (vs ! i)) \<inter> set (free_sections (Suc i) n vs) = {}"
    using later by (fastforce simp: free_entries_blocks(2))+
  then show ?case
    using Suc [of "Suc i"] by (auto simp: free_entries_blocks)
qed simp

section \<open>Properties\<close>

text \<open>C40. \<open>DestroyKVS\<close> frees what there is. For a set made for some sections, with any entries added, it
  frees every block that \<open>InitKVS\<close> and \<open>AddKVS\<close> have allocated, and none of them twice.\<close>

theorem destroy_frees_all:
  assumes "ss \<noteq> []" and "add_all xs (InitKVS (Some ss) (length ss)) = Inr kvs"
  shows "\<exists>bs. DestroyKVS kvs = Inr bs \<and> distinct bs \<and>
    mset bs = mset (InitKVS_blocks (Some ss) (length ss) @ add_all_blocks xs (InitKVS (Some ss) (length ss)))"
proof -
  have k: "kvs_arrays kvs"
    "freed kvs = mset (InitKVS_blocks (Some ss) (length ss) @ add_all_blocks xs (InitKVS (Some ss) (length ss)))"
    using add_all_freed [OF InitKVS_arrays(1) [OF assms(1)] assms(2)] InitKVS_arrays(2) [OF assms(1)] by simp_all
  then obtain st vs where "kv_count kvs \<noteq> 0" "kv_sections kvs = Some st" "kv_values kvs = Some vs"
    by (auto simp: kvs_arrays_def)
  then have "DestroyKVS kvs = Inr (free_sections 0 (kv_count kvs) vs @ [SectionsBlock, ValuesBlock, SetBlock])"
    by (simp add: DestroyKVS_def)
  then show ?thesis
    using k(2) free_sections_distinct [of 0 "kv_count kvs" vs] by (auto simp: freed_def)
qed

theorem destroy_frees_all_witness:
  "\<exists>bs. DestroyKVS registered = Inr bs \<and> distinct bs \<and> length bs = 59"
proof -
  have len: "length (InitKVS_blocks (Some config_sections) 6 @ add_all_blocks config_table (InitKVS (Some config_sections) 6)) = 59"
    by (simp add: InitKVS_blocks_def config_table_def config_sections_def InitKVS_def AddKVS_def AddKVS_blocks_def entries_def)
  have six: "length config_sections = 6" "config_sections \<noteq> []" by (simp_all add: config_sections_def)
  from destroy_frees_all [OF six(2), of config_table registered] obtain bs where
    "DestroyKVS registered = Inr bs" "distinct bs"
    "mset bs = mset (InitKVS_blocks (Some config_sections) 6 @ add_all_blocks config_table (InitKVS (Some config_sections) 6))"
    using add_all_table six(1) by auto
  then show ?thesis using len by (metis size_mset)
qed

end
