(* ===== verification/Watcher.thy ===== *)
theory Watcher
  imports CircularBuffer
begin

text \<open>
  \<open>service/sensor_watcher.cpp\<close>: a session on a socket with two ring buffers and a libev watcher, whose
  read and write callbacks are still empty. A watcher object that was deleted is \<open>None\<close>.
\<close>

definition EV_READ :: u32 where "EV_READ = 1"
definition EV_WRITE :: u32 where "EV_WRITE = 2"
definition EV_ERROR :: u32 where "EV_ERROR = 0x80000000"

text \<open>\<open>ev::io\<close>: \<open>set\<close> with one argument is the one that changes the events and keeps the
  descriptor; \<open>io_fd\<close> is what the memory held.\<close>

record ev_io =
  io_fd :: "int option"
  io_events :: int
  io_active :: bool

definition io_set :: "int \<Rightarrow> ev_io \<Rightarrow> ev_io" where
  "io_set events w = w\<lparr>io_events := events\<rparr>"

record sensor_watcher =
  sw_context :: nat
  sw_fd :: int
  net_watcher :: ev_io
  inbuf :: circ
  outbuf :: circ

definition createInstance :: "nat \<Rightarrow> int \<Rightarrow> byte list \<Rightarrow> byte list \<Rightarrow> sensor_watcher" where
  "createInstance sc sock junk_in junk_out =
     (let w = \<lparr>sw_context = sc, sw_fd = sock, net_watcher = \<lparr>io_fd = None, io_events = 0, io_active = False\<rparr>,
               inbuf = circ_new (take 4096 junk_in), outbuf = circ_new (take 4096 junk_out)\<rparr>;
          w = w\<lparr>net_watcher := io_set (sw_fd w) (net_watcher w)\<rparr>
      in w\<lparr>net_watcher := io_set (uint EV_READ) (net_watcher w)\<rparr>)"

text \<open>\<open>ev_io_start\<close> on the descriptor of the watcher.\<close>

definition watcher_start :: "sensor_watcher \<Rightarrow> sensor_watcher result" where
  "watcher_start w =
     (case io_fd (net_watcher w) of None \<Rightarrow> Inl Uninitialised
      | Some _ \<Rightarrow> Inr (w\<lparr>net_watcher := (net_watcher w)\<lparr>io_active := True\<rparr>\<rparr>))"

definition watcher_stop :: "sensor_watcher \<Rightarrow> sensor_watcher" where
  "watcher_stop w = w\<lparr>net_watcher := (net_watcher w)\<lparr>io_active := False\<rparr>\<rparr>"

definition read_callback :: "sensor_watcher \<Rightarrow> sensor_watcher" where
  "read_callback w = w"

definition write_callback :: "sensor_watcher \<Rightarrow> sensor_watcher" where
  "write_callback w = w"

definition on_object :: "(sensor_watcher \<Rightarrow> sensor_watcher) \<Rightarrow> sensor_watcher option \<Rightarrow> sensor_watcher option result" where
  "on_object f this = (case this of None \<Rightarrow> Inl UseAfterFree | Some w \<Rightarrow> Inr (Some (f w)))"

definition watcher_callback :: "u32 \<Rightarrow> sensor_watcher \<Rightarrow> sensor_watcher option result" where
  "watcher_callback events w =
     (let this = (if EV_ERROR AND events \<noteq> 0 then None else Some w) in
      rbind (if events AND EV_READ \<noteq> 0 then on_object read_callback this else Inr this) (\<lambda>this.
      if events AND EV_WRITE \<noteq> 0 then on_object write_callback this else Inr this))"

text \<open>libev reports an error together with the events waited for: the callback deletes the object and
  goes on to call it.\<close>

lemma error_uses_deleted: "watcher_callback (EV_ERROR OR EV_READ OR EV_WRITE) w = Inl UseAfterFree"
  by (simp add: watcher_callback_def on_object_def EV_ERROR_def EV_READ_def EV_WRITE_def)

lemma callback_reads_nothing: "events = EV_READ \<or> events = EV_WRITE \<Longrightarrow> watcher_callback events w = Inr (Some w)"
  by (auto simp: watcher_callback_def on_object_def read_callback_def write_callback_def EV_ERROR_def EV_READ_def EV_WRITE_def)

text \<open>A watcher is started on a descriptor that nobody has set.\<close>

lemma started_without_descriptor: "watcher_start (createInstance sc sock a b) = Inl Uninitialised"
  by (simp add: watcher_start_def createInstance_def io_set_def)

end
