(* ===== verification/RwLock.thy ===== *)
theory RwLock
  imports Prelude
begin

text \<open>
  \<open>threading.hpp\<close>, and what an object promises whose operations run under an \<open>RwLock\<close> from
  their first to their last access: threads that call it in any interleaving of their single
  accesses see it as if each operation ran at once. Operations and accesses are parameters;
  their laws are the locale \<open>guarded\<close>.
\<close>

section \<open>Locks\<close>

text \<open>\<open>None\<close> where the calling thread has to wait. Threads are numbers.\<close>

definition lock_aquire :: "nat \<Rightarrow> nat option \<Rightarrow> nat option option" where
  "lock_aquire i k = (if k = None then Some (Some i) else None)"

definition lock_release :: "nat option \<Rightarrow> nat option" where
  "lock_release k = None"

record rwlock =
  rw_writer :: "nat option"
  rw_readers :: "nat set"

definition rwlock_new :: rwlock where
  "rwlock_new = \<lparr>rw_writer = None, rw_readers = {}\<rparr>"

definition lockRead :: "nat \<Rightarrow> rwlock \<Rightarrow> rwlock option" where
  "lockRead i k = (if rw_writer k = None then Some (k\<lparr>rw_readers := insert i (rw_readers k)\<rparr>) else None)"

definition lockWrite :: "nat \<Rightarrow> rwlock \<Rightarrow> rwlock option" where
  "lockWrite i k =
     (if rw_writer k = None \<and> rw_readers k = {} then Some (k\<lparr>rw_writer := Some i\<rparr>) else None)"

definition rw_release :: "nat \<Rightarrow> rwlock \<Rightarrow> rwlock" where
  "rw_release i k =
     (if rw_writer k = Some i then k\<lparr>rw_writer := None\<rparr> else k\<lparr>rw_readers := rw_readers k - {i}\<rparr>)"

section \<open>Threads\<close>

text \<open>Where a thread is: outside, at the lock with its call, or inside with the locals of its call.\<close>

datatype ('c, 'l) place = Idle | Calling 'c | Inside 'c 'l

record ('c, 'l, 's, 'r) system =
  sy_lock :: rwlock
  sy_data :: 's
  sy_place :: "nat \<Rightarrow> ('c, 'l) place"
  sy_hist :: "(nat \<times> 'c \<times> 'r) list"

definition system_new :: "'s \<Rightarrow> ('c, 'l, 's, 'r) system" where
  "system_new d = \<lparr>sy_lock = rwlock_new, sy_data = d, sy_place = (\<lambda>_. Idle), sy_hist = []\<rparr>"

definition moves :: "nat \<Rightarrow> ('c, 'l) place \<Rightarrow> ('c, 'l, 's, 'r) system \<Rightarrow> ('c, 'l, 's, 'r) system" where
  "moves i p s = s\<lparr>sy_place := (sy_place s)(i := p)\<rparr>"

inductive guarded_step ::
  "('c \<Rightarrow> bool) \<Rightarrow> ('c \<Rightarrow> 'l) \<Rightarrow> ('c \<Rightarrow> 'l \<Rightarrow> 's \<Rightarrow> 'l \<times> 's) \<Rightarrow> ('l \<Rightarrow> 'r option) \<Rightarrow>
   ('c, 'l, 's, 'r) system \<Rightarrow> ('c, 'l, 's, 'r) system \<Rightarrow> bool"
  for reads start act result where
  step_call: "sy_place s i = Idle \<Longrightarrow> guarded_step reads start act result s (moves i (Calling c) s)"
| step_enter: "sy_place s i = Calling c \<Longrightarrow> (if reads c then lockRead i else lockWrite i) (sy_lock s) = Some k \<Longrightarrow>
    guarded_step reads start act result s ((moves i (Inside c (start c)) s)\<lparr>sy_lock := k\<rparr>)"
| step_access: "sy_place s i = Inside c l \<Longrightarrow> result l = None \<Longrightarrow> act c l (sy_data s) = (l', d) \<Longrightarrow>
    guarded_step reads start act result s ((moves i (Inside c l') s)\<lparr>sy_data := d\<rparr>)"
| step_leave: "sy_place s i = Inside c l \<Longrightarrow> result l = Some r \<Longrightarrow>
    guarded_step reads start act result s
      ((moves i Idle s)\<lparr>sy_lock := rw_release i (sy_lock s), sy_hist := sy_hist s @ [(i, c, r)]\<rparr>)"

inductive_cases guarded_stepE: "guarded_step reads start act result s s'"

text \<open>An operation run alone, access by access, until it has its result.\<close>

definition alone :: "('c \<Rightarrow> 'l \<Rightarrow> 's \<Rightarrow> 'l \<times> 's) \<Rightarrow> ('l \<Rightarrow> 'r option) \<Rightarrow> 'c \<Rightarrow> 'l \<times> 's \<Rightarrow> 'l \<times> 's" where
  "alone act result c = (\<lambda>(l, s). if result l = None then act c l s else (l, s))"

text \<open>A history run one operation after the other: what it leaves, and whether its results are right.\<close>

definition serial :: "('c \<Rightarrow> 's \<Rightarrow> 's \<times> 'r) \<Rightarrow> 's \<Rightarrow> (nat \<times> 'c \<times> 'r) list \<Rightarrow> 's" where
  "serial run s h = foldl (\<lambda>s (i, c, r). fst (run c s)) s h"

fun legal :: "('c \<Rightarrow> 's \<Rightarrow> 's \<times> 'r) \<Rightarrow> 's \<Rightarrow> (nat \<times> 'c \<times> 'r) list \<Rightarrow> bool" where
  "legal run s [] = True"
| "legal run s ((i, c, r) # h) = (snd (run c s) = r \<and> legal run (fst (run c s)) h)"

lemma serial_append [simp]: "serial run s (h @ [(i, c, r)]) = fst (run c (serial run s h))"
  by (simp add: serial_def)

lemma serial_Nil [simp]: "serial run s [] = s"
  by (simp add: serial_def)

lemma legal_append [simp]: "legal run s (h @ [(i, c, r)]) \<longleftrightarrow> legal run s h \<and> snd (run c (serial run s h)) = r"
  by (induction run s h rule: legal.induct) (simp_all add: serial_def)

text \<open>Who holds the lock is who is inside.\<close>

definition holders_ok :: "('c \<Rightarrow> bool) \<Rightarrow> ('c, 'l, 's, 'r) system \<Rightarrow> bool" where
  "holders_ok reads s \<longleftrightarrow>
     (\<forall>i. rw_writer (sy_lock s) = Some i \<longleftrightarrow> (\<exists>c l. sy_place s i = Inside c l \<and> \<not> reads c)) \<and>
     (\<forall>i. i \<in> rw_readers (sy_lock s) \<longleftrightarrow> (\<exists>c l. sy_place s i = Inside c l \<and> reads c)) \<and>
     (rw_writer (sy_lock s) \<noteq> None \<longrightarrow> rw_readers (sy_lock s) = {}) \<and> finite {i. sy_place s i \<noteq> Idle}"

lemma moves_simps [simp]:
  "sy_place (moves i p s) = (sy_place s)(i := p)" "sy_lock (moves i p s) = sy_lock s"
  "sy_data (moves i p s) = sy_data s" "sy_hist (moves i p s) = sy_hist s"
  by (simp_all add: moves_def)

lemma holders_writer:
  assumes "holders_ok reads s" "sy_place s i = Inside c l" "\<not> reads c"
  shows "rw_writer (sy_lock s) = Some i"
  using assms unfolding holders_ok_def by blast

lemma holders_reader:
  assumes "holders_ok reads s" "sy_place s i = Inside c l" "reads c"
  shows "rw_writer (sy_lock s) = None" "i \<in> rw_readers (sy_lock s)"
proof -
  show "i \<in> rw_readers (sy_lock s)" using assms unfolding holders_ok_def by blast
  then show "rw_writer (sy_lock s) = None" using assms(1) unfolding holders_ok_def by blast
qed

lemma holders_alone:
  assumes "holders_ok reads s" "sy_place s i = Inside c l" "\<not> reads c" "sy_place s j = Inside c' l'"
  shows "j = i"
proof (cases "reads c'")
  case True
  then show ?thesis using holders_reader [OF assms(1,4)] holders_writer [OF assms(1-3)] by simp
next
  case False
  then show ?thesis using holders_writer [OF assms(1,4)] holders_writer [OF assms(1-3)] by simp
qed

lemma holders_new: "holders_ok reads (system_new d)"
  by (simp add: holders_ok_def system_new_def rwlock_new_def)

lemma finite_moves:
  "finite {i. sy_place s i \<noteq> Idle} \<Longrightarrow> finite {j. ((sy_place s)(i := p)) j \<noteq> Idle}"
  by (rule finite_subset [of _ "insert i {i. sy_place s i \<noteq> Idle}"]) auto

lemma holders_step:
  assumes "guarded_step reads start act result s s'" "holders_ok reads s"
  shows "holders_ok reads s'"
proof -
  have fin: "finite {j. ((sy_place s)(i := p)) j \<noteq> Idle}" for i p
    using assms(2) by (intro finite_moves) (simp add: holders_ok_def)
  from assms(1) show ?thesis
  proof (cases rule: guarded_step.cases)
    case (step_call i c)
    then show ?thesis using assms(2) fin [of i "Calling c"] by (auto simp: holders_ok_def)
  next
    case (step_enter i c k)
    then show ?thesis
      using assms(2) fin [of i "Inside c (start c)"]
      by (auto simp: holders_ok_def lockRead_def lockWrite_def split: if_splits) metis+
  next
    case (step_access i c l l' d)
    then show ?thesis using assms(2) fin [of i "Inside c l'"] by (auto simp: holders_ok_def)
  next
    case (step_leave i c l r)
    show ?thesis
    proof (cases "reads c")
      case True
      then have "rw_writer (sy_lock s) = None" using holders_reader [OF assms(2) step_leave(2)] by simp
      then show ?thesis
        using step_leave True assms(2) fin [of i Idle] unfolding holders_ok_def rw_release_def by simp
    next
      case False
      have w: "rw_writer (sy_lock s) = Some i" by (rule holders_writer [OF assms(2) step_leave(2) False])
      have others: "sy_place s j \<noteq> Inside c' l'" if "j \<noteq> i" for j c' l'
        using holders_alone [OF assms(2) step_leave(2) False] that by blast
      have "rw_readers (sy_lock s) = {}" using assms(2) w unfolding holders_ok_def by blast
      then show ?thesis
        using step_leave(1) w others fin [of i Idle] unfolding holders_ok_def rw_release_def by simp
    qed
  qed
qed

section \<open>Objects behind a lock\<close>

text \<open>A reader's accesses write nothing; an operation run alone on a good object comes to its result, and
  leaves a good object. \<open>ok n\<close> is a good object after \<open>n\<close> operations, \<open>limit\<close> bounds their number.\<close>

locale guarded =
  fixes reads :: "'c \<Rightarrow> bool"
    and start :: "'c \<Rightarrow> 'l"
    and act :: "'c \<Rightarrow> 'l \<Rightarrow> 's \<Rightarrow> 'l \<times> 's"
    and result :: "'l \<Rightarrow> 'r option"
    and run :: "'c \<Rightarrow> 's \<Rightarrow> 's \<times> 'r"
    and ok :: "nat \<Rightarrow> 's \<Rightarrow> bool"
    and limit :: nat
  assumes reader: "reads c \<Longrightarrow> snd (act c l s) = s"
    and completes: "ok n s \<Longrightarrow> n < limit \<Longrightarrow>
      \<exists>m l. (alone act result c ^^ m) (start c, s) = (l, fst (run c s)) \<and> result l = Some (snd (run c s))"
    and keeps: "ok n s \<Longrightarrow> n < limit \<Longrightarrow> ok (Suc n) (fst (run c s))"
begin

abbreviation step :: "('c, 'l, 's, 'r) system \<Rightarrow> ('c, 'l, 's, 'r) system \<Rightarrow> bool" where
  "step \<equiv> guarded_step reads start act result"

abbreviation steps :: "('c, 'l, 's, 'r) system \<Rightarrow> ('c, 'l, 's, 'r) system \<Rightarrow> bool" where
  "steps \<equiv> step\<^sup>*\<^sup>*"

abbreviation once :: "'c \<Rightarrow> nat \<Rightarrow> 'l \<times> 's \<Rightarrow> 'l \<times> 's" where
  "once c m \<equiv> alone act result c ^^ m"

lemma once_stays: "result (fst x) \<noteq> None \<Longrightarrow> once c m x = x"
proof (induction m)
  case (Suc m)
  then show ?case by (cases x) (auto simp: alone_def)
qed simp

lemma once_add: "once c (m + k) x = once c m (once c k x)"
  by (simp add: funpow_add)

text \<open>The end of a run does not depend on the number of accesses given.\<close>

lemma once_final:
  assumes "once c m x = (l, s)" "result l \<noteq> None" "once c m' x = (l', s')" "result l' \<noteq> None"
  shows "l' = l \<and> s' = s"
proof (cases "m \<le> m'")
  case True
  then have "once c m' x = once c (m' - m) (l, s)" using once_add [of "m' - m" m c x] assms(1) by simp
  then show ?thesis using once_stays [of "(l, s)"] assms(2,3) by simp
next
  case False
  then have "once c m x = once c (m - m') (l', s')" using once_add [of "m - m'" m' c x] assms(3) by simp
  then show ?thesis using once_stays [of "(l', s')"] assms(1,4) by simp
qed

text \<open>The object before the operations in progress is that of the history; whoever is inside has made
  some of its accesses from there.\<close>

definition inv :: "'s \<Rightarrow> ('c, 'l, 's, 'r) system \<Rightarrow> bool" where
  "inv s0 s \<longleftrightarrow> holders_ok reads s \<and> legal run s0 (sy_hist s) \<and>
     ok (length (sy_hist s)) (serial run s0 (sy_hist s)) \<and>
     (rw_writer (sy_lock s) = None \<longrightarrow> sy_data s = serial run s0 (sy_hist s)) \<and>
     (\<forall>i c l. sy_place s i = Inside c l \<longrightarrow>
        (\<exists>m. once c m (start c, serial run s0 (sy_hist s)) = (l, sy_data s)))"

lemma inv_new: "ok 0 s0 \<Longrightarrow> inv s0 (system_new s0)"
  using holders_new [of reads s0] by (simp add: inv_def system_new_def rwlock_new_def)

lemma inv_holders: "inv s0 s \<Longrightarrow> holders_ok reads s"
  by (simp add: inv_def)

lemma inv_inside:
  "inv s0 s \<Longrightarrow> sy_place s i = Inside c l \<Longrightarrow> \<exists>m. once c m (start c, serial run s0 (sy_hist s)) = (l, sy_data s)"
  unfolding inv_def by blast

lemma inv_reader:
  assumes "inv s0 s" "sy_place s i = Inside c l" "reads c"
  shows "rw_writer (sy_lock s) = None" "sy_data s = serial run s0 (sy_hist s)"
proof -
  show "rw_writer (sy_lock s) = None" by (rule holders_reader(1) [where reads = reads, OF inv_holders [OF assms(1)] assms(2,3)])
  then show "sy_data s = serial run s0 (sy_hist s)" using assms(1) by (simp add: inv_def)
qed

lemmas inv_writer = holders_writer [OF inv_holders]
lemmas inv_alone = holders_alone [OF inv_holders]

lemma inv_enter:
  assumes inv: "inv s0 s" and st: "step s ((moves i (Inside c (start c)) s)\<lparr>sy_lock := k\<rparr>)"
    and c: "sy_place s i = Calling c" "(if reads c then lockRead i else lockWrite i) (sy_lock s) = Some k"
  shows "inv s0 ((moves i (Inside c (start c)) s)\<lparr>sy_lock := k\<rparr>)"
proof -
  have "rw_writer (sy_lock s) = None"
    using c(2) by (auto simp: lockRead_def lockWrite_def split: if_splits)
  then have "sy_data s = serial run s0 (sy_hist s)" using inv by (simp add: inv_def)
  moreover have "\<exists>m. once c m (start c, d) = (start c, d)" for d by (rule exI [of _ 0]) simp
  ultimately show ?thesis
    using inv holders_step [OF st inv_holders [OF inv]] by (simp add: inv_def)
qed

lemma inv_access:
  assumes inv: "inv s0 s" and st: "step s ((moves i (Inside c l') s)\<lparr>sy_data := d\<rparr>)"
    and c: "sy_place s i = Inside c l" "result l = None" "act c l (sy_data s) = (l', d)"
  shows "inv s0 ((moves i (Inside c l') s)\<lparr>sy_data := d\<rparr>)"
proof -
  let ?A = "serial run s0 (sy_hist s)"
  obtain m where m: "once c m (start c, ?A) = (l, sy_data s)" using inv_inside [OF inv c(1)] by blast
  have "once c (Suc m) (start c, ?A) = (l', d)" using m c(2,3) by (simp add: alone_def)
  then have own: "\<exists>m. once c m (start c, ?A) = (l', d)" by blast
  have holders: "holders_ok reads ((moves i (Inside c l') s)\<lparr>sy_data := d\<rparr>)"
    using holders_step [OF st] inv by (simp add: inv_def)
  show ?thesis
  proof (cases "reads c")
    case True
    then have "d = sy_data s" using reader [OF True, of l "sy_data s"] c(3) by simp
    then show ?thesis using inv own holders by (simp add: inv_def)
  next
    case False
    have "sy_place s j \<noteq> Inside c' l''" if "j \<noteq> i" for j c' l''
      using inv_alone [OF inv c(1) False] that by blast
    then show ?thesis using inv own holders inv_writer [OF inv c(1) False] by (simp add: inv_def)
  qed
qed

lemma inv_leave:
  assumes inv: "inv s0 s" and n: "length (sy_hist s) < limit"
    and st: "step s ((moves i Idle s)\<lparr>sy_lock := rw_release i (sy_lock s), sy_hist := sy_hist s @ [(i, c, r)]\<rparr>)"
    and c: "sy_place s i = Inside c l" "result l = Some r"
  shows "inv s0 ((moves i Idle s)\<lparr>sy_lock := rw_release i (sy_lock s), sy_hist := sy_hist s @ [(i, c, r)]\<rparr>)"
proof -
  let ?A = "serial run s0 (sy_hist s)"
  have ok: "ok (length (sy_hist s)) ?A" using inv by (simp add: inv_def)
  obtain m where m: "once c m (start c, ?A) = (l, sy_data s)" using inv_inside [OF inv c(1)] by blast
  obtain m' l0 where "once c m' (start c, ?A) = (l0, fst (run c ?A))" "result l0 = Some (snd (run c ?A))"
    using completes [OF ok n] by blast
  with once_final [OF m _ this(1)] c(2) have run: "fst (run c ?A) = sy_data s" "snd (run c ?A) = r" by auto
  have ok': "ok (Suc (length (sy_hist s))) (sy_data s)" using keeps [OF ok n, of c] run by simp
  have holders: "holders_ok reads ((moves i Idle s)\<lparr>sy_lock := rw_release i (sy_lock s), sy_hist := sy_hist s @ [(i, c, r)]\<rparr>)"
    using holders_step [OF st] inv by (simp add: inv_def)
  have leg: "legal run s0 (sy_hist s)" using inv by (simp add: inv_def)
  show ?thesis
  proof (cases "reads c")
    case True
    have "sy_data s = ?A" by (rule inv_reader(2) [OF inv c(1) True])
    then show ?thesis using inv run ok' holders leg by (simp add: inv_def)
  next
    case False
    have "sy_place s j \<noteq> Inside c' l''" if "j \<noteq> i" for j c' l''
      using inv_alone [OF inv c(1) False] that by blast
    then show ?thesis using run ok' holders leg by (auto simp: inv_def)
  qed
qed

lemma inv_step:
  assumes "step s s'" "inv s0 s" "length (sy_hist s') \<le> limit"
  shows "inv s0 s'"
  using assms(1)
proof (cases rule: guarded_step.cases)
  case (step_call i c)
  then show ?thesis using assms(2) holders_step [OF assms(1)] by (auto simp: inv_def)
next
  case (step_enter i c k)
  then show ?thesis using inv_enter [OF assms(2), where i = i and c = c and k = k] assms(1) by simp
next
  case (step_access i c l l' d)
  then show ?thesis using inv_access [OF assms(2), where i = i and c = c and l = l and l' = l' and d = d] assms(1) by simp
next
  case (step_leave i c l r)
  then show ?thesis using inv_leave [OF assms(2), where i = i and c = c and r = r and l = l] assms(1,3) by simp
qed

lemma step_hist: "step s s' \<Longrightarrow> length (sy_hist s) \<le> length (sy_hist s')"
  by (erule guarded_stepE) simp_all

lemma inv_steps: "steps s s' \<Longrightarrow> inv s0 s \<Longrightarrow> length (sy_hist s') \<le> limit \<Longrightarrow> inv s0 s'"
proof (induction rule: rtranclp_induct)
  case (step s' s'')
  then show ?case using inv_step [OF step.hyps(2)] step_hist [OF step.hyps(2)] by simp
qed

text \<open>Every history is that of its operations run one after the other, in the order in which they left.\<close>

lemma linearizable:
  assumes "ok 0 s0" "steps (system_new s0) s" "length (sy_hist s) \<le> limit"
  shows "legal run s0 (sy_hist s)" "rw_writer (sy_lock s) = None \<Longrightarrow> sy_data s = serial run s0 (sy_hist s)"
  using inv_steps [OF assms(2) inv_new [OF assms(1)] assms(3)] by (simp_all add: inv_def)

text \<open>Nobody is kept waiting for ever: whoever is inside can leave by itself, and whoever is at the
  lock comes in when the others have left.\<close>

lemma access_run:
  "sy_place s i = Inside c l \<Longrightarrow> once c k (l, sy_data s) = (l', d) \<Longrightarrow>
   steps s ((moves i (Inside c l') s)\<lparr>sy_data := d\<rparr>)"
proof (induction k arbitrary: s l)
  case 0
  then have "(moves i (Inside c l') s)\<lparr>sy_data := d\<rparr> = s" by (cases s) (auto simp: moves_def fun_upd_idem)
  then show ?case by simp
next
  case (Suc k)
  show ?case
  proof (cases "result l")
    case None
    obtain l1 d1 where 1: "act c l (sy_data s) = (l1, d1)" by fastforce
    let ?s = "(moves i (Inside c l1) s)\<lparr>sy_data := d1\<rparr>"
    have "once c k (l1, sy_data ?s) = (l', d)"
      using Suc.prems(2) None 1 by (simp add: funpow_Suc_right alone_def del: funpow.simps)
    then have "steps ?s ((moves i (Inside c l') ?s)\<lparr>sy_data := d\<rparr>)" by (intro Suc.IH) simp_all
    moreover have "(moves i (Inside c l') ?s)\<lparr>sy_data := d\<rparr> = (moves i (Inside c l') s)\<lparr>sy_data := d\<rparr>"
      by (simp add: moves_def)
    moreover have "step s ?s"
      by (rule step_access [where l = l]) (use Suc.prems(1) None 1 in simp_all)
    ultimately show ?thesis by (simp add: converse_rtranclp_into_rtranclp)
  next
    case (Some r)
    then have "l' = l" "d = sy_data s" using once_stays [of "(l, sy_data s)" "Suc k" c] Suc.prems(2) by auto
    then have "(moves i (Inside c l') s)\<lparr>sy_data := d\<rparr> = s"
      using Suc.prems(1) by (cases s) (auto simp: moves_def fun_upd_idem)
    then show ?thesis by simp
  qed
qed

lemma inside_finishes:
  assumes inv: "inv s0 s" and i: "sy_place s i = Inside c l" and n: "length (sy_hist s) < limit"
  shows "\<exists>k l' d r. once c k (l, sy_data s) = (l', d) \<and> result l' = Some r"
proof -
  let ?A = "serial run s0 (sy_hist s)"
  obtain m where m: "once c m (start c, ?A) = (l, sy_data s)" using inv_inside [OF inv i] by blast
  have "ok (length (sy_hist s)) ?A" using inv by (simp add: inv_def)
  then obtain m' l' d where m': "once c m' (start c, ?A) = (l', d)" "result l' = Some (snd (run c ?A))"
    using completes n by blast
  show ?thesis
  proof (cases "m \<le> m'")
    case True
    then have "once c (m' - m) (l, sy_data s) = (l', d)" using once_add [of "m' - m" m c] m m'(1) by simp
    then show ?thesis using m'(2) by blast
  next
    case False
    then have "once c m (start c, ?A) = once c (m - m') (l', d)"
      using once_add [of "m - m'" m' c "(start c, ?A)"] m'(1) by simp
    then have "once c 0 (l, sy_data s) = (l', d)" using m once_stays [of "(l', d)"] m'(2) by simp
    then show ?thesis using m'(2) by blast
  qed
qed

lemma inside_leaves:
  assumes inv: "inv s0 s" and i: "sy_place s i = Inside c l" and n: "length (sy_hist s) < limit"
  shows "\<exists>s' r. steps s s' \<and> sy_place s' = (sy_place s)(i := Idle) \<and> sy_hist s' = sy_hist s @ [(i, c, r)]"
proof -
  obtain k l' d r where k: "once c k (l, sy_data s) = (l', d)" "result l' = Some r"
    using inside_finishes [OF assms] by blast
  let ?s1 = "(moves i (Inside c l') s)\<lparr>sy_data := d\<rparr>"
  let ?s2 = "(moves i Idle ?s1)\<lparr>sy_lock := rw_release i (sy_lock ?s1), sy_hist := sy_hist ?s1 @ [(i, c, r)]\<rparr>"
  have "step ?s1 ?s2" by (rule step_leave) (use k in simp_all)
  then have "steps s ?s2" by (rule rtranclp.rtrancl_into_rtrancl [OF access_run [OF i k(1)]])
  moreover have "sy_place ?s2 = (sy_place s)(i := Idle)" "sy_hist ?s2 = sy_hist s @ [(i, c, r)]"
    by simp_all
  ultimately show ?thesis by blast
qed

abbreviation insiders :: "('c, 'l, 's, 'r) system \<Rightarrow> nat set" where
  "insiders s \<equiv> {j. \<exists>c l. sy_place s j = Inside c l}"

lemma insiders_finite:
  assumes "inv s0 s"
  shows "finite (insiders s)"
proof (rule finite_subset)
  show "insiders s \<subseteq> {j. sy_place s j \<noteq> Idle}" by auto
  show "finite {j. sy_place s j \<noteq> Idle}" using inv_holders [OF assms] unfolding holders_ok_def by blast
qed

text \<open>With nobody inside, a call runs from its first to its last step.\<close>

lemma free_when_empty:
  assumes "inv s0 s" "insiders s = {}"
  shows "rw_writer (sy_lock s) = None" "rw_readers (sy_lock s) = {}"
  using inv_holders [OF assms(1)] assms(2) unfolding holders_ok_def by fastforce+

lemma call_goes_through:
  assumes inv: "inv s0 s" and none: "insiders s = {}" and c: "sy_place s i = Calling c" and n: "length (sy_hist s) < limit"
  shows "\<exists>s' r. steps s s' \<and> sy_place s' = (sy_place s)(i := Idle) \<and> sy_hist s' = sy_hist s @ [(i, c, r)]"
proof -
  have "\<exists>k. (if reads c then lockRead i else lockWrite i) (sy_lock s) = Some k"
    using free_when_empty [OF inv none] by (simp add: lockRead_def lockWrite_def)
  then obtain k where k: "(if reads c then lockRead i else lockWrite i) (sy_lock s) = Some k" by blast
  let ?s = "(moves i (Inside c (start c)) s)\<lparr>sy_lock := k\<rparr>"
  have st: "step s ?s" by (rule step_enter) (rule c, rule k)
  have "inv s0 ?s" using inv_step [OF st inv] n by simp
  from inside_leaves [OF this, of i c "start c"] n obtain s' r
    where "steps ?s s'" "sy_place s' = (sy_place s)(i := Idle)" "sy_hist s' = sy_hist s @ [(i, c, r)]" by auto
  then show ?thesis using converse_rtranclp_into_rtranclp [of step, OF st] by blast
qed

lemma call_alone:
  assumes inv: "inv s0 s" and idle: "sy_place s = (\<lambda>_. Idle)" and n: "length (sy_hist s) < limit"
  shows "\<exists>s' r. steps s s' \<and> sy_place s' = (\<lambda>_. Idle) \<and> sy_hist s' = sy_hist s @ [(i, c, r)]"
proof -
  let ?s = "moves i (Calling c) s"
  have st: "step s ?s" by (rule step_call) (simp add: idle)
  have "inv s0 ?s" using inv_step [OF st inv] n by simp
  moreover have "(if x = i then Calling c else Idle) \<noteq> Inside c' l" for x c' l by simp
  ultimately obtain s' r where "steps ?s s'" "sy_place s' = (\<lambda>_. Idle)(i := Idle)" "sy_hist s' = sy_hist s @ [(i, c, r)]"
    using call_goes_through [of s0 ?s i c] idle n by (auto simp del: fun_upd_triv)
  moreover have "(\<lambda>_. Idle)(i := Idle) = (\<lambda>_. Idle)" by (rule fun_upd_triv)
  ultimately show ?thesis using converse_rtranclp_into_rtranclp [of step, OF st] by metis
qed

lemma returns:
  assumes "inv s0 s" "sy_place s i \<noteq> Idle" "length (sy_hist s) + card (insiders s) < limit"
  shows "\<exists>s'. steps s s' \<and> sy_place s' i = Idle"
  using assms
proof (induction "card (insiders s)" arbitrary: s)
  case 0
  have none: "insiders s = {}" using 0(1) insiders_finite [OF 0(2)] by simp
  then obtain c where c: "sy_place s i = Calling c" using 0(3) by (cases "sy_place s i") auto
  show ?case using call_goes_through [OF 0(2) none c] 0(4) by auto
next
  case (Suc n)
  have fin: "finite (insiders s)" by (rule insiders_finite [OF Suc(3)])
  have "insiders s \<noteq> {}"
  proof
    assume "insiders s = {}"
    then show False using Suc(2) by simp
  qed
  then obtain j c l where j: "sy_place s j = Inside c l" by blast
  obtain s1 r where s1: "steps s s1" "sy_place s1 = (sy_place s)(j := Idle)" "sy_hist s1 = sy_hist s @ [(j, c, r)]"
    using inside_leaves [OF Suc(3) j] Suc(5) by auto
  show ?case
  proof (cases "j = i")
    case True
    then show ?thesis using s1 by auto
  next
    case False
    have "insiders s1 = insiders s - {j}" using s1(2) by auto
    then have n: "card (insiders s1) = n" using Suc(2) fin j by simp
    have "inv s0 s1" using inv_steps [OF s1(1) Suc(3)] s1(3) Suc(5) by simp
    from Suc(1) [OF n [symmetric] this] False s1(2,3) Suc(2,4,5) n obtain s' where "steps s1 s'" "sy_place s' i = Idle"
      by auto
    then show ?thesis using rtranclp_trans [OF s1(1)] by blast
  qed
qed

end

text \<open>An object that refines a data type \<open>spec\<close>: threads see the data type.\<close>

fun outcomes :: "('c \<Rightarrow> 'a \<Rightarrow> 'a \<times> 'r) \<Rightarrow> 'a \<Rightarrow> 'c list \<Rightarrow> 'a \<times> 'r list" where
  "outcomes spec a [] = (a, [])"
| "outcomes spec a (c # cs) =
     (let (a, r) = spec c a; (a, rs) = outcomes spec a cs in (a, r # rs))"

definition calls :: "(nat \<times> 'c \<times> 'r) list \<Rightarrow> 'c list" where
  "calls h = map (\<lambda>(i, c, r). c) h"

definition returned :: "(nat \<times> 'c \<times> 'r) list \<Rightarrow> 'r list" where
  "returned h = map (\<lambda>(i, c, r). r) h"

lemma history_simps [simp]:
  "calls [] = []" "calls ((i, c, r) # h) = c # calls h"
  "returned [] = []" "returned ((i, c, r) # h) = r # returned h"
  by (simp_all add: calls_def returned_def)

locale guarded_type = guarded reads start act result run ok limit
  for reads :: "'c \<Rightarrow> bool" and start :: "'c \<Rightarrow> 'l" and act :: "'c \<Rightarrow> 'l \<Rightarrow> 's \<Rightarrow> 'l \<times> 's"
    and result :: "'l \<Rightarrow> 'r option" and run :: "'c \<Rightarrow> 's \<Rightarrow> 's \<times> 'r" and ok :: "nat \<Rightarrow> 's \<Rightarrow> bool" and limit :: nat +
  fixes models :: "'s \<Rightarrow> 'a \<Rightarrow> bool"
    and spec :: "'c \<Rightarrow> 'a \<Rightarrow> 'a \<times> 'r"
  assumes refines: "ok n s \<Longrightarrow> n < limit \<Longrightarrow> models s a \<Longrightarrow>
      snd (run c s) = snd (spec c a) \<and> models (fst (run c s)) (fst (spec c a))"
begin

lemma legal_outcomes:
  "legal run s h \<Longrightarrow> ok n s \<Longrightarrow> n + length h \<le> limit \<Longrightarrow> models s a \<Longrightarrow>
   returned h = snd (outcomes spec a (calls h)) \<and> models (serial run s h) (fst (outcomes spec a (calls h)))"
proof (induction h arbitrary: s n a)
  case (Cons x h)
  obtain i c r where x: "x = (i, c, r)" by (cases x)
  obtain b q where b: "spec c a = (b, q)" by fastforce
  have q: "r = q" "models (fst (run c s)) b"
    using refines [of n s a c] Cons.prems x b by auto
  have "ok (Suc n) (fst (run c s))" using keeps [of n s c] Cons.prems by simp
  from Cons.IH [OF _ this _ q(2)] Cons.prems x
  have "returned h = snd (outcomes spec b (calls h)) \<and>
      models (serial run (fst (run c s)) h) (fst (outcomes spec b (calls h)))" by simp
  then show ?case using x b q(1) by (simp add: serial_def case_prod_beta)
qed simp

lemma threads_see_type:
  assumes "ok 0 s0" "models s0 a0" "steps (system_new s0) s" "length (sy_hist s) \<le> limit"
  shows "returned (sy_hist s) = snd (outcomes spec a0 (calls (sy_hist s)))"
    and "models (serial run s0 (sy_hist s)) (fst (outcomes spec a0 (calls (sy_hist s))))"
  using legal_outcomes [OF linearizable(1) [OF assms(1,3,4)] assms(1)] assms(2,4) by simp_all

end

end
