(* ===== verification/TableThreads.thy ===== *)
theory TableThreads
  imports TsHashTable RwLock
begin

text \<open>
  Threads on one \<open>TsHashTable\<close>: every public operation but \<open>getSize\<close> runs between taking and
  releasing the table's \<open>RwLock\<close>, \<open>get\<close> and \<open>contains\<close> as readers. An operation is cut into its
  accesses to the table: the load test with \<open>expand_map\<close>, one bucket of a chain after the other,
  the change of a chain, the change of \<open>capacity\<close>.
\<close>

section \<open>The accesses of an operation\<close>

datatype 'v tcall =
    TGet hw_address
  | TContains hw_address
  | TAdd hw_address 'v
  | TReplace hw_address 'v
  | TRemove hw_address
  | TSteal hw_address

fun tkey :: "'v tcall \<Rightarrow> hw_address" where
  "tkey (TGet k) = k" | "tkey (TContains k) = k" | "tkey (TAdd k v) = k"
| "tkey (TReplace k v) = k" | "tkey (TRemove k) = k" | "tkey (TSteal k) = k"

fun hcall_of :: "'v tcall \<Rightarrow> 'v hcall" where
  "hcall_of (TGet k) = HGet k" | "hcall_of (TContains k) = HContains k" | "hcall_of (TAdd k v) = HAdd k v"
| "hcall_of (TReplace k v) = HReplace k v" | "hcall_of (TRemove k) = HRemove k" | "hcall_of (TSteal k) = HSteal k"

fun lock_shared :: "'v tcall \<Rightarrow> bool" where
  "lock_shared (TGet k) = True"
| "lock_shared (TContains k) = True"
| "lock_shared _ = False"

text \<open>The locals: at the start; at position \<open>p\<close> of chain \<open>i\<close>, with whether a match was found; before
  \<open>capacity\<close> is changed; and with the result.\<close>

datatype 'v tlocal =
    TStart
  | TWalk nat nat bool
  | TCount "'v hret"
  | TDone "'v hret result"

fun tresult :: "'v tlocal \<Rightarrow> 'v hret result option" where
  "tresult (TDone r) = Some r"
| "tresult _ = None"

type_synonym 'v table = "(hw_address, 'v) ht"

definition enter_chain :: "'v tcall \<Rightarrow> 'v table \<Rightarrow> 'v tlocal \<times> 'v table" where
  "enter_chain c t = (TWalk (get_place (ht_length t) (ht_hash hw_data (tkey c))) 0 False, t)"

definition put_chain :: "nat \<Rightarrow> (hw_address, 'v) bucket list \<Rightarrow> 'v table \<Rightarrow> 'v table" where
  "put_chain i ch t = t\<lparr>ht_table := (ht_table t)[i := ch]\<rparr>"

text \<open>A bucket that matches, at position \<open>p\<close> of chain \<open>ch\<close>.\<close>

fun at_match :: "'v tcall \<Rightarrow> nat \<Rightarrow> nat \<Rightarrow> (hw_address, 'v) bucket list \<Rightarrow> 'v table \<Rightarrow> 'v tlocal \<times> 'v table" where
  "at_match (TGet k) i p ch t = (TDone (Inr (RVal (Some (bk_val (ch ! p))))), t)"
| "at_match (TContains k) i p ch t = (TDone (Inr (RFound True)), t)"
| "at_match (TAdd k v) i p ch t = (TWalk i (Suc p) True, put_chain i (ch[p := (ch ! p)\<lparr>bk_val := v\<rparr>]) t)"
| "at_match (TReplace k v) i p ch t =
     (TDone (Inr (RFound True)), put_chain i (ch[p := (ch ! p)\<lparr>bk_val := v\<rparr>]) t)"
| "at_match (TRemove k) i p ch t = (TCount (RFound True), put_chain i (take p ch @ drop (Suc p) ch) t)"
| "at_match (TSteal k) i p ch t =
     (TCount (RVal (Some (bk_val (ch ! p)))), put_chain i (take p ch @ drop (Suc p) ch) t)"

text \<open>The end of the chain.\<close>

fun at_end :: "'v tcall \<Rightarrow> nat \<Rightarrow> bool \<Rightarrow> (hw_address, 'v) bucket list \<Rightarrow> 'v table \<Rightarrow> 'v tlocal \<times> 'v table" where
  "at_end (TGet k) i found ch t = (TDone (Inr (RVal None)), t)"
| "at_end (TSteal k) i found ch t = (TDone (Inr (RVal None)), t)"
| "at_end (TAdd k v) i found ch t =
     (if found then (TDone (Inr (RFound True)), t)
      else (TCount (RFound False), put_chain i (\<lparr>bk_hash = ht_hash hw_data k, bk_key = k, bk_val = v\<rparr> # ch) t))"
| "at_end _ i found ch t = (TDone (Inr (RFound False)), t)"

fun count_call :: "'v tcall \<Rightarrow> 'v table \<Rightarrow> 'v table" where
  "count_call (TAdd k v) t = t\<lparr>ht_capacity := ht_capacity t + 1\<rparr>"
| "count_call (TRemove k) t = t\<lparr>ht_capacity := ht_capacity t - 1\<rparr>"
| "count_call (TSteal k) t = t\<lparr>ht_capacity := ht_capacity t - 1\<rparr>"
| "count_call _ t = t"

fun taccess :: "'v tcall \<Rightarrow> 'v tlocal \<Rightarrow> 'v table \<Rightarrow> 'v tlocal \<times> 'v table" where
  "taccess c TStart t =
     (case c of
        TAdd k v \<Rightarrow>
          (case (if ht_loaded t then expand_map t else Inr t) of
             Inl e \<Rightarrow> (TDone (Inl e), t)
           | Inr t \<Rightarrow> enter_chain c t)
      | _ \<Rightarrow> enter_chain c t)"
| "taccess c (TWalk i p found) t =
     (if length (ht_table t) \<le> i then (TDone (Inl OutOfBounds), t)
      else
        let ch = ht_table t ! i in
        if length ch \<le> p then at_end c i found ch t
        else if bk_match hw_eq (ht_hash hw_data (tkey c)) (tkey c) (ch ! p) then at_match c i p ch t
        else (TWalk i (Suc p) found, t))"
| "taccess c (TCount r) t = (TDone (Inr r), count_call c t)"
| "taccess c (TDone r) t = (TDone r, t)"

text \<open>The operation as \<open>ht_call\<close> has it.\<close>

definition trun :: "'v tcall \<Rightarrow> 'v table \<Rightarrow> 'v table \<times> 'v hret result" where
  "trun c t = (case ht_call t (hcall_of c) of Inl e \<Rightarrow> (t, Inl e) | Inr (t', r) \<Rightarrow> (t', Inr r))"

section \<open>An operation run alone\<close>

abbreviation becomes :: "'v tcall \<Rightarrow> 'v tlocal \<times> 'v table \<Rightarrow> 'v tlocal \<times> 'v table \<Rightarrow> bool" where
  "becomes c x y \<equiv> \<exists>m. (alone taccess tresult c ^^ m) x = y"

lemma becomes_refl: "becomes c x x"
  by (rule exI [of _ 0]) simp

lemma becomes_step:
  assumes "tresult l = None" "becomes c (taccess c l t) y"
  shows "becomes c (l, t) y"
proof -
  obtain m where "(alone taccess tresult c ^^ m) (taccess c l t) = y" using assms(2) by blast
  then have "(alone taccess tresult c ^^ Suc m) (l, t) = y"
    using assms(1) by (simp add: funpow_Suc_right alone_def del: funpow.simps)
  then show ?thesis by blast
qed

lemma becomes_count: "becomes c (TCount r, t) (TDone (Inr r), count_call c t)"
  by (rule becomes_step) (simp_all add: becomes_refl)

abbreviation matches :: "'v tcall \<Rightarrow> (hw_address, 'v) bucket \<Rightarrow> bool" where
  "matches c \<equiv> bk_match hw_eq (ht_hash hw_data (tkey c)) (tkey c)"

lemma put_chain_simps [simp]:
  "i < length (ht_table t) \<Longrightarrow> ht_table (put_chain i ch t) ! i = ch"
  "length (ht_table (put_chain i ch t)) = length (ht_table t)" "put_chain i ch (put_chain i ch' t) = put_chain i ch t"
  "ht_length (put_chain i ch t) = ht_length t" "ht_capacity (put_chain i ch t) = ht_capacity t"
  by (simp_all add: put_chain_def)

lemma put_chain_same: "put_chain i (ht_table t ! i) t = t"
  by (simp add: put_chain_def)

text \<open>The rest of a chain from the position a walk has come to.\<close>

lemma walk_reads:
  assumes "c = TGet k \<or> c = TContains k" "i < length (ht_table t)"
  shows "ht_table t ! i = pre @ xs \<Longrightarrow> becomes c (TWalk i (length pre) found, t)
    (TDone (Inr (if c = TGet k then RVal (map_option bk_val (find (matches c) xs))
                 else RFound (find (matches c) xs \<noteq> None))), t)"
proof (induction xs arbitrary: pre)
  case Nil
  then show ?case using assms by (intro becomes_step) (auto intro: becomes_refl)
next
  case (Cons b xs)
  show ?case
  proof (cases "matches c b")
    case True
    then show ?thesis using assms Cons.prems by (intro becomes_step) (auto intro: becomes_refl simp: nth_append)
  next
    case False
    have "ht_table t ! i = (pre @ [b]) @ xs" using Cons.prems by simp
    from Cons.IH [OF this] show ?thesis
      using assms False Cons.prems by (intro becomes_step) (auto simp: nth_append)
  qed
qed

lemma walk_replaces:
  assumes "i < length (ht_table t)"
  shows "ht_table t ! i = pre @ xs \<Longrightarrow> becomes (TReplace k v) (TWalk i (length pre) found, t)
    (TDone (Inr (RFound (find (matches (TReplace k v)) xs \<noteq> None))),
     put_chain i (pre @ set_first (matches (TReplace k v)) (\<lambda>b. b\<lparr>bk_val := v\<rparr>) xs) t)"
proof (induction xs arbitrary: pre)
  case Nil
  then show ?case using assms put_chain_same [of i t] by (intro becomes_step) (auto intro: becomes_refl)
next
  case (Cons b xs)
  show ?case
  proof (cases "matches (TReplace k v) b")
    case True
    then show ?thesis using assms Cons.prems by (intro becomes_step) (auto intro: becomes_refl simp: nth_append)
  next
    case False
    have "ht_table t ! i = (pre @ [b]) @ xs" using Cons.prems by simp
    from Cons.IH [OF this] show ?thesis
      using assms False Cons.prems by (intro becomes_step) (auto simp: nth_append)
  qed
qed

text \<open>\<open>remove\<close> and \<open>steal\<close> unlink the first match and count it off.\<close>

lemma walk_steals:
  assumes c: "c = TRemove k \<or> c = TSteal k" and i: "i < length (ht_table t)"
  shows "ht_table t ! i = pre @ xs \<Longrightarrow> steal_from hw_eq (ht_hash hw_data k) k xs = (ys, b) \<Longrightarrow>
    becomes c (TWalk i (length pre) found, t)
      (TDone (Inr (if c = TRemove k then RFound (b \<noteq> None) else RVal (map_option bk_val b))),
       if b = None then t else count_call c (put_chain i (pre @ ys) t))"
proof (induction xs arbitrary: pre ys)
  case Nil
  then show ?case using c i by (intro becomes_step) (auto intro: becomes_refl)
next
  case (Cons a xs)
  show ?case
  proof (cases "matches c a")
    case True
    let ?r = "if c = TRemove k then RFound True else RVal (Some (bk_val a))"
    have walk: "taccess c (TWalk i (length pre) found) t = (TCount ?r, put_chain i (pre @ xs) t)"
      using True c i Cons.prems(1) by (elim disjE) (simp_all add: nth_append)
    have key: "tkey c = k" using c by auto
    have "ys = xs \<and> b = Some a" using True Cons.prems(2) by (simp add: key)
    moreover have "becomes c (TWalk i (length pre) found, t) (TDone (Inr ?r), count_call c (put_chain i (pre @ xs) t))"
      by (rule becomes_step) (simp_all only: walk tresult.simps becomes_count)
    ultimately show ?thesis by (simp split del: if_split cong: if_cong)
  next
    case False
    have key: "tkey c = k" using c by auto
    obtain zs where zs: "steal_from hw_eq (ht_hash hw_data k) k xs = (zs, b)" "ys = a # zs"
      using False Cons.prems(2) by (cases "steal_from hw_eq (ht_hash hw_data k) k xs") (simp add: key)
    have "ht_table t ! i = (pre @ [a]) @ xs" using Cons.prems(1) by simp
    from Cons.IH [OF this zs(1)] show ?thesis
      using i False Cons.prems(1) zs(2)
      by (intro becomes_step) (simp_all add: nth_append split del: if_split cong: if_cong)
  qed
qed

text \<open>\<open>add\<close> goes through the whole chain.\<close>

lemma walk_adds:
  assumes "i < length (ht_table t)"
    and "becomes (TAdd k v) (TWalk i (length pre + length xs) (found \<or> list_ex (matches (TAdd k v)) xs),
      put_chain i (pre @ map (\<lambda>b. if matches (TAdd k v) b then b\<lparr>bk_val := v\<rparr> else b) xs) t) z"
  shows "becomes (TAdd k v) (TWalk i (length pre) found, put_chain i (pre @ xs) t) z"
  using assms(2)
proof (induction xs arbitrary: pre found)
  case (Cons b xs)
  let ?b = "if matches (TAdd k v) b then b\<lparr>bk_val := v\<rparr> else b"
  have "becomes (TAdd k v) (TWalk i (length (pre @ [?b])) (found \<or> matches (TAdd k v) b),
      put_chain i ((pre @ [?b]) @ xs) t) z"
    by (rule Cons.IH) (use Cons.prems in \<open>simp split del: if_split\<close>)
  moreover have "taccess (TAdd k v) (TWalk i (length pre) found) (put_chain i (pre @ b # xs) t)
      = (TWalk i (length (pre @ [?b])) (found \<or> matches (TAdd k v) b), put_chain i ((pre @ [?b]) @ xs) t)"
    using assms(1) by (simp add: nth_append)
  ultimately show ?case by (intro becomes_step) simp_all
qed simp

lemma no_first_match:
  "find P xs = None \<Longrightarrow> set_first P f xs = xs" "find P xs = None \<Longrightarrow> \<not> list_ex P xs"
  by (induction xs) (auto split: if_splits)

lemma steal_from_None: "steal_from eq h k xs = (ys, None) \<Longrightarrow> ys = xs"
  by (induction xs arbitrary: ys) (auto split: if_splits prod.splits)

definition in_range :: "'v tcall \<Rightarrow> 'v table \<Rightarrow> bool" where
  "in_range c t \<longleftrightarrow> get_place (ht_length t) (ht_hash hw_data (tkey c)) < length (ht_table t)"

lemma run_get:
  assumes "c = TGet k \<or> c = TContains k" "in_range c t"
  shows "becomes c (enter_chain c t) (TDone (snd (trun c t)), fst (trun c t))"
proof -
  let ?i = "get_place (ht_length t) (ht_hash hw_data (tkey c))"
  have "becomes c (TWalk ?i (length ([] :: (hw_address, 'a) bucket list)) False, t)
    (TDone (Inr (if c = TGet k then RVal (map_option bk_val (find (matches c) (ht_table t ! ?i)))
                 else RFound (find (matches c) (ht_table t ! ?i) \<noteq> None))), t)"
    using assms(2) by (intro walk_reads [OF assms(1)]) (simp_all add: in_range_def)
  moreover have "trun c t = (t, Inr (if c = TGet k then RVal (map_option bk_val (find (matches c) (ht_table t ! ?i)))
                 else RFound (find (matches c) (ht_table t ! ?i) \<noteq> None)))"
    using assms by (auto simp: trun_def in_range_def ht_get_def ht_contains_def get_bucket_def ht_chain_def Let_def)
  ultimately show ?thesis by (simp add: enter_chain_def split del: if_split)
qed

lemma run_replace:
  assumes "c = TReplace k v" "in_range c t"
  shows "becomes c (enter_chain c t) (TDone (snd (trun c t)), fst (trun c t))"
proof -
  let ?i = "get_place (ht_length t) (ht_hash hw_data (tkey c))" and ?f = "\<lambda>b. b\<lparr>bk_val := v\<rparr>"
  let ?ch = "ht_table t ! ?i"
  have "becomes c (TWalk ?i (length ([] :: (hw_address, 'a) bucket list)) False, t)
    (TDone (Inr (RFound (find (matches c) ?ch \<noteq> None))), put_chain ?i ([] @ set_first (matches c) ?f ?ch) t)"
    using assms(2) unfolding assms(1) by (intro walk_replaces) (simp_all add: in_range_def)
  moreover have "trun c t = (put_chain ?i (set_first (matches c) ?f ?ch) t, Inr (RFound (find (matches c) ?ch \<noteq> None)))"
  proof (cases "find (matches c) ?ch")
    case None
    then show ?thesis using assms no_first_match(1) [OF None, of ?f] put_chain_same [of ?i t]
      by (simp add: trun_def in_range_def ht_replace_def get_bucket_def ht_chain_def Let_def)
  next
    case (Some b)
    then show ?thesis using assms
      by (simp add: trun_def in_range_def ht_replace_def get_bucket_def ht_chain_def Let_def put_chain_def)
  qed
  ultimately show ?thesis by (simp add: enter_chain_def)
qed

lemma run_steal:
  assumes c: "c = TRemove k \<or> c = TSteal k" and r: "in_range c t"
  shows "becomes c (enter_chain c t) (TDone (snd (trun c t)), fst (trun c t))"
proof -
  let ?i = "get_place (ht_length t) (ht_hash hw_data (tkey c))"
  let ?ch = "ht_table t ! ?i"
  have key: "tkey c = k" using c by auto
  obtain ys b where s: "steal_from hw_eq (ht_hash hw_data k) k ?ch = (ys, b)" by fastforce
  have "becomes c (TWalk ?i (length ([] :: (hw_address, 'a) bucket list)) False, t)
    (TDone (Inr (if c = TRemove k then RFound (b \<noteq> None) else RVal (map_option bk_val b))),
     if b = None then t else count_call c (put_chain ?i ([] @ ys) t))"
    using r s by (intro walk_steals [OF c]) (simp_all add: in_range_def)
  moreover have "trun c t = (if b = None then t else count_call c (put_chain ?i ys t),
      Inr (if c = TRemove k then RFound (b \<noteq> None) else RVal (map_option bk_val b)))"
  proof (cases b)
    case None
    then have "(ht_table t)[?i := ys] = ht_table t" using steal_from_None s by fastforce
    then show ?thesis using c r s None
      by (elim disjE) (simp_all add: key trun_def in_range_def ht_remove_def ht_steal_def steal_bucket_def ht_chain_def Let_def)
  next
    case (Some x)
    then show ?thesis using c r s
      by (elim disjE) (simp_all add: key trun_def in_range_def ht_remove_def ht_steal_def steal_bucket_def ht_chain_def
          Let_def put_chain_def)
  qed
  ultimately show ?thesis by (simp add: enter_chain_def split del: if_split cong: if_cong)
qed

lemma run_add:
  assumes c: "c = TAdd k v" and e: "(if ht_loaded t then expand_map t else Inr t) = Inr t1" and r: "in_range c t1"
  shows "becomes c (enter_chain c t1) (TDone (snd (trun c t)), fst (trun c t))"
proof -
  let ?i = "get_place (ht_length t1) (ht_hash hw_data k)"
  let ?ch = "ht_table t1 ! ?i" and ?f = "\<lambda>b. if matches c b then b\<lparr>bk_val := v\<rparr> else b"
  let ?t = "put_chain ?i (map ?f ?ch) t1" and ?found = "list_ex (matches c) ?ch"
  let ?new = "\<lparr>bk_hash = ht_hash hw_data k, bk_key = k, bk_val = v\<rparr>"
  let ?fin = "if ?found then ?t else count_call c (put_chain ?i (?new # map ?f ?ch) t1)"
  have i: "?i < length (ht_table t1)" using r c by (simp add: in_range_def)
  have run: "trun c t = (?fin, Inr (RFound ?found))"
    using e i c by (simp add: trun_def ht_add_def ht_chain_def Let_def put_chain_def)
  have "becomes c (TWalk ?i (length ?ch) ?found, ?t) (TDone (Inr (RFound ?found)), ?fin)"
  proof (cases ?found)
    case True
    then show ?thesis using i c by (intro becomes_step) (simp_all add: becomes_refl)
  next
    case False
    then have "taccess c (TWalk ?i (length ?ch) ?found) ?t = (TCount (RFound False), put_chain ?i (?new # map ?f ?ch) t1)"
      using i c by simp
    then show ?thesis using False by (intro becomes_step) (simp_all only: tresult.simps becomes_count if_False)
  qed
  then have "becomes c (TWalk ?i (length ([] :: (hw_address, 'a) bucket list)) False, put_chain ?i ([] @ ?ch) t1)
      (TDone (Inr (RFound ?found)), ?fin)"
    using i unfolding c by (intro walk_adds) simp_all
  moreover have "tkey c = k" using c by simp
  ultimately show ?thesis
    unfolding run enter_chain_def fst_conv snd_conv by (simp only: append_Nil put_chain_same list.size)
qed

text \<open>On a table that models a map, every operation runs to the end of \<open>trun\<close>.\<close>

lemma run_alone:
  assumes m: "ht_models t m" "card (dom m) < 2 ^ 29"
  shows "becomes c (TStart, t) (TDone (snd (trun c t)), fst (trun c t))"
proof -
  have range: "in_range c t"
    using m(1) get_place_less by (simp add: in_range_def ht_models_def ht_inv_def table_ok_def)
  show ?thesis
  proof (cases "\<exists>k v. c = TAdd k v")
    case True
    then obtain k v where c: "c = TAdd k v" by blast
    obtain t' where t': "ht_add hw_eq hw_data t k v = Inr t'"
      using ht_call_models [OF m, of "HAdd k v"] by (cases "ht_add hw_eq hw_data t k v") auto
    then obtain t1 where t1: "(if ht_loaded t then expand_map t else Inr t) = Inr t1"
      by (cases "if ht_loaded t then expand_map t else Inr t") (auto simp: ht_add_def)
    have "in_range c t1"
      using t' t1 c by (simp add: ht_add_def in_range_def ht_chain_def Let_def split: if_splits)
    from run_add [OF c t1 this] show ?thesis using c t1 by (intro becomes_step) simp_all
  next
    case False
    then have "taccess c TStart t = enter_chain c t" by (cases c) simp_all
    moreover have "becomes c (enter_chain c t) (TDone (snd (trun c t)), fst (trun c t))"
      using False range run_get [of c _ t] run_replace [of c _ _ t] run_steal [of c _ t] by (cases c) auto
    ultimately show ?thesis by (intro becomes_step) simp_all
  qed
qed

section \<open>Threads see a map\<close>

definition map_spec :: "'v tcall \<Rightarrow> (hw_address \<rightharpoonup> 'v) \<Rightarrow> (hw_address \<rightharpoonup> 'v) \<times> 'v hret result" where
  "map_spec c m = (fst (map_call m (hcall_of c)), Inr (snd (map_call m (hcall_of c))))"

definition table_fit :: "nat \<Rightarrow> 'v table \<Rightarrow> bool" where
  "table_fit n t \<longleftrightarrow> (\<exists>m. ht_models t m \<and> card (dom m) \<le> n)"

type_synonym 'v threads = "('v tcall, 'v tlocal, 'v table, 'v hret result) system"

definition table_step :: "'v threads \<Rightarrow> 'v threads \<Rightarrow> bool" where
  "table_step = guarded_step lock_shared (\<lambda>_. TStart) taccess tresult"

text \<open>\<open>getSize\<close> reads \<open>capacity\<close> without taking the lock.\<close>

definition getSize :: "'v threads \<Rightarrow> nat" where
  "getSize s = ht_capacity (sy_data s)"

lemma trun_models:
  assumes "ht_models t m" "card (dom m) < 2 ^ 29"
  shows "snd (trun c t) = snd (map_spec c m)" "ht_models (fst (trun c t)) (fst (map_spec c m))"
  using ht_call_models [OF assms, of "hcall_of c"] by (auto simp: trun_def map_spec_def)

lemma map_spec_size: "finite (dom m) \<Longrightarrow> card (dom (fst (map_spec c m))) \<le> Suc (card (dom m))"
  by (simp add: map_spec_def map_call_size)

lemma table_fit_step: "table_fit n t \<Longrightarrow> n < 2 ^ 29 \<Longrightarrow> table_fit (Suc n) (fst (trun c t))"
proof -
  assume "table_fit n t" and n: "n < 2 ^ 29"
  then obtain m where m: "ht_models t m" "card (dom m) \<le> n" by (auto simp: table_fit_def)
  have "card (dom (fst (map_spec c m))) \<le> Suc n"
    using map_spec_size [of m c] m by (simp add: ht_models_def)
  then show ?thesis using trun_models(2) [OF m(1), of c] m(2) n unfolding table_fit_def by auto
qed

lemma reads_only: "lock_shared c \<Longrightarrow> snd (taccess c l t) = t"
  by (cases c; cases l) (simp_all add: enter_chain_def Let_def)

lemma models_unique: "ht_models t m \<Longrightarrow> ht_models t m' \<Longrightarrow> m = m'"
  by (simp add: ht_models_def)

interpretation table: guarded_type lock_shared "\<lambda>_. TStart" taccess tresult trun table_fit "2 ^ 29" ht_models map_spec
proof unfold_locales
  fix n and t :: "'a table" and c
  assume *: "table_fit n t" "n < 2 ^ 29"
  then obtain m where m: "ht_models t m" "card (dom m) < 2 ^ 29" by (auto simp: table_fit_def)
  show "\<exists>k l. (alone taccess tresult c ^^ k) (TStart, t) = (l, fst (trun c t)) \<and> tresult l = Some (snd (trun c t))"
    using run_alone [OF m, of c] by fastforce
  show "table_fit (Suc n) (fst (trun c t))" by (rule table_fit_step [OF *])
  fix m' assume m': "ht_models t m'"
  then have "m' = m" by (rule models_unique [OF _ m(1)])
  then show "snd (trun c t) = snd (map_spec c m') \<and> ht_models (fst (trun c t)) (fst (map_spec c m'))"
    using trun_models [OF m, of c] by simp
qed (rule reads_only)

lemma table_fit_new: "table_fit 0 ht_new"
  using ht_models_new by (auto simp: table_fit_def intro: exI [of _ Map.empty])

text \<open>\<open>capacity\<close> changes in the last access of an operation only.\<close>

lemma expand_capacity: "expand_map t = Inr t' \<Longrightarrow> ht_capacity t' = ht_capacity t"
  by (cases "move_chains (2 * ht_length t) (take (ht_length t) (ht_table t)) (replicate (2 * ht_length t) [])")
    (auto simp: expand_map_def)

lemma access_capacity:
  "taccess c l t = (l', t') \<Longrightarrow> tresult l' = None \<Longrightarrow> ht_capacity t' = ht_capacity t"
proof (cases l)
  case TStart
  assume "taccess c l t = (l', t')" "tresult l' = None"
  then show ?thesis using TStart
    by (cases c) (auto simp: enter_chain_def expand_capacity split: sum.splits if_splits)
next
  case (TWalk i p found)
  assume "taccess c l t = (l', t')" "tresult l' = None"
  then show ?thesis using TWalk
    by (cases c) (auto simp: Let_def put_chain_def split: if_splits)
qed auto

lemma alone_capacity:
  "(alone taccess tresult c ^^ k) (TStart, t) = (l, t') \<Longrightarrow> tresult l = None \<Longrightarrow> ht_capacity t' = ht_capacity t"
proof (induction k arbitrary: l t')
  case (Suc k)
  obtain l1 t1 where 1: "(alone taccess tresult c ^^ k) (TStart, t) = (l1, t1)" by fastforce
  then have "tresult l1 = None" using Suc.prems by (cases "tresult l1") (auto simp: alone_def)
  then show ?case
    using Suc.IH [OF 1] Suc.prems 1 access_capacity [of c l1 t1 l t'] by (simp add: alone_def)
qed simp

definition map_after :: "'v threads \<Rightarrow> hw_address \<rightharpoonup> 'v" where
  "map_after s = fst (outcomes map_spec Map.empty (calls (sy_hist s)))"

lemma table_inv:
  assumes "table_step\<^sup>*\<^sup>* (system_new ht_new) s" "length (sy_hist s) \<le> 2 ^ 29"
  shows "table.inv ht_new s"
  using table.inv_steps [OF _ table.inv_new [OF table_fit_new] assms(2)] assms(1) by (simp add: table_step_def)

lemma table_history:
  assumes "table_step\<^sup>*\<^sup>* (system_new ht_new) s" "length (sy_hist s) \<le> 2 ^ 29"
  shows "returned (sy_hist s) = snd (outcomes map_spec Map.empty (calls (sy_hist s)))"
    and "ht_models (serial trun ht_new (sy_hist s)) (map_after s)"
  using table.threads_see_type [OF table_fit_new ht_models_new _ assms(2)] assms(1)
  by (simp_all add: table_step_def map_after_def)

lemma table_size:
  assumes s: "table_step\<^sup>*\<^sup>* (system_new ht_new) s" "length (sy_hist s) < 2 ^ 29"
  shows "getSize s = card (dom (map_after s)) \<or>
    (\<exists>i c r. sy_place s i = Inside c (TDone r) \<and> getSize s = card (dom (fst (map_spec c (map_after s)))))"
proof (cases "rw_writer (sy_lock s)")
  case None
  have "table.inv ht_new s" using table_inv [OF s(1)] s(2) by simp
  then have "sy_data s = serial trun ht_new (sy_hist s)" using None by (simp add: table.inv_def)
  then show ?thesis using table_history(2) [OF s(1)] s(2) by (simp add: getSize_def ht_models_def)
next
  case (Some i)
  let ?A = "serial trun ht_new (sy_hist s)"
  have inv: "table.inv ht_new s" using table_inv [OF s(1)] s(2) by simp
  have m: "ht_models ?A (map_after s)" using table_history(2) [OF s(1)] s(2) by simp
  obtain c l where c: "sy_place s i = Inside c l" "\<not> lock_shared c"
    using table.inv_holders [OF inv] Some unfolding holders_ok_def by blast
  obtain k where k: "(alone taccess tresult c ^^ k) (TStart, ?A) = (l, sy_data s)"
    using table.inv_inside [OF inv c(1)] by blast
  show ?thesis
  proof (cases "tresult l")
    case None
    then show ?thesis using alone_capacity [OF k] m by (simp add: getSize_def ht_models_def)
  next
    case (Some r)
    have "table_fit (length (sy_hist s)) ?A" using inv by (simp add: table.inv_def)
    then have small: "card (dom (map_after s)) < 2 ^ 29"
      using m models_unique [OF m] s(2) unfolding table_fit_def by (metis le_less_trans)
    obtain k' where k': "(alone taccess tresult c ^^ k') (TStart, ?A) = (TDone (snd (trun c ?A)), fst (trun c ?A))"
      using run_alone [OF m small, of c] by blast
    have "l = TDone (snd (trun c ?A)) \<and> sy_data s = fst (trun c ?A)"
      using table.once_final [OF k' _ k] Some by simp
    then show ?thesis
      using c(1) trun_models(2) [OF m small, of c] by (auto simp: getSize_def ht_models_def)
  qed
qed

text \<open>C13. Threads that work on one table in any interleaving of their single accesses see a finite map:
  the results, in the order in which the calls leave, are those of the map, the memory is that
  map whenever nobody is changing it, and \<open>getSize\<close>, which takes no lock, returns its size
  or that which the call about to leave gives it.\<close>

theorem table_linearizable:
  assumes "table_step\<^sup>*\<^sup>* (system_new ht_new) s" "length (sy_hist s) < 2 ^ 29"
  shows "returned (sy_hist s) = snd (outcomes map_spec Map.empty (calls (sy_hist s))) \<and>
    (rw_writer (sy_lock s) = None \<longrightarrow> ht_models (sy_data s) (map_after s)) \<and>
    (getSize s = card (dom (map_after s)) \<or>
     (\<exists>i c r. sy_place s i = Inside c (TDone r) \<and> getSize s = card (dom (fst (map_spec c (map_after s))))))"
proof (intro conjI impI)
  have le: "length (sy_hist s) \<le> 2 ^ 29" using assms(2) by simp
  show "returned (sy_hist s) = snd (outcomes map_spec Map.empty (calls (sy_hist s)))"
    by (rule table_history(1) [OF assms(1) le])
  show "ht_models (sy_data s) (map_after s)" if "rw_writer (sy_lock s) = None"
    using table_inv [OF assms(1) le] table_history(2) [OF assms(1) le] that by (simp add: table.inv_def)
qed (rule table_size [OF assms])

text \<open>Two threads, one after the other.\<close>

lemma two_threads:
  "\<exists>s r r'. table_step\<^sup>*\<^sup>* (system_new ht_new) s \<and> sy_hist s = [(0, c, r), (1, c', r')]"
proof -
  let ?s = "system_new (ht_new :: 'a table) :: 'a threads"
  have "sy_place ?s = (\<lambda>_. Idle)" "sy_hist ?s = []" by (simp_all add: system_new_def)
  with table.call_alone [OF table.inv_new [OF table_fit_new], of 0 c] obtain s1 r
    where 1: "table.steps ?s s1" "sy_place s1 = (\<lambda>_. Idle)" "sy_hist s1 = [(0, c, r)]" by auto
  have inv1: "table.inv ht_new s1" using table_inv [of s1] 1 by (simp add: table_step_def)
  from table.call_alone [OF inv1 1(2), of 1 c'] 1(3) obtain s2 r'
    where "table.steps s1 s2" "sy_hist s2 = [(0, c, r), (1, c', r')]" by auto
  then show ?thesis using rtranclp_trans [OF 1(1)] unfolding table_step_def by blast
qed

theorem table_linearizable_witness:
  "\<exists>s. table_step\<^sup>*\<^sup>* (system_new ht_new) s \<and>
     sy_hist s = [(0, TAdd hw_zero (1 :: nat), Inr (RFound False)), (1, TGet hw_zero, Inr (RVal (Some 1)))]"
proof -
  obtain s r r' where s: "table_step\<^sup>*\<^sup>* (system_new ht_new) s"
      "sy_hist s = [(0, TAdd hw_zero (1 :: nat), r), (1, TGet hw_zero, r')]"
    using two_threads by blast
  from table_linearizable [OF s(1)] have "[r, r'] = [Inr (RFound False), Inr (RVal (Some 1))]"
    by (simp add: s(2) map_spec_def)
  then show ?thesis using s by auto
qed

text \<open>C14. No thread waits for ever at the table: from every state that threads can reach, each thread with
  a call in progress can return from it, whoever holds the lock.\<close>

theorem table_threads_return:
  assumes "table_step\<^sup>*\<^sup>* (system_new ht_new) s" "sy_place s i \<noteq> Idle"
    and "length (sy_hist s) + card {j. sy_place s j \<noteq> Idle} < 2 ^ 29"
  shows "\<exists>s'. table_step\<^sup>*\<^sup>* s s' \<and> sy_place s' i = Idle"
proof -
  have inv: "table.inv ht_new s" using table_inv [OF assms(1)] assms(3) by simp
  have "finite {j. sy_place s j \<noteq> Idle}" using table.inv_holders [OF inv] unfolding holders_ok_def by blast
  then have "card {j. \<exists>c l. sy_place s j = Inside c l} \<le> card {j. sy_place s j \<noteq> Idle}"
    by (rule card_mono) auto
  then show ?thesis using table.returns [OF inv assms(2)] assms(3) by (simp add: table_step_def)
qed

theorem table_threads_return_witness:
  "\<exists>s. table_step\<^sup>*\<^sup>* (moves 5 (Calling (TGet hw_zero)) (system_new (ht_new :: nat table))) s \<and> sy_place s 5 = Idle"
proof (rule table_threads_return)
  show "table_step\<^sup>*\<^sup>* (system_new ht_new) (moves 5 (Calling (TGet hw_zero)) (system_new (ht_new :: nat table)))"
    unfolding table_step_def by (rule r_into_rtranclp, rule step_call) (simp add: system_new_def)
  have "{j. sy_place (moves 5 (Calling (TGet hw_zero)) (system_new (ht_new :: nat table))) j \<noteq> Idle} = {5}"
    by (auto simp: system_new_def)
  then show "length (sy_hist (moves 5 (Calling (TGet hw_zero)) (system_new (ht_new :: nat table)))) +
      card {j. sy_place (moves 5 (Calling (TGet hw_zero)) (system_new (ht_new :: nat table))) j \<noteq> Idle} < 2 ^ 29"
    by (simp add: system_new_def)
qed simp

end
