(* ===== verification/Members.thy ===== *)
theory Members
  imports MessageQueue SignaledQueue
begin

text \<open>
  The queues that belong to a worker: \<open>member_msgqueue.hpp\<close>, \<open>signaled_member_queue.hpp\<close> and
  \<open>MemberAsyncQueue\<close> of \<open>service/async_msgqueue.hpp\<close>. A message is a member function with the worker it is
  bound to. They forward to the queues of the other theories, and so do these definitions.
\<close>

record ('w, 'q) member =
  mb_queue :: 'q
  mb_worker :: 'w

text \<open>\<open>queue.send(worker, func, ...)\<close> packs worker and function.\<close>

definition bind_worker :: "('w, 'q) member \<Rightarrow> 'f \<Rightarrow> 'w \<times> 'f" where
  "bind_worker s func = (mb_worker s, func)"

definition setWorker :: "'w \<Rightarrow> ('w, 'q) member \<Rightarrow> ('w, 'q) member" where
  "setWorker worker s = s\<lparr>mb_worker := worker\<rparr>"

abbreviation forward :: "('q \<Rightarrow> 'q result) \<Rightarrow> ('w, 'q) member \<Rightarrow> ('w, 'q) member result" where
  "forward f s \<equiv> rbind (f (mb_queue s)) (\<lambda>q. Inr (s\<lparr>mb_queue := q\<rparr>))"

section \<open>MemberMessageQueue\<close>

definition mm_new :: "'w \<Rightarrow> ('w, ('w \<times> 'f) mqueue) member" where
  "mm_new worker = \<lparr>mb_queue = mq_new, mb_worker = worker\<rparr>"

definition mm_send :: "('w, ('w \<times> 'f) mqueue) member \<Rightarrow> 'f \<Rightarrow> ('w, ('w \<times> 'f) mqueue) member" where
  "mm_send s func = s\<lparr>mb_queue := mq_send (mb_queue s) (bind_worker s func)\<rparr>"

definition mm_receive :: "('w, ('w \<times> 'f) mqueue) member \<Rightarrow> (('w, ('w \<times> 'f) mqueue) member, bool) blocking" where
  "mm_receive s =
     (case mq_receive (mb_queue s) of
        Blocked q \<Rightarrow> Blocked (s\<lparr>mb_queue := q\<rparr>)
      | Returned q r \<Rightarrow> Returned (s\<lparr>mb_queue := q\<rparr>) r)"

definition mm_nullmsg :: "('w, ('w \<times> 'f) mqueue) member \<Rightarrow> ('w, ('w \<times> 'f) mqueue) member" where
  "mm_nullmsg s = s\<lparr>mb_queue := mq_nullmsg (mb_queue s)\<rparr>"

definition mm_run :: "('w, ('w \<times> 'f) mqueue) member \<Rightarrow> (('w, ('w \<times> 'f) mqueue) member, unit) blocking option" where
  "mm_run s =
     map_option (\<lambda>r. case r of Blocked q \<Rightarrow> Blocked (s\<lparr>mb_queue := q\<rparr>) | Returned q r \<Rightarrow> Returned (s\<lparr>mb_queue := q\<rparr>) r)
       (mq_run (mb_queue s))"

section \<open>MemberAsyncQueue\<close>

type_synonym ('w, 'f) member_async = "('w, ('w \<times> 'f) async) member"

definition ma_new :: "'w \<Rightarrow> ('w, 'f) member_async" where
  "ma_new worker = \<lparr>mb_queue = async_new, mb_worker = worker\<rparr>"

definition ma_start :: "('w, 'f) member_async \<Rightarrow> nat \<Rightarrow> ('w, 'f) member_async result" where
  "ma_start s loop = forward (\<lambda>q. async_start q loop) s"

definition ma_stop :: "('w, 'f) member_async \<Rightarrow> ('w, 'f) member_async result" where
  "ma_stop s = forward async_stop s"

definition ma_send :: "('w, 'f) member_async \<Rightarrow> 'f \<Rightarrow> ('w, 'f) member_async result" where
  "ma_send s func = forward (\<lambda>q. async_send q (bind_worker s func)) s"

definition ma_receive :: "('w, 'f) member_async \<Rightarrow> ('w, 'f) member_async \<times> bool" where
  "ma_receive s = (let (q, r) = async_receive (mb_queue s) in (s\<lparr>mb_queue := q\<rparr>, r))"

definition ma_nullmsg :: "('w, 'f) member_async \<Rightarrow> ('w, 'f) member_async" where
  "ma_nullmsg s = s\<lparr>mb_queue := async_nullmsg (mb_queue s)\<rparr>"

section \<open>SignaledMemberQueue\<close>

definition sm_new :: "'w \<Rightarrow> ('w, ('w \<times> 'f) sq) member" where
  "sm_new worker = \<lparr>mb_queue = sq_new, mb_worker = worker\<rparr>"

definition sm_send :: "('w, ('w \<times> 'f) sq) member \<Rightarrow> 'f \<Rightarrow> ('w, ('w \<times> 'f) sq) member" where
  "sm_send s func = s\<lparr>mb_queue := sq_send (mb_queue s) (bind_worker s func)\<rparr>"

text \<open>\<open>receive\<close> returns \<open>bool\<close>: whether the count is not zero.\<close>

definition sm_receive :: "('w, ('w \<times> 'f) sq) member \<Rightarrow> (('w, ('w \<times> 'f) sq) member \<times> bool) option result" where
  "sm_receive s =
     rbind (sq_receive (mb_queue s)) (\<lambda>r. Inr (map_option (\<lambda>(q, n). (s\<lparr>mb_queue := q\<rparr>, n \<noteq> 0)) r))"

definition sm_nullmsg :: "('w, ('w \<times> 'f) sq) member \<Rightarrow> ('w, ('w \<times> 'f) sq) member" where
  "sm_nullmsg s = s\<lparr>mb_queue := sq_nullmsg (mb_queue s)\<rparr>"

section \<open>Which worker a function runs on\<close>

datatype ('w, 'f) member_op = MbSend 'f | MbNull | MbCallback | MbWorker 'w

fun ma_op :: "('w, 'f) member_async \<Rightarrow> ('w, 'f) member_op \<Rightarrow> ('w, 'f) member_async result" where
  "ma_op s (MbSend func) = ma_send s func"
| "ma_op s MbNull = Inr (ma_nullmsg s)"
| "ma_op s MbCallback = forward asyncCallback s"
| "ma_op s (MbWorker w) = Inr (setWorker w s)"

fun ma_run :: "('w, 'f) member_async \<Rightarrow> ('w, 'f) member_op list \<Rightarrow> ('w, 'f) member_async result" where
  "ma_run s [] = Inr s"
| "ma_run s (x # xs) = rbind (ma_op s x) (\<lambda>s. ma_run s xs)"

text \<open>The same operations on the queue inside: each function with the worker at the time it is sent.\<close>

fun bound_ops :: "'w \<Rightarrow> ('w, 'f) member_op list \<Rightarrow> ('w \<times> 'f) aop list" where
  "bound_ops w [] = []"
| "bound_ops w (MbSend func # xs) = ASend (w, func) # bound_ops w xs"
| "bound_ops w (MbNull # xs) = ANull # bound_ops w xs"
| "bound_ops w (MbCallback # xs) = ACallback # bound_ops w xs"
| "bound_ops w (MbWorker w' # xs) = bound_ops w' xs"

lemma forward_queue [simp]:
  "forward f s = Inr s' \<longleftrightarrow> f (mb_queue s) = Inr (mb_queue s') \<and> mb_worker s' = mb_worker s"
  by (cases s; cases s') (auto simp: rbind_eq_Inr_iff)

lemma ma_run_queue:
  "async_run (mb_queue s) (bound_ops (mb_worker s) xs) = Inr q \<Longrightarrow> \<exists>s'. ma_run s xs = Inr s' \<and> mb_queue s' = q"
proof (induction xs arbitrary: s)
  case (Cons x xs)
  show ?case
  proof (cases x)
    case (MbSend func)
    with Cons.prems obtain q1 where q1: "async_send (mb_queue s) (bind_worker s func) = Inr q1"
      "async_run q1 (bound_ops (mb_worker s) xs) = Inr q"
      by (auto simp: rbind_eq_Inr_iff bind_worker_def)
    from Cons.IH [of "s\<lparr>mb_queue := q1\<rparr>"] q1 MbSend show ?thesis by (simp add: ma_send_def)
  next
    case MbNull
    with Cons.IH [of "ma_nullmsg s"] Cons.prems show ?thesis by (simp add: ma_nullmsg_def)
  next
    case MbCallback
    with Cons.prems obtain q1 where q1: "asyncCallback (mb_queue s) = Inr q1"
      "async_run q1 (bound_ops (mb_worker s) xs) = Inr q"
      by (auto simp: rbind_eq_Inr_iff)
    from Cons.IH [of "s\<lparr>mb_queue := q1\<rparr>"] q1 MbCallback show ?thesis by simp
  next
    case (MbWorker w)
    with Cons.IH [of "setWorker w s"] Cons.prems show ?thesis by (simp add: setWorker_def)
  qed
qed simp

text \<open>\<open>setWorker\<close> concerns what is sent from then on: each function runs on the worker there was when it
  was sent, in the order sent, whenever libev calls back.\<close>

theorem member_runs_on_sender_worker:
  "\<exists>s done left. rbind (ma_start (ma_new w) l) (\<lambda>s. ma_run s ops) = Inr s \<and>
     aq_ran (mb_queue s) = commands done \<and> aposts (bound_ops w ops) = done @ left"
proof -
  obtain a d left where a: "rbind (async_start async_new l) (\<lambda>a. async_run a (bound_ops w ops)) = Inr a"
    "aq_ran a = commands d" "aposts (bound_ops w ops) = d @ left"
    using async_fifo_run by blast
  then obtain a0 where a0: "async_start async_new l = Inr a0" "async_run a0 (bound_ops w ops) = Inr a"
    by (auto simp: rbind_eq_Inr_iff)
  define s0 where "s0 = \<lparr>mb_queue = a0, mb_worker = w\<rparr>"
  have "ma_start (ma_new w) l = Inr s0" using a0(1) by (simp add: ma_start_def ma_new_def s0_def)
  moreover obtain s where "ma_run s0 ops = Inr s" "mb_queue s = a"
    using ma_run_queue [of s0 ops a] a0(2) by (auto simp: s0_def)
  ultimately show ?thesis using a(2,3) by auto
qed

lemma mm_sends_queue:
  "mb_queue (foldl mm_send s funcs) = foldl mq_op (mb_queue s) (map (\<lambda>f. MSend (mb_worker s, f)) funcs)"
  by (induction funcs arbitrary: s) (simp_all add: mm_send_def bind_worker_def)

text \<open>A \<open>MemberMessageQueue\<close> inherits that nothing arrives.\<close>

theorem member_queue_sleeps:
  "\<exists>s'. mm_run (foldl mm_send (mm_new w) funcs) = Some (Blocked s')"
  using mqueue_sleeps [of "map (\<lambda>f. MSend (w, f)) funcs"]
  by (auto simp: mm_run_def mm_sends_queue) (auto simp: mm_new_def)

end
