(* ===== verification/LinkPair.thy ===== *)
theory LinkPair
  imports StreamLink
begin

text \<open>
  Two links and the network between them: what one kernel has taken is on the way to the other, in order.
  Events come in any order and each moves as many bytes as the kernels like, or fails.
\<close>

section \<open>What an event leaves in the trace\<close>

text \<open>The trace is extended, and nothing is received.\<close>

definition kept :: "link_event list \<Rightarrow> slink \<Rightarrow> bool" where
  "kept t l \<longleftrightarrow> (\<exists>es. l_trace l = t @ es \<and> (\<forall>bs. Received bs \<notin> set es))"

lemma kept_refl: "kept (l_trace l) l"
  by (simp add: kept_def)

lemma kept_same: "kept t l \<Longrightarrow> l_trace l' = l_trace l \<Longrightarrow> kept t l'"
  by (simp add: kept_def)

lemma kept_log: "kept t l \<Longrightarrow> (\<And>bs. e \<noteq> Received bs) \<Longrightarrow> kept t (log e l)"
  unfolding kept_def log_def
proof (elim exE conjE)
  fix es assume "\<And>bs. e \<noteq> Received bs" "l_trace l = t @ es" "\<forall>bs. Received bs \<notin> set es"
  then show "\<exists>es. l_trace (l\<lparr>l_trace := l_trace l @ [e]\<rparr>) = t @ es \<and> (\<forall>bs. Received bs \<notin> set es)"
    by (intro exI [of _ "es @ [e]"]) auto
qed

named_theorems kept_intros \<open>what receives nothing\<close>

lemma kept_fields [kept_intros]:
  assumes "kept t l"
  shows "kept t (l\<lparr>m_in := b\<rparr>)" "kept t (l\<lparr>m_out := b\<rparr>)" "kept t (l\<lparr>m_state := st\<rparr>)" "kept t (l\<lparr>m_receive := v\<rparr>)"
    "kept t (l\<lparr>m_state := st, saved_errno := e\<rparr>)" "kept t (l\<lparr>m_handler := h\<rparr>)" "kept t (l\<lparr>m_reactor := v\<rparr>)"
  using assms by (simp_all add: kept_def)

lemma kept_saw_error [kept_intros]: "kept t l \<Longrightarrow> kept t (saw_error st got l)"
  by (auto simp: saw_error_def intro: kept_intros split: sys_ret.splits)

lemma kept_user_call: "user_call u l = Inr l' \<Longrightarrow> kept t l \<Longrightarrow> kept t l'"
  by (cases u)
    (auto simp: link_write_def rbind_eq_Inr_iff advance_def setReceiving_def makeDisconnect_def
      intro!: kept_log kept_intros)

lemma kept_user_calls: "user_calls us l = Inr l' \<Longrightarrow> kept t l \<Longrightarrow> kept t l'"
  by (induction us arbitrary: l) (auto simp: rbind_eq_Inr_iff dest: kept_user_call)

lemma kept_invoke: "invoke cb l = Inr l' \<Longrightarrow> kept t l \<Longrightarrow> kept t l'"
  by (cases cb) (auto simp: invoke_def dest: kept_user_calls)

lemma kept_start: "kept t l \<Longrightarrow> kept t (ev_io_start l)"
  by (auto simp: ev_io_start_def intro!: kept_log kept_intros)

lemma kept_stop: "kept t l \<Longrightarrow> kept t (ev_io_stop l)"
  by (auto simp: ev_io_stop_def intro!: kept_log kept_intros)

lemma kept_set_events: "kept t l \<Longrightarrow> kept t (set_io_events ev l)"
  by (auto simp: set_io_events_def Let_def intro!: kept_start kept_stop kept_intros)

lemma kept_prepare: "prepareEvents l = Inr (l', ok) \<Longrightarrow> kept t l \<Longrightarrow> kept t l'"
  by (auto simp: prepareEvents_def kept_set_events split: if_splits)

lemma kept_processWrite:
  assumes "processWrite os l = Inr l'" "kept t l"
  shows "kept t l'"
  using assms
  by (auto simp: processWrite_def rbind_eq_Inr_iff Let_def split: if_splits sys_ret.splits
      intro!: kept_log kept_intros dest!: kept_invoke)

text \<open>A receive that fits is in the trace before anything else.\<close>

definition brought :: "(nat \<Rightarrow> byte list sys_ret) \<Rightarrow> slink \<Rightarrow> link_event list" where
  "brought recv l =
     (case recv (unat (nb_writable (m_in l)) + 4096) of SysOk bs \<Rightarrow> [Received bs] | SysErr _ \<Rightarrow> [])"

lemma kept_processRead:
  assumes "processRead recv l = Inr l'" "nb_ok (m_in l)" "\<not> overruns recv l"
  shows "kept (l_trace l @ brought recv l) l'"
proof (cases "recv (unat (nb_writable (m_in l)) + 4096)")
  case (SysErr e)
  then have "bufferedRecv recv (m_in l) = Inr (m_in l, SysErr e)"
    by (simp add: bufferedRecv_def Let_def)
  moreover have "kept (l_trace l @ brought recv l) l" using SysErr by (simp add: brought_def kept_refl)
  ultimately show ?thesis
    using assms(1)
    by (auto simp: processRead_def rbind_eq_Inr_iff Let_def split: if_splits intro!: kept_intros dest!: kept_invoke)
next
  case (SysOk bs)
  have len: "length bs \<le> nb_size (m_in l) - nb_w (m_in l)"
    using assms(3) SysOk nb_writable_ok [OF assms(2)] by (simp add: overruns_def Let_def)
  obtain b where b: "bufferedRecv recv (m_in l) = Inr (b, SysOk (length bs))" "nb_data b = nb_data (m_in l) @ bs"
    using bufferedRecv_fits [of "m_in l" recv bs, OF assms(2) SysOk len] by blast
  have "kept (l_trace l @ brought recv l) (log (Received bs) (l\<lparr>m_in := b\<rparr>))"
    using SysOk by (simp add: brought_def kept_def log_def)
  then show ?thesis
    using assms(1) b
    by (auto simp: processRead_def saw_error_def rbind_eq_Inr_iff Let_def split: if_splits
        intro!: kept_intros dest!: kept_invoke)
qed

lemma kept_onEvent:
  assumes "onEvent recv send l = Inr l'" "nb_ok (m_in l)" "\<not> overruns recv l"
  shows "kept (l_trace l @ brought recv l) l'"
proof -
  obtain l1 l2 l3 ok where 1: "processRead recv l = Inr l1"
    and 2: "(if m_state l1 = OK then processWrite send l1 else Inr l1) = Inr l2"
    and 3: "prepareEvents l2 = Inr (l3, ok)"
    and 4: "ok \<Longrightarrow> l' = l3"
    and 5: "\<not> ok \<Longrightarrow> \<exists>l4. invoke (onDispose (link_destroy (ev_io_stop l3))) (link_destroy (ev_io_stop l3)) = Inr l4
      \<and> l' = log Disposed l4"
    using assms(1) by (fastforce simp: onEvent_def rbind_eq_Inr_iff link_stop_def Let_def split: if_splits)
  have "kept (l_trace l @ brought recv l) l2"
    using 2 kept_processRead [OF 1 assms(2,3)] kept_processWrite by (auto split: if_splits)
  then have "kept (l_trace l @ brought recv l) l3" using kept_prepare [OF 3] by simp
  then show ?thesis
    using 4 5 by (cases ok) (auto simp: link_destroy_def intro!: kept_log kept_stop dest!: kept_invoke split: if_splits)
qed

section \<open>The wire\<close>

definition bytes_sent :: "link_event list \<Rightarrow> byte list" where
  "bytes_sent es = concat (map (\<lambda>e. case e of Sent bs \<Rightarrow> bs | _ \<Rightarrow> []) es)"

definition bytes_received :: "link_event list \<Rightarrow> byte list" where
  "bytes_received es = concat (map (\<lambda>e. case e of Received bs \<Rightarrow> bs | _ \<Rightarrow> []) es)"

text \<open>A side is a truth value; \<open>wi_fly s\<close> is on its way from side \<open>s\<close> to the other.\<close>

record wire =
  wi_link :: "bool \<Rightarrow> slink"
  wi_fly :: "bool \<Rightarrow> byte list"

text \<open>What the kernel answers: an error, or as many of the bytes on the way as it likes, at least one and at most
  \<open>n\<close>, which is what \<open>readv\<close> was offered. A connection whose other
  side was closed ends when everything has arrived.\<close>

definition net_recv :: "nat + nat \<Rightarrow> byte list \<Rightarrow> bool \<Rightarrow> nat \<Rightarrow> byte list sys_ret" where
  "net_recv r fly closed n =
     (case r of
        Inl e \<Rightarrow> SysErr e
      | Inr j \<Rightarrow>
          let bs = take (min (Suc j) n) fly in
          if bs \<noteq> [] \<or> fly = [] \<and> closed then SysOk bs else SysErr 11)"

definition net_send :: "nat + nat \<Rightarrow> byte list \<Rightarrow> nat sys_ret" where
  "net_send r bs = (case r of Inl e \<Rightarrow> SysErr e | Inr k \<Rightarrow> SysOk (min (Suc k) (length bs)))"

definition side_closed :: "slink \<Rightarrow> bool" where
  "side_closed l \<longleftrightarrow> list_ex (\<lambda>e. case e of CloseFd _ \<Rightarrow> True | _ \<Rightarrow> False) (l_trace l)"

datatype wire_act = WUser bool user_op | WStart bool | WStop bool | WEvent bool "nat + nat" "nat + nat"

text \<open>After an event, what the kernel gave to the link is no longer on its way, and what it took is.\<close>

definition settle :: "bool \<Rightarrow> slink \<Rightarrow> wire \<Rightarrow> wire" where
  "settle s l w =
     (let es = drop (length (l_trace (wi_link w s))) (l_trace l) in
      w\<lparr>wi_link := (wi_link w)(s := l),
        wi_fly := (wi_fly w)(s := wi_fly w s @ bytes_sent es,
                             (\<not> s) := drop (length (bytes_received es)) (wi_fly w (\<not> s)))\<rparr>)"

definition wire_event :: "wire \<Rightarrow> bool \<Rightarrow> nat + nat \<Rightarrow> nat + nat \<Rightarrow> link_act" where
  "wire_event w s r k = LEvent (net_recv r (wi_fly w (\<not> s)) (side_closed (wi_link w (\<not> s)))) (net_send k)"

fun wire_op :: "wire_act \<Rightarrow> wire \<Rightarrow> wire result" where
  "wire_op (WUser s u) w = rbind (link_op (LUser u) (wi_link w s)) (\<lambda>l. Inr (settle s l w))"
| "wire_op (WStart s) w = rbind (link_op LStart (wi_link w s)) (\<lambda>l. Inr (settle s l w))"
| "wire_op (WStop s) w = rbind (link_op LStop (wi_link w s)) (\<lambda>l. Inr (settle s l w))"
| "wire_op (WEvent s r k) w =
     rbind (link_op (wire_event w s r k) (wi_link w s)) (\<lambda>l. Inr (settle s l w))"

fun wire_run :: "wire_act list \<Rightarrow> wire \<Rightarrow> wire result" where
  "wire_run [] w = Inr w"
| "wire_run (x # xs) w = rbind (wire_op x w) (wire_run xs)"

text \<open>Whether a receive of the run brings more than the input buffer of its link has room for.\<close>

fun wire_overruns :: "wire_act list \<Rightarrow> wire \<Rightarrow> bool" where
  "wire_overruns [] w = False"
| "wire_overruns (x # xs) w =
     ((case x of WEvent s r k \<Rightarrow> act_overruns (wire_event w s r k) (wi_link w s) | _ \<Rightarrow> False) \<or>
      (case wire_op x w of Inl _ \<Rightarrow> False | Inr w \<Rightarrow> wire_overruns xs w))"

definition wire_new :: "slink \<Rightarrow> slink \<Rightarrow> wire" where
  "wire_new a b = \<lparr>wi_link = (\<lambda>s. if s then a else b), wi_fly = (\<lambda>_. [])\<rparr>"

section \<open>Nothing is lost between the links\<close>

definition wire_inv :: "nat \<Rightarrow> nat \<Rightarrow> wire \<Rightarrow> bool" where
  "wire_inv B n w \<longleftrightarrow>
     (\<forall>s. stream_inv B n (wi_link w s) \<and> sent (wi_link w s) = received (wi_link w (\<not> s)) @ wi_fly w s)"

lemma wire_inv_mono: "wire_inv B n w \<Longrightarrow> n \<le> m \<Longrightarrow> wire_inv B m w"
  unfolding wire_inv_def using stream_inv_mono by blast

lemma bytes_trace: "sent l = bytes_sent (l_trace l)" "received l = bytes_received (l_trace l)"
  by (simp_all add: sent_def received_def bytes_sent_def bytes_received_def)

lemma bytes_append [simp]:
  "bytes_sent (xs @ ys) = bytes_sent xs @ bytes_sent ys"
  "bytes_received (xs @ ys) = bytes_received xs @ bytes_received ys"
  by (simp_all add: bytes_sent_def bytes_received_def)

lemma none_received: "\<forall>bs. Received bs \<notin> set es \<Longrightarrow> bytes_received es = []"
  by (induction es) (auto simp: bytes_received_def split: link_event.splits)

lemma settle_inv:
  assumes w: "wire_inv B n w" and l: "stream_inv B m l" "n \<le> m" and k: "kept (l_trace (wi_link w s) @ rs) l"
    and r: "bytes_received rs = take j (wi_fly w (\<not> s))"
  shows "wire_inv B m (settle s l w)"
proof -
  obtain es where es: "l_trace l = l_trace (wi_link w s) @ rs @ es" "bytes_received es = []"
    using k none_received by (auto simp: kept_def)
  have sent: "sent (wi_link w s') = received (wi_link w (\<not> s')) @ wi_fly w s'" for s'
    using w by (simp add: wire_inv_def)
  have new: "sent l = sent (wi_link w s) @ bytes_sent (rs @ es)"
    "received l = received (wi_link w s) @ take j (wi_fly w (\<not> s))"
    using es r by (simp_all add: bytes_trace)
  have "drop (length (take j (wi_fly w (\<not> s)))) (wi_fly w (\<not> s)) = drop j (wi_fly w (\<not> s))" by (simp add: min_def)
  then have fly: "wi_fly (settle s l w) = (wi_fly w)(s := wi_fly w s @ bytes_sent (rs @ es), (\<not> s) := drop j (wi_fly w (\<not> s)))"
    using es r by (simp add: settle_def)
  have link: "wi_link (settle s l w) = (wi_link w)(s := l)" by (simp add: settle_def Let_def)
  have "stream_inv B m (wi_link (settle s l w) s')" for s'
    using w l stream_inv_mono [of B n "wi_link w s'" m]
    by (cases "s' = s") (simp_all only: link wire_inv_def fun_upd_same fun_upd_other not_False_eq_True simp_thms)
  moreover have "sent (wi_link (settle s l w) s') = received (wi_link (settle s l w) (\<not> s')) @ wi_fly (settle s l w) s'" for s'
  proof (cases "s' = s")
    case True
    then show ?thesis using new(1) sent [of s] by (simp add: link fly)
  next
    case False
    then have "s' = (\<not> s)" by auto
    then show ?thesis using new(2) sent [of "\<not> s"] by (simp add: link fly)
  qed
  ultimately show ?thesis by (simp add: wire_inv_def)
qed

lemma net_recv_fits: "recv_fits (net_recv r fly closed)"
  by (auto simp: recv_fits_def net_recv_def Let_def split: sum.splits if_splits)

lemma net_send_fits: "send_fits (net_send r)"
  by (auto simp: send_fits_def net_send_def split: sum.splits)

lemma net_recv_brought: "\<exists>j. bytes_received (brought (net_recv r fly closed) l) = take j fly"
proof (cases "net_recv r fly closed (unat (nb_writable (m_in l)) + 4096)")
  case (SysOk bs)
  then obtain j where "bs = take j fly"
    by (auto simp: net_recv_def Let_def split: sum.splits if_splits)
  then show ?thesis using SysOk by (auto simp: brought_def bytes_received_def)
next
  case (SysErr e)
  then show ?thesis by (auto simp: brought_def bytes_received_def intro: exI [of _ 0])
qed

definition wire_act_ok :: "nat \<Rightarrow> wire_act \<Rightarrow> bool" where
  "wire_act_ok B x \<longleftrightarrow> (case x of WUser s u \<Rightarrow> op_bytes u \<le> B | _ \<Rightarrow> True)"

lemma kept_user_op: "link_op (LUser u) l = Inr l' \<Longrightarrow> kept (l_trace l @ []) l'"
  using kept_user_call kept_refl by simp

lemma kept_stop_op: "link_op LStop l = Inr l' \<Longrightarrow> kept (l_trace l @ []) l'"
  using kept_stop [OF kept_refl [of l]] by (simp add: link_stop_def split: if_splits)

lemma kept_start_op:
  assumes "link_op LStart l = Inr l'"
  shows "kept (l_trace l @ []) l'"
proof -
  obtain l1 ok where "prepareEvents (l\<lparr>m_reactor := True\<rparr>) = Inr (l1, ok)" "l' = (if ok then ev_io_start l1 else l1)"
    using assms by (auto simp: link_start_def rbind_eq_Inr_iff Let_def)
  moreover have "kept (l_trace l) (l\<lparr>m_reactor := True\<rparr>)" using kept_refl [of l] by (rule kept_intros)
  ultimately show ?thesis using kept_prepare kept_start by (auto split: if_splits)
qed

lemma wire_op_ok:
  assumes w: "wire_inv B n w" and B: "n + 3 * B < 2 ^ 62" and x: "wire_act_ok B x"
    and room: "\<And>s r k. x = WEvent s r k \<Longrightarrow> \<not> act_overruns (wire_event w s r k) (wi_link w s)"
  shows "\<exists>w'. wire_op x w = Inr w' \<and> wire_inv B (n + 3 * B) w'"
proof (cases x)
  case (WUser s u)
  have l: "stream_inv B n (wi_link w s)" using w by (simp add: wire_inv_def)
  obtain l' where l': "link_op (LUser u) (wi_link w s) = Inr l'" "stream_inv B (n + 3 * B) l'"
    using link_op_ok [OF l B, of "LUser u"] x WUser by (auto simp: act_ok_def wire_act_ok_def act_overruns_def)
  have "wire_inv B (n + 3 * B) (settle s l' w)"
    by (rule settle_inv [OF w l'(2) _ kept_user_op [OF l'(1)], where j = 0]) (simp_all add: bytes_received_def)
  then show ?thesis using WUser l'(1) by simp
next
  case (WStart s)
  have l: "stream_inv B n (wi_link w s)" using w by (simp add: wire_inv_def)
  obtain l' where l': "link_op LStart (wi_link w s) = Inr l'" "stream_inv B (n + 3 * B) l'"
    using link_op_ok [OF l B, of LStart] by (auto simp: act_ok_def act_overruns_def)
  have "wire_inv B (n + 3 * B) (settle s l' w)"
    by (rule settle_inv [OF w l'(2) _ kept_start_op [OF l'(1)], where j = 0]) (simp_all add: bytes_received_def)
  then show ?thesis using WStart l'(1) by simp
next
  case (WStop s)
  have l: "stream_inv B n (wi_link w s)" using w by (simp add: wire_inv_def)
  obtain l' where l': "link_op LStop (wi_link w s) = Inr l'" "stream_inv B (n + 3 * B) l'"
    using link_op_ok [OF l B, of LStop] by (auto simp: act_ok_def act_overruns_def)
  have "wire_inv B (n + 3 * B) (settle s l' w)"
    by (rule settle_inv [OF w l'(2) _ kept_stop_op [OF l'(1)], where j = 0]) (simp_all add: bytes_received_def)
  then show ?thesis using WStop l'(1) by simp
next
  case (WEvent s r k)
  let ?l = "wi_link w s" and ?recv = "net_recv r (wi_fly w (\<not> s)) (side_closed (wi_link w (\<not> s)))"
  have l: "stream_inv B n ?l" using w by (simp add: wire_inv_def)
  have ev: "wire_event w s r k = LEvent ?recv (net_send k)" by (simp add: wire_event_def)
  have ok: "\<not> act_overruns (LEvent ?recv (net_send k)) ?l" using room [OF WEvent] by (simp add: ev)
  obtain l' where l': "link_op (LEvent ?recv (net_send k)) ?l = Inr l'" "stream_inv B (n + 3 * B) l'"
    using link_op_ok [OF l B _ ok] net_recv_fits net_send_fits by (auto simp: act_ok_def)
  obtain rs j where "kept (l_trace ?l @ rs) l'" "bytes_received rs = take j (wi_fly w (\<not> s))"
  proof (cases "waiting ?l")
    case True
    then have "\<not> overruns ?recv ?l" "onEvent ?recv (net_send k) ?l = Inr l'"
      using ok l'(1) by (simp_all add: act_overruns_def)
    then have "kept (l_trace ?l @ brought ?recv ?l) l'"
      using kept_onEvent [OF _ stream_inv_nb(1) [OF l]] by blast
    then show ?thesis using net_recv_brought that by blast
  next
    case False
    then have "kept (l_trace ?l @ []) l'" using l'(1) kept_refl [of ?l] by simp
    then show ?thesis using that [of "[]" 0] by (simp add: bytes_received_def)
  qed
  then have "wire_inv B (n + 3 * B) (settle s l' w)" using settle_inv [OF w l'(2)] by simp
  then show ?thesis using WEvent l'(1) by (simp add: ev)
qed

lemma wire_op_overruns:
  assumes "wire_inv B n w" "act_overruns (wire_event w s r k) (wi_link w s)"
  shows "wire_op (WEvent s r k) w = Inl OutOfBounds"
proof -
  have "stream_inv B n (wi_link w s)" using assms(1) by (simp add: wire_inv_def)
  moreover have "act_ok B (wire_event w s r k)"
    using net_recv_fits net_send_fits by (simp add: act_ok_def wire_event_def)
  ultimately have "link_op (wire_event w s r k) (wi_link w s) = Inl OutOfBounds"
    using assms(2) by (rule link_op_overruns)
  then show ?thesis by simp
qed

lemma wire_run_ok:
  "wire_inv B n w \<Longrightarrow> n + length xs * (3 * B) < 2 ^ 62 \<Longrightarrow> (\<forall>x\<in>set xs. wire_act_ok B x) \<Longrightarrow>
   if wire_overruns xs w then wire_run xs w = Inl OutOfBounds
   else \<exists>w'. wire_run xs w = Inr w' \<and> wire_inv B (n + length xs * (3 * B)) w'"
proof (induction xs arbitrary: n w)
  case (Cons x xs)
  show ?case
  proof (cases "\<exists>s r k. x = WEvent s r k \<and> act_overruns (wire_event w s r k) (wi_link w s)")
    case True
    then show ?thesis using wire_op_overruns [OF Cons.prems(1)] by auto
  next
    case False
    obtain w1 where w1: "wire_op x w = Inr w1" "wire_inv B (n + 3 * B) w1"
      using wire_op_ok [OF Cons.prems(1), of x] Cons.prems(2,3) False by fastforce
    moreover have "n + 3 * B + length xs * (3 * B) = n + length (x # xs) * (3 * B)" by simp
    moreover have "wire_overruns (x # xs) w = wire_overruns xs w1"
      using False w1(1) by (auto simp del: wire_op.simps split: wire_act.split)
    ultimately show ?thesis using Cons.IH [of "n + 3 * B" w1] Cons.prems(2,3)
      by (metis wire_run.simps(2) list.set_intros(2) rbind_simps(2))
  qed
qed simp

section \<open>Properties\<close>

lemma setup_quiet:
  "link_run [LCallbacks r w d, LInit sock, LStart] (link_new g) = Inr l \<Longrightarrow> sent l = [] \<and> received l = []"
  by (auto simp: link_new_def link_init_def link_start_def prepareEvents_def set_io_events_def ev_io_start_def
      ev_io_stop_def log_def stream_defs Let_def split: if_splits)


definition link_opened :: "link_act list" where
  "link_opened = [LCallbacks (Some [URead 2]) (Some []) (Some []), LInit 7, LStart]"

definition wire_talk :: "wire_act list" where
  "wire_talk = [WUser True (UWrite [1, 2, 3]), WStart True, WEvent True (Inl 11) (Inr 1),
     WUser False (UWrite [9]), WStart False, WEvent False (Inr 0) (Inl 11)]"

lemmas link_eval = link_new_def link_init_def link_start_def link_write_def prepareEvents_def set_io_events_def
  ev_io_start_def ev_io_stop_def wanted_events_def isSending_def EV_WRITE_def nb_append_def nb_new_def
  nb_writable_def nb_pending_def nb_size_def nb_written_def nb_processed_def nb_reset_def nb_data_def mem_write_def
  mem_read_def log_def waiting_def act_overruns_def overruns_def
  onEvent_def processRead_def processWrite_def bufferedRecv_def bufferedSend_def saw_error_def try_again_def invoke_def

lemma wire_talk_fits:
  assumes "link_run link_opened link_blank = Inr a"
  shows "\<not> wire_overruns wire_talk (wire_new a a)"
proof -
  have a: "a = \<lparr>m_handler = \<lparr>w_fd = 9, w_events = 0, w_active = True\<rparr>, m_state = OK, saved_errno = 0, m_receive = False,
    m_sock = 7, onRead = Some [URead 2], onWriteCompleted = Some [], onDispose = Some [], m_in = nb_new 2048,
    m_out = nb_new 2048, m_reactor = True, l_trace = [EvStart 9 0]\<rparr>"
    using assms by (simp add: link_opened_def link_blank_def link_eval)
  show ?thesis unfolding a wire_talk_def
    by (simp add: wire_new_def wire_event_def link_eval splice_def settle_def net_recv_def net_send_def bytes_sent_def
        bytes_received_def side_closed_def Let_def split: sum.split)
qed


end
