(* ===== verification/MpscThreads.thy ===== *)
theory MpscThreads
  imports MpscQueue
begin

text \<open>
  \<open>msgqueue/queue/mpsc_queue.hpp\<close> under all interleavings: any number of producers and one consumer,
  one access to memory per step. Unlike the nodes of \<open>IntMpscConc\<close> these are allocated by \<open>push\<close> and
  deleted by \<open>pop\<close>, and an address that was freed may be handed out again; an access to an address
  that is not allocated is a fault.
\<close>

section \<open>Threads\<close>

datatype 'd qpc =
    QIdle
  | QData nat 'd          \<comment> \<open>\<open>next\<close> is allocated: about to run \<open>next->data = data\<close>\<close>
  | QNull nat 'd          \<comment> \<open>about to run \<open>next->next = NULL\<close>\<close>
  | QXchg nat 'd          \<comment> \<open>about to run \<open>prev = tail.exchange(next)\<close>\<close>
  | QLink nat nat         \<comment> \<open>\<open>prev\<close>, \<open>next\<close>: about to run \<open>prev->next = next\<close>\<close>

datatype 'd rpc =
    RStart                \<comment> \<open>about to load \<open>head\<close>\<close>
  | RNext nat             \<comment> \<open>\<open>h\<close>: about to load \<open>h->next\<close>\<close>
  | RHead nat nat         \<comment> \<open>\<open>h\<close>, \<open>next\<close>: about to store \<open>head\<close>\<close>
  | RData nat nat         \<comment> \<open>about to load \<open>next->data\<close>\<close>
  | RDelete nat 'd        \<comment> \<open>about to delete \<open>h\<close>\<close>
  | RDone "'d option"     \<comment> \<open>\<open>pop\<close> has returned\<close>

text \<open>\<open>qt_chain\<close>, \<open>qt_sent\<close> and \<open>qt_got\<close> are history: the nodes from \<open>head\<close> in the order of the exchanges, the
  data exchanged and the data popped.\<close>

record 'd qt =
  qt_q :: "'d mpscq"
  qt_push :: "nat \<Rightarrow> 'd qpc"
  qt_pop :: "'d rpc"
  qt_chain :: "nat list"
  qt_sent :: "'d list"
  qt_got :: "'d list"

definition qt_new :: "'d \<Rightarrow> 'd qt" where
  "qt_new zero = \<lparr>qt_q = q_new zero, qt_push = (\<lambda>_. QIdle), qt_pop = RStart, qt_chain = [0], qt_sent = [], qt_got = []\<rparr>"

text \<open>\<open>new Node()\<close> clears a node at an address \<open>a\<close> that is free.\<close>

definition push_new :: "'d \<Rightarrow> 'd qt \<Rightarrow> nat \<Rightarrow> nat \<Rightarrow> 'd \<Rightarrow> 'd qt" where
  "push_new zero s i a d =
     (let q = qt_q s in
      s\<lparr>qt_q := q\<lparr>q_heap := (q_heap q)(a \<mapsto> \<lparr>qn_next = None, qn_data = zero\<rparr>), q_fresh := max (q_fresh q) (Suc a)\<rparr>,
        qt_push := (qt_push s)(i := QData a d)\<rparr>)"

definition push_step :: "'d qt \<Rightarrow> nat \<Rightarrow> 'd qt result" where
  "push_step s i =
     (let q = qt_q s; go = (\<lambda>q pc. s\<lparr>qt_q := q, qt_push := (qt_push s)(i := pc)\<rparr>) in
      case qt_push s i of
        QIdle \<Rightarrow> Inr s
      | QData n d \<Rightarrow> rbind (q_get q n) (\<lambda>x. rbind (q_set q n (x\<lparr>qn_data := d\<rparr>)) (\<lambda>q. Inr (go q (QNull n d))))
      | QNull n d \<Rightarrow> rbind (q_get q n) (\<lambda>x. rbind (q_set q n (x\<lparr>qn_next := None\<rparr>)) (\<lambda>q. Inr (go q (QXchg n d))))
      | QXchg n d \<Rightarrow>
          Inr ((go (q\<lparr>q_tail := n\<rparr>) (QLink (q_tail q) n))\<lparr>qt_chain := qt_chain s @ [n], qt_sent := qt_sent s @ [d]\<rparr>)
      | QLink p n \<Rightarrow> rbind (q_get q p) (\<lambda>x. rbind (q_set q p (x\<lparr>qn_next := Some n\<rparr>)) (\<lambda>q. Inr (go q QIdle))))"

definition pop_step :: "'d qt \<Rightarrow> 'd qt result" where
  "pop_step s =
     (let q = qt_q s in
      case qt_pop s of
        RStart \<Rightarrow> Inr (s\<lparr>qt_pop := RNext (q_head q)\<rparr>)
      | RNext h \<Rightarrow> rbind (q_get q h) (\<lambda>x. Inr (s\<lparr>qt_pop := (case qn_next x of Some n \<Rightarrow> RHead h n | None \<Rightarrow> RDone None)\<rparr>))
      | RHead h n \<Rightarrow> Inr (s\<lparr>qt_q := q\<lparr>q_head := n\<rparr>, qt_pop := RData h n, qt_chain := tl (qt_chain s)\<rparr>)
      | RData h n \<Rightarrow> rbind (q_get q n) (\<lambda>x. Inr (s\<lparr>qt_pop := RDelete h (qn_data x)\<rparr>))
      | RDelete h d \<Rightarrow>
          rbind (q_delete q h) (\<lambda>q. Inr (s\<lparr>qt_q := q, qt_pop := RDone (Some d), qt_got := qt_got s @ [d]\<rparr>))
      | RDone r \<Rightarrow> Inr (s\<lparr>qt_pop := RStart\<rparr>))"

text \<open>A schedule: thread \<open>i\<close> calls \<open>push\<close> with \<open>d\<close> and gets the address \<open>a\<close>, takes its next step, or the
  consumer does.\<close>

datatype 'd qact = QCall nat nat 'd | QPush nat | QPop

fun qt_act :: "'d \<Rightarrow> 'd qt \<Rightarrow> 'd qact \<Rightarrow> 'd qt result" where
  "qt_act zero s (QCall i a d) =
     Inr (case (qt_push s i, q_heap (qt_q s) a) of (QIdle, None) \<Rightarrow> push_new zero s i a d | _ \<Rightarrow> s)"
| "qt_act zero s (QPush i) = push_step s i"
| "qt_act zero s QPop = pop_step s"

fun qt_run :: "'d \<Rightarrow> 'd qt \<Rightarrow> 'd qact list \<Rightarrow> 'd qt result" where
  "qt_run zero s [] = Inr s"
| "qt_run zero s (a # as) = rbind (qt_act zero s a) (\<lambda>s. qt_run zero s as)"

section \<open>Who owns a node\<close>

text \<open>A node is in the list, or held by the one producer that is about to put it there, or by the consumer
  that has taken it out and not yet deleted it.\<close>

fun qheld :: "'d qpc \<Rightarrow> nat set" where
  "qheld (QData n d) = {n}"
| "qheld (QNull n d) = {n}"
| "qheld (QXchg n d) = {n}"
| "qheld _ = {}"

fun qowned :: "'d rpc \<Rightarrow> nat set" where
  "qowned (RData h n) = {h}"
| "qowned (RDelete h d) = {h}"
| "qowned _ = {}"

definition qholds :: "(nat \<Rightarrow> 'd qpc) \<Rightarrow> nat set" where
  "qholds f = {n. \<exists>i. n \<in> qheld (f i)}"

definition qlinks :: "(nat \<Rightarrow> 'd qpc) \<Rightarrow> (nat \<times> nat) set" where
  "qlinks f = {(p, n). \<exists>i. f i = QLink p n}"

definition next_of :: "(nat \<rightharpoonup> 'd qnode) \<Rightarrow> nat \<Rightarrow> nat option" where
  "next_of h p = (case h p of None \<Rightarrow> None | Some x \<Rightarrow> qn_next x)"

definition data_of :: "(nat \<rightharpoonup> 'd qnode) \<Rightarrow> nat \<Rightarrow> 'd" where
  "data_of h p = qn_data (the (h p))"

text \<open>Two producers hold different nodes and link different ones; what they have written is there.\<close>

definition pushers_ok :: "(nat \<Rightarrow> 'd qpc) \<Rightarrow> (nat \<rightharpoonup> 'd qnode) \<Rightarrow> bool" where
  "pushers_ok f h \<longleftrightarrow>
     (\<forall>i j n. n \<in> qheld (f i) \<longrightarrow> n \<in> qheld (f j) \<longrightarrow> i = j) \<and>
     (\<forall>i j p n n'. f i = QLink p n \<longrightarrow> f j = QLink p n' \<longrightarrow> i = j) \<and>
     (\<forall>i n d. f i = QNull n d \<longrightarrow> data_of h n = d) \<and>
     (\<forall>i n d. f i = QXchg n d \<longrightarrow> data_of h n = d \<and> next_of h n = None)"

fun popper_ok :: "'d rpc \<Rightarrow> nat list \<Rightarrow> (nat \<Rightarrow> nat option) \<Rightarrow> bool" where
  "popper_ok (RNext h) ch nx = (h = hd ch)"
| "popper_ok (RHead h n) ch nx = (h = hd ch \<and> nx h = Some n)"
| "popper_ok (RData h n) ch nx = (n = hd ch)"
| "popper_ok _ ch nx = True"

text \<open>The data the consumer has taken out and not yet returned.\<close>

fun in_hand :: "(nat \<rightharpoonup> 'd qnode) \<Rightarrow> 'd rpc \<Rightarrow> 'd list" where
  "in_hand h (RData p n) = [data_of h n]"
| "in_hand h (RDelete p d) = [d]"
| "in_hand h _ = []"

definition owned_once :: "nat list \<Rightarrow> nat set \<Rightarrow> nat set \<Rightarrow> (nat \<rightharpoonup> 'd qnode) \<Rightarrow> bool" where
  "owned_once ch H R h \<longleftrightarrow>
     set ch \<inter> H = {} \<and> set ch \<inter> R = {} \<and> H \<inter> R = {} \<and> dom h = set ch \<union> H \<union> R"

abbreviation qheap :: "'d qt \<Rightarrow> nat \<rightharpoonup> 'd qnode" where
  "qheap s \<equiv> q_heap (qt_q s)"

definition qt_inv :: "'d qt \<Rightarrow> bool" where
  "qt_inv s \<longleftrightarrow>
     linked (next_of (qheap s)) (qlinks (qt_push s)) (qt_chain s) \<and>
     hd (qt_chain s) = q_head (qt_q s) \<and> last (qt_chain s) = q_tail (qt_q s) \<and>
     owned_once (qt_chain s) (qholds (qt_push s)) (qowned (qt_pop s)) (qheap s) \<and>
     pushers_ok (qt_push s) (qheap s) \<and> popper_ok (qt_pop s) (qt_chain s) (next_of (qheap s)) \<and>
     (\<forall>p\<in>dom (qheap s). p < q_fresh (qt_q s)) \<and>
     qt_sent s = qt_got s @ in_hand (qheap s) (qt_pop s) @ map (data_of (qheap s)) (tl (qt_chain s))"

lemma qt_inv_new: "qt_inv (qt_new zero)"
  by (auto simp: qt_inv_def qt_new_def q_new_def linked_def next_of_def qlinks_def owned_once_def qholds_def
      pushers_ok_def)

subsection \<open>One producer moves\<close>

lemma next_of_upd: "next_of (h(p \<mapsto> x)) = (next_of h)(p := qn_next x)"
  by (simp add: next_of_def fun_eq_iff)

lemma data_of_upd [simp]: "data_of (h(p \<mapsto> x)) q = (if q = p then qn_data x else data_of h q)"
  by (simp add: data_of_def)

lemma qlinks_same: "(\<forall>p n. f i \<noteq> QLink p n) \<Longrightarrow> (\<forall>p n. c \<noteq> QLink p n) \<Longrightarrow> qlinks (f(i := c)) = qlinks f"
  by (auto simp: qlinks_def) (metis fun_upd_apply)

lemma qlinks_add: "(\<forall>p n. f i \<noteq> QLink p n) \<Longrightarrow> qlinks (f(i := QLink p n)) = insert (p, n) (qlinks f)"
  by (auto simp: qlinks_def) (metis fun_upd_apply)

lemma qlinks_iff: "(p, n) \<in> qlinks f \<longleftrightarrow> (\<exists>i. f i = QLink p n)"
  by (simp add: qlinks_def)

lemma qlinks_own: "pushers_ok f h \<Longrightarrow> f i = QLink p n \<Longrightarrow> f j = QLink p m \<Longrightarrow> j = i"
  unfolding pushers_ok_def by blast

lemma qholds_own: "pushers_ok f h \<Longrightarrow> n \<in> qheld (f i) \<Longrightarrow> n \<in> qheld (f j) \<Longrightarrow> j = i"
  unfolding pushers_ok_def by blast

lemma qlinks_remove:
  assumes "f i = QLink p n" "pushers_ok f h"
  shows "qlinks (f(i := QIdle)) = qlinks f - {(p, n)}"
proof -
  have "(a, b) \<in> qlinks (f(i := QIdle)) \<longleftrightarrow> (a, b) \<in> qlinks f - {(p, n)}" for a b
  proof
    assume "(a, b) \<in> qlinks (f(i := QIdle))"
    then obtain j where j: "j \<noteq> i" "f j = QLink a b" unfolding qlinks_iff by (auto split: if_splits)
    have "(a, b) \<noteq> (p, n)" using qlinks_own [OF assms(2,1), of j] j by auto
    with j show "(a, b) \<in> qlinks f - {(p, n)}" unfolding Diff_iff qlinks_iff by blast
  next
    assume "(a, b) \<in> qlinks f - {(p, n)}"
    then obtain j where j: "f j = QLink a b" "(a, b) \<noteq> (p, n)" unfolding Diff_iff qlinks_iff by blast
    then have "(f(i := QIdle)) j = QLink a b" using assms(1) by auto
    then show "(a, b) \<in> qlinks (f(i := QIdle))" unfolding qlinks_iff by blast
  qed
  then show ?thesis by auto
qed

lemma qlinks_single:
  assumes "pushers_ok f h" "(p, n) \<in> qlinks f" "(p, m) \<in> qlinks f"
  shows "m = n"
proof -
  obtain i j where ij: "f i = QLink p n" "f j = QLink p m" using assms(2,3) unfolding qlinks_iff by blast
  have "j = i" by (rule qlinks_own [OF assms(1) ij])
  with ij show ?thesis by simp
qed

lemma qholds_same: "qheld c = qheld (f i) \<Longrightarrow> qholds (f(i := c)) = qholds f"
  by (auto simp: qholds_def)

lemma qholds_add: "qheld (f i) = {} \<Longrightarrow> qholds (f(i := c)) = qholds f \<union> qheld c"
  by (auto simp: qholds_def)

lemma qholds_remove:
  assumes "qheld (f i) = {n}" "qheld c = {}" "pushers_ok f h"
  shows "qholds (f(i := c)) = qholds f - {n}"
proof (rule set_eqI)
  fix m
  have "j = i" if "n \<in> qheld (f j)" for j
    using qholds_own [OF assms(3), of n i j] that assms(1) by simp
  moreover have "j \<noteq> i" if "m \<in> qheld (f j)" "m \<noteq> n" for j using that assms(1) by auto
  ultimately show "m \<in> qholds (f(i := c)) \<longleftrightarrow> m \<in> qholds f - {n}"
    using assms(2) unfolding qholds_def by (auto split: if_splits)
qed

subsection \<open>Every step keeps the invariant\<close>

lemma qt_invD:
  assumes "qt_inv s"
  shows "linked (next_of (qheap s)) (qlinks (qt_push s)) (qt_chain s)" "qt_chain s \<noteq> []"
    "hd (qt_chain s) = q_head (qt_q s)" "last (qt_chain s) = q_tail (qt_q s)"
    "owned_once (qt_chain s) (qholds (qt_push s)) (qowned (qt_pop s)) (qheap s)"
    "pushers_ok (qt_push s) (qheap s)" "popper_ok (qt_pop s) (qt_chain s) (next_of (qheap s))"
    "\<And>p x. qheap s p = Some x \<Longrightarrow> p < q_fresh (qt_q s)"
    "qt_sent s = qt_got s @ in_hand (qheap s) (qt_pop s) @ map (data_of (qheap s)) (tl (qt_chain s))"
  using assms linked_nonempty unfolding qt_inv_def by blast+

lemma in_chain_alloc: "owned_once ch H R h \<Longrightarrow> p \<in> set ch \<union> H \<union> R \<Longrightarrow> \<exists>x. h p = Some x"
  unfolding owned_once_def by blast

text \<open>A write to a node that keeps its data, or is to a node that a producer holds.\<close>

lemma in_hand_cong:
  "popper_ok c ch nx \<Longrightarrow> ch \<noteq> [] \<Longrightarrow> (\<And>p. p \<in> set ch \<Longrightarrow> data_of h' p = data_of h p) \<Longrightarrow> in_hand h' c = in_hand h c"
  by (cases c) auto

lemma map_tl_cong: "(\<And>p. p \<in> set ch \<Longrightarrow> f p = g p) \<Longrightarrow> map f (tl ch) = map g (tl ch)"
  by (cases ch) auto

lemma popper_outside:
  "popper_ok c ch nx \<Longrightarrow> ch \<noteq> [] \<Longrightarrow> n \<notin> set ch \<Longrightarrow> popper_ok c ch (nx(n := v))"
  by (cases c) auto

lemma popper_snoc: "popper_ok c ch nx \<Longrightarrow> ch \<noteq> [] \<Longrightarrow> popper_ok c (ch @ [n]) nx"
  by (cases c) auto

lemma popper_link:
  "popper_ok c ch nx \<Longrightarrow> nx p = None \<Longrightarrow> popper_ok c ch (nx(p := v))"
  by (cases c) auto

text \<open>Producer \<open>i\<close> goes on to \<open>c\<close>, and the nodes the others hold stay as they are.\<close>

lemma pushers_move:
  assumes ok: "pushers_ok f h"
    and held: "\<And>j n. j \<noteq> i \<Longrightarrow> n \<in> qheld c \<Longrightarrow> n \<notin> qheld (f j)"
    and link: "\<And>j p n m. j \<noteq> i \<Longrightarrow> c = QLink p n \<Longrightarrow> f j \<noteq> QLink p m"
    and other: "\<And>j n. j \<noteq> i \<Longrightarrow> n \<in> qheld (f j) \<Longrightarrow> h' n = h n"
    and own: "\<And>n d. c = QNull n d \<Longrightarrow> data_of h' n = d"
      "\<And>n d. c = QXchg n d \<Longrightarrow> data_of h' n = d \<and> next_of h' n = None"
  shows "pushers_ok (f(i := c)) h'"
  unfolding pushers_ok_def
proof (intro conjI allI impI)
  fix j k n assume "n \<in> qheld ((f(i := c)) j)" "n \<in> qheld ((f(i := c)) k)"
  then show "j = k"
    using held [of j n] held [of k n] qholds_own [OF ok, of n k j] by (cases "j = i"; cases "k = i") auto
next
  fix j k p n m assume "(f(i := c)) j = QLink p n" "(f(i := c)) k = QLink p m"
  then show "j = k"
    using link [of j p m n] link [of k p n m] qlinks_own [OF ok, of k p m j n] by (cases "j = i"; cases "k = i") auto
next
  fix j n d assume j: "(f(i := c)) j = QNull n d"
  show "data_of h' n = d"
  proof (cases "j = i")
    case False
    then have "f j = QNull n d" "h' n = h n" using j other [of j n] by simp_all
    then show ?thesis using ok unfolding pushers_ok_def by (simp add: data_of_def)
  qed (use j own(1) in simp)
next
  fix j n d assume j: "(f(i := c)) j = QXchg n d"
  have *: "data_of h' n = d \<and> next_of h' n = None"
  proof (cases "j = i")
    case False
    then have "f j = QXchg n d" "h' n = h n" using j other [of j n] by simp_all
    then show ?thesis using ok unfolding pushers_ok_def by (simp add: data_of_def next_of_def)
  qed (use j own(2) in simp)
  then show "data_of h' n = d" "next_of h' n = None" by simp_all
qed

lemma pushers_cong:
  assumes ok: "pushers_ok f h" and same: "\<And>j n. n \<in> qheld (f j) \<Longrightarrow> h' n = h n"
  shows "pushers_ok f h'"
proof -
  have "data_of h' n = d" if "f i = QNull n d" for i n d
    using ok same [of n i] that unfolding pushers_ok_def data_of_def by auto
  moreover have "data_of h' n = d \<and> next_of h' n = None" if "f i = QXchg n d" for i n d
    using ok same [of n i] that unfolding pushers_ok_def data_of_def next_of_def by auto
  ultimately show ?thesis using ok unfolding pushers_ok_def by blast
qed

lemma inv_push_new:
  assumes inv: "qt_inv s" and idle: "qt_push s i = QIdle" and free: "qheap s a = None"
  shows "qt_inv (push_new zero s i a d)"
proof -
  note I = qt_invD [OF inv]
  let ?h = "(qheap s)(a \<mapsto> \<lparr>qn_next = None, qn_data = zero\<rparr>)"
  have a: "a \<notin> set (qt_chain s)" "a \<notin> qholds (qt_push s)" "a \<notin> qowned (qt_pop s)"
    using in_chain_alloc [OF I(5), of a] free by auto
  have l: "qlinks ((qt_push s)(i := QData a d)) = qlinks (qt_push s)"
    using idle by (intro qlinks_same) simp_all
  have h: "qholds ((qt_push s)(i := QData a d)) = qholds (qt_push s) \<union> {a}"
    using idle by (subst qholds_add) simp_all
  have "a \<notin> qheld (qt_push s j)" for j using a(2) by (auto simp: qholds_def)
  then have p: "pushers_ok ((qt_push s)(i := QData a d)) ?h"
    by (intro pushers_move [OF I(6)]) auto
  have o': "owned_once (qt_chain s) (qholds (qt_push s) \<union> {a}) (qowned (qt_pop s)) ?h"
    using I(5) a unfolding owned_once_def by auto
  have m: "in_hand ?h (qt_pop s) = in_hand (qheap s) (qt_pop s)"
    by (rule in_hand_cong [OF I(7,2)]) (use a(1) in auto)
  have m': "map (data_of ?h) (tl (qt_chain s)) = map (data_of (qheap s)) (tl (qt_chain s))"
    by (rule map_tl_cong) (use a(1) in auto)
  have fresh: "\<forall>q\<in>dom ?h. q < max (q_fresh (qt_q s)) (Suc a)"
    using I(8) by (fastforce simp: less_max_iff_disj split: if_splits)
  show ?thesis
    using I(3,4,9) l h p o' m m' fresh linked_outside [OF I(1) a(1)] popper_outside [OF I(7,2) a(1)]
    unfolding qt_inv_def push_new_def Let_def by (simp add: next_of_upd del: fun_upd_apply)
qed

lemma inv_push_write:
  assumes inv: "qt_inv s" and n: "qheld (qt_push s i) = {n}" "qheld c = {n}"
    and own: "\<And>m d. c = QNull m d \<Longrightarrow> qn_data x = d" "\<And>m d. c = QXchg m d \<Longrightarrow> qn_data x = d \<and> qn_next x = None"
  shows "qt_inv (s\<lparr>qt_q := (qt_q s)\<lparr>q_heap := (qheap s)(n \<mapsto> x)\<rparr>, qt_push := (qt_push s)(i := c)\<rparr>)"
proof -
  note I = qt_invD [OF inv]
  let ?h = "(qheap s)(n \<mapsto> x)"
  have nn: "n \<in> qholds (qt_push s)" using n(1) by (auto simp: qholds_def)
  then have out: "n \<notin> set (qt_chain s)" "n \<notin> qowned (qt_pop s)"
    using I(5) unfolding owned_once_def by auto
  have l: "qlinks ((qt_push s)(i := c)) = qlinks (qt_push s)"
    using n by (intro qlinks_same) auto
  have h: "qholds ((qt_push s)(i := c)) = qholds (qt_push s)"
    using n by (intro qholds_same) simp
  have own': "n \<notin> qheld (qt_push s j)" if "j \<noteq> i" for j
    using qholds_own [OF I(6), of n i j] that n(1) by auto
  have "m = n" if "m \<in> qheld c" for m using that n(2) by simp
  then have p: "pushers_ok ((qt_push s)(i := c)) ?h"
  proof (intro pushers_move [OF I(6)])
    show "c = QNull m d \<Longrightarrow> data_of ?h m = d" for m d using own(1) n(2) by auto
    show "c = QXchg m d \<Longrightarrow> data_of ?h m = d \<and> next_of ?h m = None" for m d
      using own(2) n(2) by (auto simp: next_of_upd)
  qed (use own' n(2) in auto)
  have o': "owned_once (qt_chain s) (qholds (qt_push s)) (qowned (qt_pop s)) ?h"
    using I(5) nn unfolding owned_once_def by auto
  have m: "in_hand ?h (qt_pop s) = in_hand (qheap s) (qt_pop s)"
    by (rule in_hand_cong [OF I(7,2)]) (use out(1) in auto)
  have m': "map (data_of ?h) (tl (qt_chain s)) = map (data_of (qheap s)) (tl (qt_chain s))"
    by (rule map_tl_cong) (use out(1) in auto)
  obtain y where "qheap s n = Some y" using in_chain_alloc [OF I(5), of n] nn by auto
  then have fresh: "\<forall>q\<in>dom ?h. q < q_fresh (qt_q s)"
    using I(8) by (auto split: if_splits)
  show ?thesis
    using I(3,4,9) l h p o' m m' fresh linked_outside [OF I(1) out(1)] popper_outside [OF I(7,2) out(1)]
    unfolding qt_inv_def by (simp add: next_of_upd del: fun_upd_apply)
qed

lemma inv_push_xchg:
  assumes inv: "qt_inv s" and n: "qt_push s i = QXchg n d"
  shows "qt_inv (s\<lparr>qt_q := (qt_q s)\<lparr>q_tail := n\<rparr>, qt_push := (qt_push s)(i := QLink (q_tail (qt_q s)) n),
    qt_chain := qt_chain s @ [n], qt_sent := qt_sent s @ [d]\<rparr>)"
proof -
  note I = qt_invD [OF inv]
  let ?t = "q_tail (qt_q s)" and ?f = "(qt_push s)(i := QLink (q_tail (qt_q s)) n)"
  have nn: "n \<in> qholds (qt_push s)" unfolding qholds_def using n by (auto intro: exI [of _ i])
  then have out: "n \<notin> set (qt_chain s)" "n \<notin> qowned (qt_pop s)"
    using I(5) unfolding owned_once_def by auto
  have nx: "next_of (qheap s) n = None" "data_of (qheap s) n = d"
    using I(6) n unfolding pushers_ok_def by blast+
  have l: "qlinks ?f = insert (?t, n) (qlinks (qt_push s))"
    using n by (intro qlinks_add) simp
  have h: "qholds ?f = qholds (qt_push s) - {n}"
    using n by (intro qholds_remove [OF _ _ I(6)]) simp_all
  have "?t \<notin> Domain (qlinks (qt_push s))" using linked_last [OF I(1)] I(4) by simp
  then have "qt_push s j \<noteq> QLink ?t m" for j m
    using qlinks_iff [of ?t m "qt_push s"] by (auto simp: Domain_iff)
  then have p: "pushers_ok ?f (qheap s)"
    by (intro pushers_move [OF I(6)]) auto
  have o': "owned_once (qt_chain s @ [n]) (qholds (qt_push s) - {n}) (qowned (qt_pop s)) (qheap s)"
    using I(5) nn out unfolding owned_once_def by auto
  have "tl (qt_chain s @ [n]) = tl (qt_chain s) @ [n]" using I(2) by (cases "qt_chain s") auto
  then show ?thesis
    using I(2,3,4,8,9) l h p o' nx linked_snoc [OF I(1) out(1) nx(1)] popper_snoc [OF I(7,2), of n]
    unfolding qt_inv_def by (auto simp del: fun_upd_apply)
qed

lemma inv_push_link:
  assumes inv: "qt_inv s" and n: "qt_push s i = QLink p n" and x: "qheap s p = Some x"
  shows "qt_inv (s\<lparr>qt_q := (qt_q s)\<lparr>q_heap := (qheap s)(p \<mapsto> x\<lparr>qn_next := Some n\<rparr>)\<rparr>, qt_push := (qt_push s)(i := QIdle)\<rparr>)"
proof -
  note I = qt_invD [OF inv]
  let ?h = "(qheap s)(p \<mapsto> x\<lparr>qn_next := Some n\<rparr>)"
  have pn: "(p, n) \<in> qlinks (qt_push s)" using n unfolding qlinks_iff by blast
  then have pin: "p \<in> set (qt_chain s)" using I(1) by (auto simp: linked_def)
  have nx: "next_of (qheap s) p = None"
    using I(1) pn pin segs_pending [of "next_of (qheap s)" "qlinks (qt_push s)" "qt_chain s" p] by (auto simp: linked_def)
  have l: "qlinks ((qt_push s)(i := QIdle)) = qlinks (qt_push s) - {(p, n)}"
    by (rule qlinks_remove [OF n I(6)])
  have h: "qholds ((qt_push s)(i := QIdle)) = qholds (qt_push s)"
    using n by (intro qholds_same) simp
  have "p \<notin> qholds (qt_push s)" using I(5) pin unfolding owned_once_def by auto
  then have "p \<notin> qheld (qt_push s j)" for j by (auto simp: qholds_def)
  then have q: "pushers_ok ((qt_push s)(i := QIdle)) ?h"
    by (intro pushers_move [OF I(6)]) auto
  have o': "owned_once (qt_chain s) (qholds (qt_push s)) (qowned (qt_pop s)) ?h"
    using I(5) pin unfolding owned_once_def by auto
  have same: "data_of ?h a = data_of (qheap s) a" for a using x by (simp add: data_of_def)
  then have m: "in_hand ?h (qt_pop s) = in_hand (qheap s) (qt_pop s)"
    by (intro in_hand_cong [OF I(7,2)])
  have m': "map (data_of ?h) (tl (qt_chain s)) = map (data_of (qheap s)) (tl (qt_chain s))"
    by (rule map_tl_cong) (rule same)
  have fresh: "\<forall>q\<in>dom ?h. q < q_fresh (qt_q s)" using I(8) x by (auto split: if_splits)
  have "linked ((next_of (qheap s))(p := Some n)) (qlinks (qt_push s) - {(p, n)}) (qt_chain s)"
    using linked_link [OF I(1) pn] qlinks_single [OF I(6) pn] by blast
  then show ?thesis
    using I(3,4,9) l h q o' m m' fresh popper_link [OF I(7) nx]
    unfolding qt_inv_def by (simp add: next_of_upd del: fun_upd_apply)
qed

lemma push_step_inv:
  assumes inv: "qt_inv s"
  shows "\<exists>s'. push_step s i = Inr s' \<and> qt_inv s'"
proof (cases "qt_push s i")
  case QIdle
  then show ?thesis using inv by (simp add: push_step_def Let_def)
next
  case (QData n d)
  then have "n \<in> qholds (qt_push s)" unfolding qholds_def by (auto intro: exI [of _ i])
  then obtain x where "qheap s n = Some x" using in_chain_alloc [OF qt_invD(5) [OF inv], of n] by auto
  then show ?thesis
    using QData inv_push_write [OF inv, of i n "QNull n d" "x\<lparr>qn_data := d\<rparr>"]
    by (simp add: push_step_def q_get_def q_set_def Let_def)
next
  case (QNull n d)
  then have "n \<in> qholds (qt_push s)" unfolding qholds_def by (auto intro: exI [of _ i])
  then obtain x where x: "qheap s n = Some x" using in_chain_alloc [OF qt_invD(5) [OF inv], of n] by auto
  moreover have "data_of (qheap s) n = d"
    using qt_invD(6) [OF inv] QNull unfolding pushers_ok_def by blast
  then have "qn_data x = d" using x by (simp add: data_of_def)
  ultimately show ?thesis
    using QNull inv_push_write [OF inv, of i n "QXchg n d" "x\<lparr>qn_next := None\<rparr>"]
    by (simp add: push_step_def q_get_def q_set_def Let_def)
next
  case (QXchg n d)
  then show ?thesis using inv_push_xchg [OF inv QXchg] by (simp add: push_step_def Let_def)
next
  case (QLink p n)
  then have "(p, n) \<in> qlinks (qt_push s)" unfolding qlinks_iff by blast
  then have "p \<in> set (qt_chain s)" using qt_invD(1) [OF inv] by (auto simp: linked_def)
  then obtain x where "qheap s p = Some x" using in_chain_alloc [OF qt_invD(5) [OF inv], of p] by auto
  then show ?thesis
    using QLink inv_push_link [OF inv QLink] by (simp add: push_step_def q_get_def q_set_def Let_def)
qed

subsection \<open>The consumer moves\<close>

lemma pop_step_inv:
  assumes inv: "qt_inv s"
  shows "\<exists>s'. pop_step s = Inr s' \<and> qt_inv s'"
proof -
  note I = qt_invD [OF inv]
  have hd: "hd (qt_chain s) \<in> set (qt_chain s)" using I(2) by simp
  show ?thesis
  proof (cases "qt_pop s")
    case RStart
    then show ?thesis using inv by (simp add: pop_step_def qt_inv_def)
  next
    case (RNext h)
    then obtain x where "qheap s h = Some x" using in_chain_alloc [OF I(5), of h] I(7) hd by auto
    then show ?thesis
      using inv RNext by (cases "qn_next x") (simp_all add: pop_step_def q_get_def qt_inv_def next_of_def)
  next
    case (RHead h n)
    have "h = hd (qt_chain s) \<and> next_of (qheap s) h = Some n" using I(7) unfolding RHead popper_ok.simps .
    then have h: "h = hd (qt_chain s)" and nx: "next_of (qheap s) (hd (qt_chain s)) = Some n" by metis+
    note adv = linked_advance [OF I(1) nx]
    define ch where "ch = tl (qt_chain s)"
    have ch: "qt_chain s = h # ch" "ch \<noteq> []" "hd ch = n" "last ch = last (qt_chain s)" using adv h by (auto simp: ch_def)
    have "h \<notin> set ch" using I(1) ch(1) by (auto simp: linked_def)
    then have "owned_once ch (qholds (qt_push s)) {h} (qheap s)"
      using I(5) ch(1) RHead unfolding owned_once_def by auto
    moreover have "map (data_of (qheap s)) ch = data_of (qheap s) n # map (data_of (qheap s)) (tl ch)"
      using ch(2,3) by (cases ch) auto
    then have "qt_sent s = qt_got s @ data_of (qheap s) n # map (data_of (qheap s)) (tl ch)"
      using I(9) RHead by (simp add: ch_def)
    moreover have "linked (next_of (qheap s)) (qlinks (qt_push s)) ch" using adv by (simp add: ch_def)
    moreover have "\<forall>p\<in>dom (qheap s). p < q_fresh (qt_q s)" using I(8) by blast
    ultimately have "qt_inv (s\<lparr>qt_q := (qt_q s)\<lparr>q_head := n\<rparr>, qt_pop := RData h n, qt_chain := ch\<rparr>)"
      using I(4,6) ch(3,4) by (simp add: qt_inv_def)
    then show ?thesis using RHead by (simp add: pop_step_def ch_def)
  next
    case (RData h n)
    then obtain x where "qheap s n = Some x" using in_chain_alloc [OF I(5), of n] I(7) hd by auto
    then show ?thesis
      using inv RData by (simp add: pop_step_def q_get_def qt_inv_def data_of_def)
  next
    case (RDelete h d)
    then obtain x where x: "qheap s h = Some x" using in_chain_alloc [OF I(5), of h] by auto
    let ?h = "(qheap s)(h := None)"
    have out: "h \<notin> set (qt_chain s)" "h \<notin> qholds (qt_push s)" using I(5) RDelete unfolding owned_once_def by auto
    have "linked (next_of ?h) (qlinks (qt_push s)) (qt_chain s)"
      by (rule linked_cong [OF I(1)]) (use out(1) in \<open>auto simp: next_of_def\<close>)
    moreover have "owned_once (qt_chain s) (qholds (qt_push s)) {} ?h"
      using I(5) RDelete out unfolding owned_once_def by auto
    moreover have "h \<notin> qheld (qt_push s j)" for j using out(2) by (auto simp: qholds_def)
    then have "pushers_ok (qt_push s) ?h"
      by (intro pushers_cong [OF I(6)]) auto
    moreover have "map (data_of ?h) (tl (qt_chain s)) = map (data_of (qheap s)) (tl (qt_chain s))"
      by (rule map_tl_cong) (use out(1) in \<open>auto simp: data_of_def\<close>)
    moreover have "\<forall>p\<in>dom ?h. p < q_fresh (qt_q s)" using I(8) by (auto split: if_splits)
    ultimately have "qt_inv (s\<lparr>qt_q := (qt_q s)\<lparr>q_heap := ?h\<rparr>, qt_pop := RDone (Some d), qt_got := qt_got s @ [d]\<rparr>)"
      using I(3,4,9) RDelete by (simp add: qt_inv_def)
    then show ?thesis using RDelete x by (simp add: pop_step_def q_delete_def Let_def)
  next
    case (RDone r)
    then show ?thesis using inv by (simp add: pop_step_def qt_inv_def)
  qed
qed

lemma qt_act_inv:
  assumes "qt_inv s"
  shows "\<exists>s'. qt_act zero s a = Inr s' \<and> qt_inv s'"
proof (cases a)
  case (QCall i n d)
  then show ?thesis using assms inv_push_new by (auto split: qpc.split option.split)
next
  case (QPush i)
  then show ?thesis using push_step_inv [OF assms] by simp
next
  case QPop
  then show ?thesis using pop_step_inv [OF assms] by simp
qed

lemma qt_run_inv: "qt_inv s \<Longrightarrow> \<exists>s'. qt_run zero s as = Inr s' \<and> qt_inv s'"
proof (induction as arbitrary: s)
  case (Cons a as)
  from qt_act_inv [OF Cons.prems] obtain s1 where "qt_act zero s a = Inr s1" "qt_inv s1" by blast
  with Cons.IH [of s1] show ?case by simp
qed simp

section \<open>At rest\<close>

text \<open>With no call under way the memory is that of a queue which one thread has used, so that what holds
  of \<open>pop\<close> and of the destructor there holds here.\<close>

definition qt_rest :: "'d qt \<Rightarrow> bool" where
  "qt_rest s \<longleftrightarrow> (\<forall>i. qt_push s i = QIdle) \<and> qt_pop s = RStart"

definition qt_data :: "'d qt \<Rightarrow> 'd list" where
  "qt_data s = map (data_of (qheap s)) (tl (qt_chain s))"

lemma segs_path:
  "segs (next_of h) {} (p # ps) \<Longrightarrow> set (p # ps) \<subseteq> dom h \<Longrightarrow> q_path h p ps (map (data_of h) ps)"
proof (induction ps arbitrary: p)
  case Nil
  then obtain x where "h p = Some x" by auto
  with Nil show ?case by (cases x) (auto simp: next_of_def)
next
  case (Cons p' ps)
  then have path: "q_path h p' ps (map (data_of h) ps)" by (intro Cons.IH) auto
  obtain x y where "h p = Some x" and y: "h p' = Some y" using Cons.prems(2) by auto
  moreover have "qn_next x = Some p'" using calculation Cons.prems(1) by (simp add: next_of_def)
  moreover have "data_of h p' = qn_data y" using y by (simp add: data_of_def)
  ultimately show ?case using path by (cases x) auto
qed

lemma rest_inv:
  assumes inv: "qt_inv s" and rest: "qt_rest s"
  shows "q_inv (qt_q s) (tl (qt_chain s)) (qt_data s)"
proof -
  note I = qt_invD [OF inv]
  have none: "qlinks (qt_push s) = {}" "qholds (qt_push s) = {}" "qowned (qt_pop s) = {}"
    using rest by (auto simp: qt_rest_def qlinks_def qholds_def)
  define p ps where "p = q_head (qt_q s)" and "ps = tl (qt_chain s)"
  have ch: "qt_chain s = p # ps" using I(2,3) by (cases "qt_chain s") (auto simp: p_def ps_def)
  have dom: "dom (qheap s) = set (p # ps)" using I(5) none ch unfolding owned_once_def by auto
  have "segs (next_of (qheap s)) {} (p # ps)" "distinct (p # ps)" using I(1) none ch by (simp_all add: linked_def)
  with segs_path [of "qheap s" p ps] dom have "q_path (qheap s) p ps (map (data_of (qheap s)) ps)" by simp
  moreover have "\<forall>q\<in>insert p (set ps). q < q_fresh (qt_q s)" using I(8) dom by (metis domIff list.simps(15) not_None_eq)
  ultimately show ?thesis
    using I(4) ch dom \<open>distinct (p # ps)\<close> by (simp add: q_inv_def qt_data_def p_def [symmetric] ps_def [symmetric])
qed

section \<open>Property\<close>

text \<open>C17. However any number of \<open>push\<close> and the one consumer's \<open>pop\<close> interleave, and whichever free addresses
  the allocator hands out, no thread touches a node that is freed. The data popped are, in the
  order of the exchanges, those pushed, but for the one the consumer is about to return and those in
  the queue. Every allocated node belongs to the list, or to one thread alone; and once no call is
  under way the destructor hands over the data left and frees every node, each once.\<close>

theorem mpscq_threads:
  "\<exists>s. qt_run zero (qt_new zero) as = Inr s \<and>
     qt_sent s = qt_got s @ in_hand (qheap s) (qt_pop s) @ qt_data s \<and>
     owned_once (qt_chain s) (qholds (qt_push s)) (qowned (qt_pop s)) (qheap s) \<and>
     (qt_rest s \<longrightarrow> (\<exists>q. q_destroy (qt_q s) = Some (Inr (q, qt_data s)) \<and> q_heap q = Map.empty))"
proof -
  obtain s where s: "qt_run zero (qt_new zero) as = Inr s" "qt_inv s"
    using qt_run_inv [OF qt_inv_new [of zero], of zero as] by blast
  then show ?thesis
    using qt_invD(5,9) [OF s(2)] q_destroy_inv [OF rest_inv [OF s(2)]] by (auto simp: qt_data_def)
qed

definition qt_example :: "nat qact list" where
  "qt_example = [QCall 0 1 5, QPush 0, QCall 1 2 7, QPush 1, QPush 0, QPush 1, QPush 1, QPush 0, QPush 0, QPush 1, QPop,
     QPop, QPop, QPop, QPop, QPop]"

theorem mpscq_threads_witness:
  "\<exists>s q. qt_run 0 (qt_new 0) qt_example = Inr s \<and> qt_got s = [7] \<and> q_destroy (qt_q s) = Some (Inr (q, [5])) \<and>
     q_heap q = Map.empty"
proof -
  obtain s where s: "qt_run 0 (qt_new 0) qt_example = Inr s"
    "qt_rest s \<longrightarrow> (\<exists>q. q_destroy (qt_q s) = Some (Inr (q, qt_data s)) \<and> q_heap q = Map.empty)"
    using mpscq_threads [of 0 qt_example] by blast
  have "qt_rest s" "qt_data s = [5]" "qt_got s = [7]"
    using s(1) by (auto simp: qt_example_def qt_new_def q_new_def push_new_def push_step_def pop_step_def q_get_def
        q_set_def q_delete_def Let_def qt_rest_def qt_data_def data_of_def fun_upd_def)
  with s show ?thesis by auto
qed

end
