(* ===== verification/Senders.thy ===== *)
theory Senders
  imports IntMpscConc "HOL-Library.Sublist"
begin

text \<open>
  The threads that send to an \<open>AsyncQueue\<close> or a \<open>SignaledQueue\<close>: each allocates a message, pushes its node
  on the intrusive queue, access by access, and then rings the receiver's bell; a null message is pushed
  and does not ring. The queues extend the state by their bell and their receiver.
\<close>

section \<open>Sending\<close>

datatype spc =
    SIdle
  | SPush bool      \<comment> \<open>within \<open>push\<close>; whether the bell is to be rung\<close>
  | SRing           \<comment> \<open>pushed, about to ring\<close>

text \<open>\<open>sd_cmd\<close> says which nodes carry a command (\<open>self\<close> is not null); \<open>sd_rung\<close> counts the rings.\<close>

record senders =
  sd_mpsc :: mpsc
  sd_pc :: "nat \<Rightarrow> spc"
  sd_cmd :: "node \<Rightarrow> bool"
  sd_rung :: nat

text \<open>The node is new: in nobody's hands, and not that of a message the receiver is still to delete.\<close>

definition sender_call :: "nat \<Rightarrow> node \<Rightarrow> bool \<Rightarrow> 'a senders_scheme \<Rightarrow> 'a senders_scheme" where
  "sender_call i n c s =
     (if sd_pc s i = SIdle \<and> can_start (sd_mpsc s) i n \<and> cons (sd_mpsc s) \<noteq> CDone (Some n)
      then s\<lparr>sd_mpsc := mpsc_act (sd_mpsc s) (Start i n), sd_pc := (sd_pc s)(i := SPush c), sd_cmd := (sd_cmd s)(n := c)\<rparr>
      else s)"

definition sender_go :: "nat \<Rightarrow> 'a senders_scheme \<Rightarrow> 'a senders_scheme" where
  "sender_go i s =
     (case sd_pc s i of
        SIdle \<Rightarrow> s
      | SPush c \<Rightarrow>
          let m = prod_step (sd_mpsc s) i in
          s\<lparr>sd_mpsc := m, sd_pc := (sd_pc s)(i := if prod m i \<noteq> PIdle then SPush c else if c then SRing else SIdle)\<rparr>
      | SRing \<Rightarrow> s\<lparr>sd_pc := (sd_pc s)(i := SIdle), sd_rung := Suc (sd_rung s)\<rparr>)"

section \<open>No more rings than messages\<close>

text \<open>The senders past their exchange that have not rung.\<close>

definition owing :: "'a senders_scheme \<Rightarrow> nat set" where
  "owing s = {i. sd_pc s i = SRing \<or> (\<exists>p n. prod (sd_mpsc s) i = PLink p n)}"

definition senders_inv :: "'a senders_scheme \<Rightarrow> bool" where
  "senders_inv s \<longleftrightarrow> mpsc_reach (sd_mpsc s) \<and>
     (\<forall>i. (\<exists>c. sd_pc s i = SPush c) \<longleftrightarrow> prod (sd_mpsc s) i \<noteq> PIdle) \<and>
     finite (owing s) \<and> sd_rung s + card (owing s) \<le> length (sent (sd_mpsc s))"

lemma senders_invD:
  assumes "senders_inv s"
  shows "mpsc_reach (sd_mpsc s)" "mpsc_inv (sd_mpsc s)" "finite (owing s)"
    "sd_rung s + card (owing s) \<le> length (sent (sd_mpsc s))"
    "(\<exists>c. sd_pc s i = SPush c) \<longleftrightarrow> prod (sd_mpsc s) i \<noteq> PIdle"
  using assms mpsc_reach_inv by (auto simp: senders_inv_def)

text \<open>Every message whose push has rung was sent, and is taken or still queued.\<close>

lemma rung_bound:
  assumes "senders_inv s"
  shows "sd_rung s \<le> length (taken (sd_mpsc s)) + length (live (chain (sd_mpsc s)))"
proof -
  have "sent (sd_mpsc s) = taken (sd_mpsc s) @ live (chain (sd_mpsc s))"
    using senders_invD(2) [OF assms] by (simp add: mpsc_inv_def)
  then have "length (sent (sd_mpsc s)) = length (taken (sd_mpsc s)) + length (live (chain (sd_mpsc s)))" by simp
  then show ?thesis using senders_invD(4) [OF assms] by linarith
qed

lemma sender_call_inv:
  assumes inv: "senders_inv s"
  shows "senders_inv (sender_call i n c s)"
proof (cases "sd_pc s i = SIdle \<and> can_start (sd_mpsc s) i n \<and> cons (sd_mpsc s) \<noteq> CDone (Some n)")
  case True
  let ?t = "sender_call i n c s"
  have t: "?t = s\<lparr>sd_mpsc := (sd_mpsc s)\<lparr>prod := (prod (sd_mpsc s))(i := PClear n)\<rparr>,
      sd_pc := (sd_pc s)(i := SPush c), sd_cmd := (sd_cmd s)(n := c)\<rparr>"
    using True by (simp add: sender_call_def)
  have "owing ?t = owing s" using True by (auto simp: t owing_def can_start_def)
  moreover have "mpsc_reach (sd_mpsc ?t)"
    using mpsc_act_reach [OF senders_invD(1) [OF inv], of "Start i n"] True by (simp add: t)
  ultimately show ?thesis using inv by (auto simp: senders_inv_def t)
qed (use inv in \<open>auto simp: sender_call_def\<close>)

lemma sender_go_inv:
  assumes inv: "senders_inv s"
  shows "senders_inv (sender_go i s)"
proof (cases "sd_pc s i")
  case SIdle
  then show ?thesis using inv by (simp add: sender_go_def)
next
  case SRing
  let ?t = "s\<lparr>sd_pc := (sd_pc s)(i := SIdle), sd_rung := Suc (sd_rung s)\<rparr>"
  have idle: "prod (sd_mpsc s) i = PIdle" using senders_invD(5) [OF inv, of i] SRing by auto
  then have ow: "owing ?t = owing s - {i}" by (auto simp: owing_def)
  have i: "i \<in> owing s" using SRing by (simp add: owing_def)
  then have "0 < card (owing s)" using senders_invD(3) [OF inv] card_gt_0_iff by blast
  then have "Suc (sd_rung s) + card (owing s - {i}) \<le> length (sent (sd_mpsc s))"
    using senders_invD(3,4) [OF inv] i by (simp add: card_Diff_singleton)
  then have "senders_inv ?t"
    using inv SRing idle unfolding senders_inv_def ow by auto
  then show ?thesis using SRing by (simp add: sender_go_def)
next
  case (SPush c)
  let ?m = "prod_step (sd_mpsc s) i"
  let ?c = "if prod ?m i \<noteq> PIdle then SPush c else if c then SRing else SIdle"
  let ?t = "s\<lparr>sd_mpsc := ?m, sd_pc := (sd_pc s)(i := ?c)\<rparr>"
  have run: "prod (sd_mpsc s) i \<noteq> PIdle" using senders_invD(5) [OF inv, of i] SPush by auto
  have other: "prod ?m j = prod (sd_mpsc s) j" if "j \<noteq> i" for j
    using that by (auto simp: prod_step_def split: ppc.splits)
  have fin: "finite (owing s)" and le: "sd_rung s + card (owing s) \<le> length (sent (sd_mpsc s))"
    using senders_invD(3,4) [OF inv] by auto
  have "finite (owing ?t) \<and> sd_rung s + card (owing ?t) \<le> length (sent ?m)"
  proof (cases "prod (sd_mpsc s) i")
    case (PXchg n)
    have "owing ?t = insert i (owing s)"
      using PXchg other SPush by (auto simp: owing_def prod_step_def)
    moreover have "card (insert i (owing s)) \<le> Suc (card (owing s))" by (rule card_insert_le_m1) simp_all
    ultimately show ?thesis using fin le PXchg by (simp add: prod_step_def)
  next
    case (PLink p n)
    have "owing ?t \<subseteq> owing s"
      using PLink other SPush by (auto simp: owing_def prod_step_def split: if_splits)
    moreover from this have "card (owing ?t) \<le> card (owing s)" using fin by (rule card_mono [rotated])
    ultimately show ?thesis using fin le finite_subset PLink by (auto simp: prod_step_def)
  next
    case (PClear n)
    have "owing ?t = owing s"
      using PClear other SPush by (auto simp: owing_def prod_step_def)
    then show ?thesis using fin le PClear by (simp add: prod_step_def)
  qed (use run in simp)
  moreover have "mpsc_reach ?m" using mpsc_act_reach [OF senders_invD(1) [OF inv], of "Produce i"] by simp
  moreover have "(\<exists>c. sd_pc ?t j = SPush c) \<longleftrightarrow> prod ?m j \<noteq> PIdle" for j
    using senders_invD(5) [OF inv, of j] other [of j] by (cases "j = i") auto
  ultimately have "senders_inv ?t" by (simp add: senders_inv_def)
  then show ?thesis using SPush by (simp add: sender_go_def Let_def)
qed

text \<open>The receiver pops.\<close>

lemma receiver_inv:
  assumes "senders_inv s" "sd_mpsc t = cons_step (sd_mpsc s)" "sd_pc t = sd_pc s" "sd_rung t = sd_rung s"
  shows "senders_inv t"
proof -
  have "owing t = owing s" using assms(2,3) by (simp add: owing_def)
  then show ?thesis
    using assms mpsc_act_reach [of "sd_mpsc s" Consume] by (simp add: senders_inv_def)
qed

lemma senders_more: "senders_inv s \<Longrightarrow> sd_mpsc t = sd_mpsc s \<Longrightarrow> sd_pc t = sd_pc s \<Longrightarrow> sd_rung t = sd_rung s \<Longrightarrow> senders_inv t"
  by (simp add: senders_inv_def owing_def)

text \<open>What a call does not touch.\<close>

lemma sender_call_frame [simp]:
  "cons (sd_mpsc (sender_call i n c s)) = cons (sd_mpsc s)" "taken (sd_mpsc (sender_call i n c s)) = taken (sd_mpsc s)"
  "sd_rung (sender_call i n c s) = sd_rung s" "senders.more (sender_call i n c s) = senders.more s"
  by (simp_all add: sender_call_def)

lemma sender_go_frame [simp]:
  "cons (sd_mpsc (sender_go i s)) = cons (sd_mpsc s)" "taken (sd_mpsc (sender_go i s)) = taken (sd_mpsc s)"
  "sd_rung (sender_go i s) = (if sd_pc s i = SRing then Suc (sd_rung s) else sd_rung s)"
  "senders.more (sender_go i s) = senders.more s"
  by (simp_all add: sender_go_def prod_step_def Let_def split: spc.split ppc.split)

section \<open>What \<open>pop\<close> has returned\<close>

fun popped :: "cpc \<Rightarrow> node list" where
  "popped (CDone (Some n)) = [n]"
| "popped _ = []"

lemma popped_none: "(\<And>n. c \<noteq> CDone (Some n)) \<Longrightarrow> popped c = []"
  by (cases c rule: popped.cases) auto

lemma subseq_snocD: "subseq (xs @ [a]) ys \<Longrightarrow> subseq xs ys"
  by (rule subseq_order.order_trans [OF list_emb_prefix]) simp_all

end
