(* ===== verification/AsyncThreads.thy ===== *)
theory AsyncThreads
  imports Senders
begin

text \<open>
  \<open>AsyncQueue\<close> (\<open>service/async_msgqueue.hpp\<close>) under all interleavings of its senders and the event loop's
  thread. Of libev this uses what it documents: \<open>ev_async_send\<close> marks the watcher, however often; the loop
  calls back a watcher that is marked and active, and clears the mark before; \<open>ev_async_stop\<close> makes it inactive.
\<close>

section \<open>The loop's thread\<close>

datatype lpc =
    LIdle
  | LPop                  \<comment> \<open>in \<open>asyncCallback\<close>, within \<open>receive\<close>\<close>
  | LStop                 \<comment> \<open>\<open>receive\<close> gave false: about to call \<open>stop\<close>\<close>

text \<open>\<open>at_ran\<close> and \<open>at_calls\<close> are history: the commands run, by their nodes, and the callbacks made.\<close>

record async_threads = senders +
  at_pending :: bool
  at_active :: bool
  at_loop :: lpc
  at_ran :: "node list"
  at_calls :: nat

definition at_started :: async_threads where
  "at_started = \<lparr>sd_mpsc = mpsc_init, sd_pc = (\<lambda>_. SIdle), sd_cmd = (\<lambda>_. False), sd_rung = 0,
     at_pending = False, at_active = True, at_loop = LIdle, at_ran = [], at_calls = 0\<rparr>"

text \<open>One step of a sender; the bell is \<open>ev_async_send\<close>.\<close>

definition at_send_step :: "nat \<Rightarrow> async_threads \<Rightarrow> async_threads" where
  "at_send_step i s =
     (let t = sender_go i s in if sd_pc s i = SRing then t\<lparr>at_pending := True\<rparr> else t)"

definition at_loop_step :: "async_threads \<Rightarrow> async_threads" where
  "at_loop_step s =
     (case at_loop s of
        LIdle \<Rightarrow>
          (if at_pending s \<and> at_active s
           then s\<lparr>at_pending := False, at_loop := LPop, at_calls := Suc (at_calls s)\<rparr> else s)
      | LPop \<Rightarrow>
          let t = s\<lparr>sd_mpsc := cons_step (sd_mpsc s)\<rparr> in
          (case cons (sd_mpsc s) of
             CDone (Some n) \<Rightarrow> if sd_cmd s n then t\<lparr>at_ran := at_ran s @ [n], at_loop := LIdle\<rparr> else t\<lparr>at_loop := LStop\<rparr>
           | CDone None \<Rightarrow> t\<lparr>at_loop := LStop\<rparr>
           | _ \<Rightarrow> t)
      | LStop \<Rightarrow> s\<lparr>at_active := False, at_loop := LIdle\<rparr>)"

text \<open>A schedule: a sender calls \<open>send\<close> or \<open>nullmsg\<close> with the node of the message it allocates, a sender or
  the loop takes its next step.\<close>

datatype at_act = SCall nat node bool | SGo nat | SLoop

fun at_step :: "async_threads \<Rightarrow> at_act \<Rightarrow> async_threads" where
  "at_step s (SCall i n c) = sender_call i n c s"
| "at_step s (SGo i) = at_send_step i s"
| "at_step s SLoop = at_loop_step s"

fun at_run :: "async_threads \<Rightarrow> at_act list \<Rightarrow> async_threads" where
  "at_run s [] = s"
| "at_run s (a # as) = at_run (at_step s a) as"

lemma at_run_append [simp]: "at_run s (as @ bs) = at_run (at_run s as) bs"
  by (induction as arbitrary: s) simp_all

section \<open>Invariant\<close>

definition at_inv :: "async_threads \<Rightarrow> bool" where
  "at_inv s \<longleftrightarrow> senders_inv s \<and>
     (at_loop s \<noteq> LPop \<longrightarrow> cons (sd_mpsc s) = CStart) \<and>
     subseq (at_ran s @ popped (cons (sd_mpsc s))) (taken (sd_mpsc s)) \<and>
     length (taken (sd_mpsc s)) +
       (if at_loop s = LPop \<and> popped (cons (sd_mpsc s)) = [] then 1 else 0) \<le> at_calls s \<and>
     at_calls s + (if at_pending s then 1 else 0) \<le> sd_rung s"

lemma senders_inv_init: "senders_inv at_started"
  by (simp add: senders_inv_def at_started_def mpsc_reach.init owing_def) (simp add: mpsc_init_def)

lemma at_inv_init: "at_inv at_started"
  using senders_inv_init by (simp add: at_inv_def at_started_def mpsc_init_def)

lemma at_more [simp]:
  "at_loop (sender_call i n c s) = at_loop s" "at_ran (sender_call i n c s) = at_ran s"
  "at_calls (sender_call i n c s) = at_calls s" "at_pending (sender_call i n c s) = at_pending s"
  "at_active (sender_call i n c s) = at_active s"
  "at_loop (sender_go i s) = at_loop s" "at_ran (sender_go i s) = at_ran s"
  "at_calls (sender_go i s) = at_calls s" "at_pending (sender_go i s) = at_pending s"
  "at_active (sender_go i s) = at_active s"
  by (simp_all add: sender_call_def sender_go_def Let_def split: spc.split)

lemma at_inv_send: "at_inv s \<Longrightarrow> at_inv (at_send_step i s)"
  using sender_go_inv [of s i] senders_more [of "sender_go i s" "(sender_go i s)\<lparr>at_pending := True\<rparr>"]
  by (auto simp: at_inv_def at_send_step_def Let_def)

lemma at_inv_loop:
  assumes inv: "at_inv s"
  shows "at_inv (at_loop_step s)"
proof (cases "at_loop s")
  case LIdle
  then show ?thesis
    using inv senders_more [of s "s\<lparr>at_pending := False, at_loop := LPop, at_calls := Suc (at_calls s)\<rparr>"]
    by (auto simp: at_inv_def at_loop_step_def)
next
  case LStop
  then show ?thesis
    using inv senders_more [of s "s\<lparr>at_active := False, at_loop := LIdle\<rparr>"]
    by (auto simp: at_inv_def at_loop_step_def)
next
  case LPop
  let ?m = "sd_mpsc s"
  have snd: "senders_inv t" if "sd_mpsc t = cons_step ?m" "sd_pc t = sd_pc s" "sd_rung t = sd_rung s" for t :: async_threads
    using receiver_inv [OF _ that] inv by (simp add: at_inv_def)
  show ?thesis
  proof (cases "\<exists>r. cons ?m = CDone r")
    case True
    then obtain r where r: "cons ?m = CDone r" by blast
    then have st: "cons (cons_step ?m) = CStart" "taken (cons_step ?m) = taken ?m" by (simp_all add: cons_step_def)
    show ?thesis
      using inv LPop r st snd subseq_snocD
      by (cases r) (auto simp: at_inv_def at_loop_step_def Let_def)
  next
    case False
    have sub: "subseq (at_ran s) (taken ?m)" and n: "length (taken ?m) + 1 \<le> at_calls s"
      using inv LPop False by (cases "cons ?m"; auto simp: at_inv_def)+
    have st: "at_loop_step s = s\<lparr>sd_mpsc := cons_step ?m\<rparr>"
      using LPop False by (auto simp: at_loop_step_def Let_def split: cpc.split)
    show ?thesis
    proof (cases "\<exists>h n. cons ?m = CTake h n")
      case True
      then obtain h n where c: "cons ?m = CTake h n" by blast
      then have "cons (cons_step ?m) = CDone (Some h)" "taken (cons_step ?m) = taken ?m @ [h]"
        by (simp_all add: cons_step_def)
      then show ?thesis unfolding st using inv LPop c snd n sub
        by (auto simp: at_inv_def intro: list_emb_append_mono)
    next
      case no: False
      then have "taken (cons_step ?m) = taken ?m" "cons (cons_step ?m) \<noteq> CDone (Some h)" for h
        by (auto simp: cons_step_taken split: cpc.split)
      then have "taken (cons_step ?m) = taken ?m" "popped (cons (cons_step ?m)) = []"
        using popped_none by blast+
      then show ?thesis unfolding st using inv LPop snd n sub by (auto simp: at_inv_def)
    qed
  qed
qed

lemma at_inv_step: "at_inv s \<Longrightarrow> at_inv (at_step s a)"
  using sender_call_inv at_inv_send at_inv_loop by (cases a) (auto simp: at_inv_def)

lemma at_inv_run: "at_inv s \<Longrightarrow> at_inv (at_run s as)"
  by (induction as arbitrary: s) (auto intro: at_inv_step)

section \<open>A stopped watcher\<close>

definition at_silent :: "async_threads \<Rightarrow> bool" where
  "at_silent s \<longleftrightarrow> \<not> at_active s \<and> at_loop s = LIdle"

lemma silent_step:
  assumes "at_silent s"
  shows "at_silent (at_step s a) \<and> at_ran (at_step s a) = at_ran s \<and> taken (sd_mpsc (at_step s a)) = taken (sd_mpsc s)"
  using assms by (cases a) (auto simp: at_silent_def at_send_step_def at_loop_step_def Let_def)

lemma silent_run:
  "at_silent s \<Longrightarrow> at_silent (at_run s as) \<and> at_ran (at_run s as) = at_ran s \<and> taken (sd_mpsc (at_run s as)) = taken (sd_mpsc s)"
  by (induction as arbitrary: s) (use silent_step in auto)

text \<open>Two threads send a command each. The callback rung for by the first runs \<open>pop\<close> while the second is
  between its exchange and its link, and gets nothing.\<close>

definition silencing :: "at_act list" where
  "silencing =
     [SCall 0 (Node 1) True, SGo 0, SGo 0, SGo 0, SGo 0] @
     [SCall 1 (Node 2) True, SGo 1, SGo 1] @
     replicate 8 SLoop @ [SGo 1, SGo 1]"

lemma silencing_state:
  "let s = at_run at_started silencing in
     at_silent s \<and> at_ran s = [] \<and> at_pending s \<and> sd_rung s = 2 \<and> sd_pc s 0 = SIdle \<and> sd_pc s 1 = SIdle \<and>
     taken (sd_mpsc s) = [] \<and> live (chain (sd_mpsc s)) = [Node 1, Node 2] \<and> sd_cmd s (Node 1) \<and> sd_cmd s (Node 2)"
  by (simp add: silencing_def at_started_def mpsc_init_def iq_init_def sender_call_def can_start_def
      at_send_step_def sender_go_def prod_step_def at_loop_step_def cons_step_def at_silent_def
      numeral_eq_Suc Let_def)

section \<open>Properties\<close>

text \<open>C19. With any number of sending threads, under every schedule, the commands \<open>asyncCallback\<close> has run are
  distinct messages in the order of their exchanges, each message taken needs a callback of its
  own, and there are never more callbacks than completed \<open>send\<close>s, nor more of these than messages.\<close>

theorem async_threads_order:
  "let s = at_run at_started as in
     sent (sd_mpsc s) = taken (sd_mpsc s) @ live (chain (sd_mpsc s)) \<and> subseq (at_ran s) (taken (sd_mpsc s)) \<and>
     length (taken (sd_mpsc s)) \<le> at_calls s \<and> at_calls s \<le> sd_rung s \<and> sd_rung s \<le> length (sent (sd_mpsc s))"
proof -
  have inv: "at_inv (at_run at_started as)" by (rule at_inv_run [OF at_inv_init])
  then have snd: "senders_inv (at_run at_started as)" by (simp add: at_inv_def)
  show ?thesis
    using inv senders_invD(2,4) [OF snd]
    by (auto simp: Let_def at_inv_def mpsc_inv_def intro: subseq_order.order_trans [OF list_emb_prefix])
qed

text \<open>C20. A command can be lost for good. When \<open>receive\<close> finds the oldest message's push complete and the next
  one's half done, \<open>pop\<close> gives null, \<open>asyncCallback\<close> takes this for the end and stops the watcher: both
  commands stay queued, and however the threads go on, no command is ever run.\<close>

theorem async_silenced:
  "let s = at_run at_started silencing in
     sd_rung s = 2 \<and> sd_pc s 0 = SIdle \<and> sd_pc s 1 = SIdle \<and> live (chain (sd_mpsc s)) = [Node 1, Node 2] \<and>
     sd_cmd s (Node 1) \<and> sd_cmd s (Node 2) \<and>
     (\<forall>bs. at_ran (at_run s bs) = [] \<and> taken (sd_mpsc (at_run s bs)) = [])"
  using silencing_state silent_run by (simp add: Let_def)

end
