(* ===== verification/SignaledThreads.thy ===== *)
theory SignaledThreads
  imports Senders SignaledQueue
begin

text \<open>
  \<open>SignaledQueue\<close> (\<open>msgqueue/signal/signaled_queue.hpp\<close>) under all interleavings of its senders and the
  receiving thread, which calls \<open>receive\<close> when the descriptor is readable, that is, when the counter is
  not zero.
\<close>

section \<open>The receiving thread\<close>

datatype gpc =
    GIdle
  | GTake nat     \<comment> \<open>in \<open>receive\<close>; how many messages it is still to take\<close>

text \<open>\<open>sg_ran\<close> is history: the commands run, by their nodes.\<close>

record signaled_threads = senders +
  sg_count :: u64
  sg_recv :: gpc
  sg_ran :: "node list"

definition sg_started :: signaled_threads where
  "sg_started = \<lparr>sd_mpsc = mpsc_init, sd_pc = (\<lambda>_. SIdle), sd_cmd = (\<lambda>_. False), sd_rung = 0,
     sg_count = signaler_new, sg_recv = GIdle, sg_ran = []\<rparr>"

text \<open>One step of a sender; the bell is \<open>signaler.send()\<close>.\<close>

definition sg_send_step :: "nat \<Rightarrow> signaled_threads \<Rightarrow> signaled_threads" where
  "sg_send_step i s =
     (let t = sender_go i s in
      if sd_pc s i = SRing then t\<lparr>sg_count := fst (signaler_send (sg_count s))\<rparr> else t)"

text \<open>\<open>receive\<close>: read the counter, then take as many messages, trying again where \<open>pop\<close> gives none.\<close>

definition sg_recv_step :: "signaled_threads \<Rightarrow> signaled_threads" where
  "sg_recv_step s =
     (case sg_recv s of
        GIdle \<Rightarrow>
          if sg_count s = 0 then s
          else (case signaler_recv (sg_count s) of
                  Inl _ \<Rightarrow> s
                | Inr (cnt, ts) \<Rightarrow> s\<lparr>sg_count := cnt, sg_recv := GTake (nat ts)\<rparr>)
      | GTake 0 \<Rightarrow> s\<lparr>sg_recv := GIdle\<rparr>
      | GTake (Suc k) \<Rightarrow>
          let t = s\<lparr>sd_mpsc := cons_step (sd_mpsc s)\<rparr> in
          (case cons (sd_mpsc s) of
             CDone (Some n) \<Rightarrow> t\<lparr>sg_recv := GTake k, sg_ran := sg_ran s @ (if sd_cmd s n then [n] else [])\<rparr>
           | _ \<Rightarrow> t))"

datatype sg_act = SgCall nat node bool | SgGo nat | SgReceive

fun sg_step :: "signaled_threads \<Rightarrow> sg_act \<Rightarrow> signaled_threads" where
  "sg_step s (SgCall i n c) = sender_call i n c s"
| "sg_step s (SgGo i) = sg_send_step i s"
| "sg_step s SgReceive = sg_recv_step s"

fun sg_run :: "signaled_threads \<Rightarrow> sg_act list \<Rightarrow> signaled_threads" where
  "sg_run s [] = s"
| "sg_run s (a # as) = sg_run (sg_step s a) as"

lemma sg_run_append [simp]: "sg_run s (as @ bs) = sg_run (sg_run s as) bs"
  by (induction as arbitrary: s) simp_all

section \<open>Invariant\<close>

text \<open>The messages \<open>receive\<close> has yet to take out of the queue.\<close>

fun to_take :: "gpc \<Rightarrow> cpc \<Rightarrow> nat" where
  "to_take (GTake (Suc k)) (CDone (Some n)) = k"
| "to_take (GTake k) _ = k"
| "to_take GIdle _ = 0"

definition sg_inv :: "signaled_threads \<Rightarrow> bool" where
  "sg_inv s \<longleftrightarrow> senders_inv s \<and>
     (sg_recv s = GIdle \<or> sg_recv s = GTake 0 \<longrightarrow> cons (sd_mpsc s) = CStart) \<and>
     subseq (sg_ran s @ popped (cons (sd_mpsc s))) (taken (sd_mpsc s)) \<and>
     length (taken (sd_mpsc s)) + to_take (sg_recv s) (cons (sd_mpsc s)) + unat (sg_count s) \<le> sd_rung s"

lemma sg_inv_init: "sg_inv sg_started"
  by (simp add: sg_inv_def sg_started_def senders_inv_def mpsc_reach.init owing_def signaler_new_def)
    (simp add: mpsc_init_def)

lemma unat_signaler_send: "unat (fst (signaler_send c)) \<le> Suc (unat c)"
  by (simp add: signaler_send_def unat_word_ariths)

lemma signaler_recv_le:
  assumes "c \<noteq> 0"
  obtains t where "signaler_recv c = Inr (0, t)" "nat t \<le> unat c"
proof
  have "- 2147483648 \<le> uint (ucast c :: u32)" using uint_ge_0 [of "ucast c :: u32"] by linarith
  then have "sint (ucast c :: u32) \<le> uint (ucast c :: u32)"
    by (simp add: sint_uint signed_take_bit_int_less_eq_self_iff)
  also have "\<dots> \<le> uint c" by (simp add: unsigned_ucast_eq take_bit_int_less_eq_self_iff)
  finally show "nat (sint (ucast c :: u32)) \<le> unat c" by (simp add: nat_le_iff)
qed (use assms in \<open>simp add: signaler_recv_def\<close>)

lemma sg_more [simp]:
  "sg_count (sender_call i n c s) = sg_count s" "sg_recv (sender_call i n c s) = sg_recv s"
  "sg_ran (sender_call i n c s) = sg_ran s"
  "sg_count (sender_go i s) = sg_count s" "sg_recv (sender_go i s) = sg_recv s" "sg_ran (sender_go i s) = sg_ran s"
  by (simp_all add: sender_call_def sender_go_def Let_def split: spc.split)

lemma sg_inv_send:
  assumes "sg_inv s"
  shows "sg_inv (sg_send_step i s)"
proof (cases "sd_pc s i = SRing")
  case True
  let ?t = "sender_go i s"
  have "senders_inv (?t\<lparr>sg_count := c\<rparr>)" for c
    using sender_go_inv [of s i] senders_more [of ?t "?t\<lparr>sg_count := c\<rparr>"] assms by (simp add: sg_inv_def)
  then show ?thesis
    using assms True unat_signaler_send [of "sg_count s"] by (auto simp: sg_inv_def sg_send_step_def Let_def)
qed (use assms sender_go_inv in \<open>auto simp: sg_inv_def sg_send_step_def Let_def\<close>)

lemma to_take_open: "popped c = [] \<Longrightarrow> to_take (GTake k) c = k"
  by (cases "(GTake k, c)" rule: to_take.cases) auto

text \<open>A step within the loop of \<open>receive\<close>.\<close>

lemma sg_inv_pop:
  assumes inv: "sg_inv s" and g: "sg_recv s = GTake (Suc k)"
  shows "sg_inv (sg_recv_step s)"
proof -
  let ?m = "sd_mpsc s"
  have snd: "senders_inv t" if "sd_mpsc t = cons_step ?m" "sd_pc t = sd_pc s" "sd_rung t = sd_rung s" for t :: signaled_threads
    using receiver_inv [OF _ that] inv by (simp add: sg_inv_def)
  show ?thesis
  proof (cases "\<exists>n. cons ?m = CDone (Some n)")
    case True
    then obtain n where c: "cons ?m = CDone (Some n)" by blast
    then have st: "cons (cons_step ?m) = CStart" "taken (cons_step ?m) = taken ?m" by (simp_all add: cons_step_def)
    have "to_take (GTake k) CStart = k" by (rule to_take_open) simp
    then show ?thesis
      using inv g c st snd subseq_snocD by (auto simp: sg_inv_def sg_recv_step_def Let_def)
  next
    case False
    then have none: "popped (cons ?m) = []" by (intro popped_none) blast
    have st: "sg_recv_step s = s\<lparr>sd_mpsc := cons_step ?m\<rparr>"
      using g False by (auto simp: sg_recv_step_def Let_def split: cpc.split option.split)
    have sub: "subseq (sg_ran s) (taken ?m)" and n: "length (taken ?m) + Suc k + unat (sg_count s) \<le> sd_rung s"
      using inv g none to_take_open [OF none, of "Suc k"] by (simp_all add: sg_inv_def)
    show ?thesis
    proof (cases "\<exists>h n. cons ?m = CTake h n")
      case True
      then obtain h n where c: "cons ?m = CTake h n" by blast
      then have "cons (cons_step ?m) = CDone (Some h)" "taken (cons_step ?m) = taken ?m @ [h]"
        by (simp_all add: cons_step_def)
      then show ?thesis unfolding st using inv g snd n sub by (auto simp: sg_inv_def intro: list_emb_append_mono)
    next
      case no: False
      then have *: "taken (cons_step ?m) = taken ?m" "cons (cons_step ?m) \<noteq> CDone (Some h)" for h
        by (auto simp: cons_step_taken split: cpc.split)
      have p: "popped (cons (cons_step ?m)) = []" by (rule popped_none) (rule *(2))
      show ?thesis unfolding st using inv g snd n sub * p to_take_open [OF p, of "Suc k"] by (auto simp: sg_inv_def)
    qed
  qed
qed

lemma sg_inv_recv:
  assumes inv: "sg_inv s"
  shows "sg_inv (sg_recv_step s)"
proof (cases "sg_recv s")
  case GIdle
  show ?thesis
  proof (cases "sg_count s = 0")
    case False
    then obtain t where t: "signaler_recv (sg_count s) = Inr (0, t)" "nat t \<le> unat (sg_count s)" by (rule signaler_recv_le)
    have "to_take (GTake (nat t)) CStart = nat t" by (rule to_take_open) simp
    then show ?thesis
      using inv GIdle False t senders_more [of s "s\<lparr>sg_count := 0, sg_recv := GTake (nat t)\<rparr>"]
      by (auto simp: sg_inv_def sg_recv_step_def)
  qed (use inv GIdle in \<open>simp add: sg_recv_step_def\<close>)
next
  case (GTake j)
  show ?thesis
  proof (cases j)
    case 0
    then show ?thesis
      using inv GTake senders_more [of s "s\<lparr>sg_recv := GIdle\<rparr>"] by (auto simp: sg_inv_def sg_recv_step_def)
  next
    case (Suc k)
    then show ?thesis using sg_inv_pop [OF inv] GTake by simp
  qed
qed

lemma sg_inv_step: "sg_inv s \<Longrightarrow> sg_inv (sg_step s a)"
  using sender_call_inv sg_inv_send sg_inv_recv by (cases a) (auto simp: sg_inv_def)

lemma sg_inv_run: "sg_inv s \<Longrightarrow> sg_inv (sg_run s as)"
  by (induction as arbitrary: s) (auto intro: sg_inv_step)

section \<open>Receive returns\<close>

lemma cons_run_done_in: "rank (cons m) \<le> k \<Longrightarrow> \<exists>r. cons (cons_run k m) = CDone r"
proof (induction k arbitrary: m)
  case 0
  then show ?case by (simp add: rank_zero)
next
  case (Suc k)
  show ?case
  proof (cases "rank (cons m) = 0")
    case True
    then show ?thesis by (auto simp: rank_zero cons_run_done)
  next
    case False
    with Suc rank_step [of m] show ?thesis by (simp add: cons_run_step)
  qed
qed

abbreviation receives :: "nat \<Rightarrow> signaled_threads \<Rightarrow> signaled_threads" where
  "receives n s \<equiv> sg_run s (replicate n SgReceive)"

lemma receives_add: "receives (m + n) s = receives n (receives m s)"
  by (simp add: replicate_add)

lemma receives_prod: "prod (sd_mpsc (receives n s)) = prod (sd_mpsc s)"
proof (induction n arbitrary: s)
  case (Suc n)
  have "prod (sd_mpsc (sg_recv_step s)) = prod (sd_mpsc s)"
    by (simp add: sg_recv_step_def Let_def case_prod_beta split: gpc.split nat.split cpc.split option.split sum.split)
  then show ?case using Suc [of "sg_recv_step s"] by simp
qed simp

text \<open>The receiver's steps within \<open>pop\<close> are those of \<open>cons_run\<close>.\<close>

lemma receives_pop:
  "sg_recv s = GTake (Suc k) \<Longrightarrow> \<exists>n\<le>j. receives n s = s\<lparr>sd_mpsc := cons_run j (sd_mpsc s)\<rparr>"
proof (induction j arbitrary: s)
  case 0
  then show ?case by simp
next
  case (Suc j)
  show ?case
  proof (cases "\<exists>r. cons (sd_mpsc s) = CDone r")
    case True
    then show ?thesis by (auto simp: cons_run_done intro: exI [of _ 0])
  next
    case False
    let ?t = "s\<lparr>sd_mpsc := cons_step (sd_mpsc s)\<rparr>"
    have st: "sg_recv_step s = ?t" and run: "cons_run (Suc j) (sd_mpsc s) = cons_run j (cons_step (sd_mpsc s))"
      using False Suc.prems by (auto simp: sg_recv_step_def Let_def cons_run.simps(2) split: cpc.split)
    obtain n where n: "n \<le> j" "receives n ?t = ?t\<lparr>sd_mpsc := cons_run j (sd_mpsc ?t)\<rparr>"
      using Suc.IH [of ?t] Suc.prems by auto
    then have "receives (Suc n) s = s\<lparr>sd_mpsc := cons_run (Suc j) (sd_mpsc s)\<rparr>"
      by (simp add: st run)
    then show ?thesis using n(1) by (intro exI [of _ "Suc n"]) simp
  qed
qed

text \<open>No producer is between its exchange and its link.\<close>

definition settled :: "mpsc \<Rightarrow> bool" where
  "settled m \<longleftrightarrow> (\<forall>i p n. prod m i \<noteq> PLink p n)"

lemma settled_receives: "settled (sd_mpsc s) \<Longrightarrow> settled (sd_mpsc (receives n s))"
  by (simp add: settled_def receives_prod)

lemma sg_inv_receives: "sg_inv s \<Longrightarrow> sg_inv (receives n s)"
  by (rule sg_inv_run)

lemma next_message:
  assumes "sg_inv s" "settled (sd_mpsc s)" "sg_recv s = GTake (Suc k)" "cons (sd_mpsc s) = CStart"
  shows "\<exists>n\<le>11. sg_recv (receives n s) = GTake k \<and> cons (sd_mpsc (receives n s)) = CStart"
proof -
  let ?m = "cons_run 10 (sd_mpsc s)"
  have snd: "senders_inv s" using assms(1) by (simp add: sg_inv_def)
  have "to_take (GTake (Suc k)) CStart = Suc k" by (rule to_take_open) simp
  then have "length (taken (sd_mpsc s)) + Suc k \<le> sd_rung s" using assms(1,3,4) by (simp add: sg_inv_def)
  then have "live (chain (sd_mpsc s)) \<noteq> []" using rung_bound [OF snd] by auto
  then obtain x xs where x: "live (chain (sd_mpsc s)) = x # xs" by (cases "live (chain (sd_mpsc s))") auto
  then have c: "cons ?m = CDone (Some x)"
    using pop_quiet [OF senders_invD(1) [OF snd] assms(4)] assms(2) by (simp add: settled_def)
  obtain n where n: "n \<le> 10" "receives n s = s\<lparr>sd_mpsc := ?m\<rparr>" using receives_pop [OF assms(3)] by blast
  then have "receives (n + 1) s = sg_recv_step (s\<lparr>sd_mpsc := ?m\<rparr>)" by (simp only: receives_add) simp
  moreover have "sg_recv (sg_recv_step (s\<lparr>sd_mpsc := ?m\<rparr>)) = GTake k"
    "cons (sd_mpsc (sg_recv_step (s\<lparr>sd_mpsc := ?m\<rparr>))) = CStart"
    using c assms(3) by (simp_all add: sg_recv_step_def Let_def) (simp add: cons_step_def)
  ultimately show ?thesis using n(1) by (intro exI [of _ "n + 1"]) simp
qed

lemma receive_rest:
  "sg_inv s \<Longrightarrow> settled (sd_mpsc s) \<Longrightarrow> sg_recv s = GTake k \<Longrightarrow> cons (sd_mpsc s) = CStart \<Longrightarrow>
   \<exists>n\<le>11 * k + 1. sg_recv (receives n s) = GIdle"
proof (induction k arbitrary: s)
  case 0
  then have "sg_recv (receives 1 s) = GIdle" by (simp add: sg_recv_step_def)
  then show ?case by (intro exI [of _ 1]) simp
next
  case (Suc k)
  obtain n where n: "n \<le> 11" "sg_recv (receives n s) = GTake k" "cons (sd_mpsc (receives n s)) = CStart"
    using next_message [OF Suc.prems] by blast
  obtain m where m: "m \<le> 11 * k + 1" "sg_recv (receives m (receives n s)) = GIdle"
    using Suc.IH [OF sg_inv_receives [OF Suc.prems(1)] settled_receives [OF Suc.prems(2)] n(2,3)] by blast
  then show ?case using n(1) by (intro exI [of _ "n + m"]) (simp add: receives_add)
qed

text \<open>A \<open>pop\<close> that is under way is finished first, and may come back empty.\<close>

lemma receive_returns:
  assumes "sg_inv s" "settled (sd_mpsc s)" "sg_recv s = GTake k"
  shows "\<exists>n\<le>11 * k + 12. sg_recv (receives n s) = GIdle"
proof (cases k)
  case 0
  then have "cons (sd_mpsc s) = CStart" using assms(1,3) by (simp add: sg_inv_def)
  with receive_rest [OF assms] obtain n where "n \<le> 11 * k + 1" "sg_recv (receives n s) = GIdle" by blast
  then show ?thesis by (intro exI [of _ n]) simp
next
  case (Suc j)
  let ?m = "cons_run 10 (sd_mpsc s)"
  have "rank (cons (sd_mpsc s)) \<le> 10" by (cases "cons (sd_mpsc s)") simp_all
  then obtain r where r: "cons ?m = CDone r" using cons_run_done_in by blast
  obtain n where n: "n \<le> 10" "receives n s = s\<lparr>sd_mpsc := ?m\<rparr>" using receives_pop assms(3) Suc by blast
  let ?t = "sg_recv_step (s\<lparr>sd_mpsc := ?m\<rparr>)"
  have t: "receives (n + 1) s = ?t" by (simp only: receives_add n) simp
  have inv: "sg_inv ?t" "settled (sd_mpsc ?t)"
    using sg_inv_receives [OF assms(1), of "n + 1"] settled_receives [OF assms(2), of "n + 1"] by (simp_all only: t)
  have "sg_recv ?t = GTake (case r of None \<Rightarrow> k | Some _ \<Rightarrow> j) \<and> cons (sd_mpsc ?t) = CStart"
    using r assms(3) Suc by (simp add: sg_recv_step_def Let_def split: option.split) (simp add: cons_step_def)
  then obtain l where l: "sg_recv ?t = GTake l" "cons (sd_mpsc ?t) = CStart" "l \<le> k"
    using Suc by (cases r) auto
  from receive_rest [OF inv l(1,2)] obtain i where i: "i \<le> 11 * l + 1" "sg_recv (receives i ?t) = GIdle" by blast
  have "sg_recv (receives ((n + 1) + i) s) = GIdle" unfolding receives_add [of s "n + 1"] t by (rule i(2))
  then show ?thesis using n(1) l(3) i(1) by (intro exI [of _ "(n + 1) + i"]) simp
qed

text \<open>A thread between its exchange and its link needs one step.\<close>

lemma settle_step:
  assumes "sg_inv s" "prod (sd_mpsc s) i = PLink p n"
  shows "prod (sd_mpsc (sg_send_step i s)) = (prod (sd_mpsc s))(i := PIdle)"
proof -
  have "senders_inv s" using assms(1) by (simp add: sg_inv_def)
  from senders_invD(5) [OF this, of i] obtain c where "sd_pc s i = SPush c" using assms(2) by auto
  then show ?thesis using assms(2) by (simp add: sg_send_step_def sender_go_def prod_step_def Let_def)
qed

lemma settle:
  "sg_inv s \<Longrightarrow> distinct is \<Longrightarrow> set is = {i. \<exists>p n. prod (sd_mpsc s) i = PLink p n} \<Longrightarrow>
   settled (sd_mpsc (sg_run s (map SgGo is))) \<and> sg_recv (sg_run s (map SgGo is)) = sg_recv s"
proof (induction "is" arbitrary: s)
  case Nil
  then show ?case by (simp add: settled_def)
next
  case (Cons i js)
  have "i \<in> {i. \<exists>p n. prod (sd_mpsc s) i = PLink p n}" using Cons.prems(3) by (metis list.set_intros(1))
  then obtain p n where "prod (sd_mpsc s) i = PLink p n" by blast
  from settle_step [OF Cons.prems(1) this]
  have pr: "prod (sd_mpsc (sg_send_step i s)) = (prod (sd_mpsc s))(i := PIdle)" .
  have "set js = {j. \<exists>p n. prod (sd_mpsc (sg_send_step i s)) j = PLink p n}"
    using Cons.prems(2,3) by (auto simp: pr)
  moreover have "sg_recv (sg_send_step i s) = sg_recv s" by (simp add: sg_send_step_def Let_def)
  ultimately show ?case using Cons.IH [OF sg_inv_send [OF Cons.prems(1)]] Cons.prems(2) by simp
qed

section \<open>Properties\<close>

text \<open>C6. With any number of sending threads, under every schedule, \<open>receive\<close> takes the messages in the order of their
  exchanges and runs commands in that order, none twice, and the messages it is still to take, with those signalled
  since, are never more than are queued, so that it never waits for a message that nobody has sent.\<close>

theorem signaled_threads_order:
  "let s = sg_run sg_started as in
     sent (sd_mpsc s) = taken (sd_mpsc s) @ live (chain (sd_mpsc s)) \<and> subseq (sg_ran s) (taken (sd_mpsc s)) \<and>
     to_take (sg_recv s) (cons (sd_mpsc s)) + unat (sg_count s) \<le> length (live (chain (sd_mpsc s)))"
proof -
  have inv: "sg_inv (sg_run sg_started as)" by (rule sg_inv_run [OF sg_inv_init])
  then have snd: "senders_inv (sg_run sg_started as)" by (simp add: sg_inv_def)
  show ?thesis
    using inv senders_invD(2) [OF snd] rung_bound [OF snd]
    by (auto simp: Let_def sg_inv_def mpsc_inv_def intro: subseq_order.order_trans [OF list_emb_prefix])
qed

text \<open>C21. \<open>receive\<close> does not spin for ever. In any state that any number of sending threads and the receiver can
  reach, with \<open>receive\<close> about to take \<open>k\<close> more messages: let the threads that are between their exchange and
  their link take one step each; then \<open>11 * k + 12\<close> steps of the receiver are enough for it to return.\<close>

theorem signaled_threads_return:
  assumes "s = sg_run sg_started as" and "sg_recv s = GTake k" and "distinct is"
    and "set is = {i. \<exists>p n. prod (sd_mpsc s) i = PLink p n}"
  shows "\<exists>n\<le>11 * k + 12. sg_recv (sg_run s (map SgGo is @ replicate n SgReceive)) = GIdle"
proof -
  have inv: "sg_inv s" using assms(1) sg_inv_run [OF sg_inv_init] by simp
  let ?t = "sg_run s (map SgGo is)"
  have "settled (sd_mpsc ?t)" "sg_recv ?t = GTake k" using settle [OF inv assms(3,4)] assms(2) by simp_all
  with receive_returns [OF sg_inv_run [OF inv]] show ?thesis by simp
qed

definition receiving :: "sg_act list" where
  "receiving = [SgCall 0 (Node 1) True, SgGo 0, SgGo 0, SgGo 0, SgGo 0, SgReceive, SgCall 1 (Node 2) True, SgGo 1, SgGo 1]"

theorem signaled_threads_return_witness:
  "\<exists>n\<le>23. sg_recv (sg_run (sg_run sg_started receiving) (SgGo 1 # replicate n SgReceive)) = GIdle"
proof -
  have "sg_recv (sg_run sg_started receiving) = GTake 1"
    "[1] = [1] \<and> {1} = {i. \<exists>p n. prod (sd_mpsc (sg_run sg_started receiving)) i = PLink p n}"
    by (auto simp: receiving_def sg_started_def mpsc_init_def iq_init_def sender_call_def can_start_def
        sg_send_step_def sender_go_def prod_step_def sg_recv_step_def signaler_new_def signaler_send_def
        signaler_recv_def Let_def split: if_splits)
  then show ?thesis using signaled_threads_return [OF refl, of receiving 1 "[1]"] by simp
qed

end
