(* ===== verification/Spec2Isabelle.thy ===== *)
theory Spec2Isabelle
  imports Util IntMpscConc Eventcount MessageQueue SignaledQueue AsyncQueue
    MpscQueue CircularBuffer Address TsHashTable Arp Poluter PacketExtract Kvset Frontend NetBuffer
    StreamLink Reactor NetInfo SocketUtils Pgm Future Support SensorCore
    Request Callback Daemon KvsetMemory Watcher RwLock TableThreads
    Members Sockets LinkPair Texts
    MpscThreads AsyncThreads SignaledThreads
begin

text \<open>
  A development about the sensor: a daemon (\<open>src/frontend\<close>) that reads its options and runs a
  library (\<open>src/libsensor\<close>) which captures ARP traffic, asks for the hosts of its network,
  spoofs ARP replies, and talks to other sensors over TCP; its threads exchange commands
  through the queues of \<open>src/msgqueue\<close>.

  \<^bold>\<open>The parts and their theories.\<close>

  \<^item> \<open>Prelude\<close>: machine types of x86-64 Linux (little-endian, 64-bit \<open>size_t\<close>), faults as
    values, bounds-checked memory, byte order. Every definition that can leave an object, follow
    a null or uninitialised pointer, fail an \<open>assert\<close> or throw returns a \<open>result\<close>.
  \<^item> Base: \<open>BitCount\<close> and \<open>Util\<close> (\<open>base/util.c\<close>: bit count, message cursor, hexadecimal reader), \<open>Texts\<close> (its texts of addresses and times),
    \<open>CircularBuffer\<close> (\<open>base/circular_buffer\<close>, \<open>net/socket_buffer\<close>), \<open>Address\<close> (\<open>base/hash.hpp\<close>,
    \<open>hw_address\<close>, \<open>internet_address\<close>, \<open>reactor/address\<close>, \<open>service/negotiation_model\<close>), \<open>Watcher\<close>
    (\<open>service/sensor_watcher\<close>),
    \<open>RwLock\<close> (\<open>threading.hpp\<close>, and what an object under a readers-writer lock promises its threads, as a
    locale), \<open>TsHashTable\<close> and \<open>TableThreads\<close> (\<open>base/ts_hash_table.hpp\<close>, run by one thread and by many),
    \<open>Support\<close> (\<open>base/clock.c\<close>, \<open>random.c\<close>, \<open>debug.c\<close> and
    the timers of \<open>sensor_main.cpp\<close>).
  \<^item> Queues: \<open>QueueSpec\<close> states what a first-in first-out queue promises as a locale;
    \<open>Segments\<close> holds the lemmas on lists with links still to be written;
    \<open>IntMpscQueue\<close> and \<open>IntMpscConc\<close> model \<open>queue/int_mpsc_queue.hpp\<close> run by one thread and under
    all interleavings, \<open>MpscQueue\<close> and \<open>MpscThreads\<close> the queue of copied data in the same two ways, \<open>Eventcount\<close> the blocking consumer,
    \<open>Messages\<close>, \<open>MessageQueue\<close>, \<open>SignaledQueue\<close> and \<open>AsyncQueue\<close> the three message queues made
    of them, \<open>Senders\<close>, \<open>AsyncThreads\<close> and \<open>SignaledThreads\<close> the last two under all interleavings of their senders and
    the receiver, \<open>Members\<close> the same queues with a worker, \<open>Future\<close> and \<open>Request\<close> the futures, promises and commands of \<open>msgqueue/cmd\<close>: the
    threads that set and wait for a value, and who owns it; \<open>Callback\<close> the bound functions.
  \<^item> Network: \<open>Arp\<close> (\<open>net/arputil.c\<close>, \<open>handlePacket\<close>), \<open>PacketExtract\<close>, \<open>NetInfo\<close>, \<open>SocketUtils\<close> and
    \<open>Pgm\<close> (the files of the same name), \<open>Poluter\<close> (survey and spoofing).
  \<^item> Reactor: \<open>StreamSpec\<close> states what a byte buffer promises a stream as a locale; \<open>NetBuffer\<close>
    (\<open>reactor/buffer.hpp\<close>, \<open>utils.cpp\<close>) keeps it; \<open>StreamLink\<close> (\<open>stream_link.cpp\<close>,
    \<open>event_loop.hpp\<close>), \<open>LinkPair\<close> (two links and the network between them), \<open>Sockets\<close> (\<open>socket.cpp\<close>),
    \<open>Reactor\<close> (\<open>tcp_acceptor.cpp\<close>, \<open>tcp_connector.cpp\<close>, \<open>timer\<close>,
    \<open>sensor_service.cpp\<close>).
  \<^item> The program: \<open>Kvset\<close> and \<open>Frontend\<close> (\<open>kvset.c\<close>, \<open>arguments.c\<close>, \<open>sensord.c\<close>), \<open>SensorCore\<close>
    (\<open>sensor_main.cpp\<close>, \<open>raw_packet_handler.cpp\<close>, \<open>traffic_capture.cpp\<close>), \<open>Daemon\<close> (\<open>main\<close> of \<open>sensord.c\<close>
    over both), \<open>KvsetMemory\<close> (what \<open>kvset.c\<close> allocates and frees).

  \<^bold>\<open>How state and operations correspond.\<close> A struct or class is a record with the source's
  fields, an operation a definition of the source's name, with a prefix where HOL or another
  part has the name. What the kernel, libev, libpcap, OpenPGM and the C library's input answer is
  a parameter of the operation; the calls made on them are recorded as a trace where a property
  is about them. Callbacks are the list of calls their body makes. Memory that was never
  written is \<open>None\<close>, or an arbitrary value given as a parameter (the watcher in \<open>StreamLink\<close>).
  Node pointers are addresses of an explicit heap in \<open>MpscQueue\<close> and \<open>IntMpscQueue\<close>; the chains
  of the hash table are lists.

  \<^bold>\<open>What the lemmas show.\<close> The intrusive queue is a first-in first-out queue under every
  interleaving, keeps the order of each producer, its \<open>pop\<close> answers within ten steps and with nothing only for cause, and
  what it returned is neither read nor written again; no
  thread of the queue of copied data touches a freed node. The signaled queue's \<open>receive\<close> returns, once the sends under
  way have linked their messages; the asynchronous queue runs commands in order and at most one per callback, and can
  be stopped for good by an untimely \<open>pop\<close>. The
  blocking consumer, over a count of elements, and the future lose no wake-up; a request through a queue is answered by its
  future, and its command, state and result are deleted once. The hash table refines a finite map, also
  for threads that work on it at once, and none of them waits for ever; a stream link that its receives do not overrun
  keeps both of its byte streams through short sends and errors, and two of them deliver what is written; a configuration,
  a message and the routing table are read back as they were written, ARP replies are recognised to the byte, the survey
  asks every host once, every option of the file reaches its field. Where the code departs from what it means to do, the property
  states what it does: the message queue that never delivers, the buffers that overrun, the
  link that never waits for input, the service whose constructor always throws, so that
  \<open>sensor_main\<close> never gets to its threads and the daemon's supervisor starts it again for ever.

  \<^bold>\<open>Bounds and termination.\<close> Loops are structural recursion or have a measure (the reading
  of files line by line); \<open>MessageQueue::run\<close>, the destructor of \<open>MpscQueue\<close> and the
  receiving loop of \<open>SignaledQueue\<close> are partial functions, proved to return, or to sleep, where the
  properties say so. The hash table is shown
  correct for up to \<open>2 ^ 29\<close> calls, far below where its sizes or the \<open>float\<close> load factor would
  round; the stream link for up to \<open>2 ^ 62\<close> bytes written.

  \<^bold>\<open>Assumptions.\<close> Shared memory is sequentially consistent; locks and condition variables do what
  pthreads promises; libev delivers to an active watcher the events it waits for, and \<open>EV_ERROR\<close> where its descriptor
  cannot be watched; a receive brings no more than it was asked for; \<open>NDEBUG\<close> is not set, so that assertions are checked
  and messages formatted (a format without its arguments is a fault); \<open>strerror_r\<close> returns a text, as glibc's does.
  \<open>send\<close> of \<open>AsyncQueue\<close> and of \<open>SignaledQueue\<close>, which cannot be instantiated as written, is modelled with the missing
  template parameter supplied; \<open>request\<close> takes the same steps.

  \<^bold>\<open>Not modelled.\<close> \<open>mpsc_pipe.hpp\<close> and \<open>handle_pool.hpp\<close> (templates that cannot be instantiated),
  what the capture and poluter threads do between the start of the sensor and its end (the classes are
  modelled, the operations on the poluter's queue are a parameter of \<open>sensor_main\<close>), the text that libc formats
  and the help texts of the options.
\<close>

end
